(* ===== verification/Prelude.thy ===== *)
theory Prelude
  imports Main "HOL-Library.Word" "HOL-Library.Signed_Division" "HOL-Library.Sublist"
begin

text \<open>
  Shared vocabulary of the development: the Go types the components use (bytes, 64-bit
  integers with their wrap-around written out), the outcome of a Go statement that can
  panic or block for ever, and the generic lemmas on lists and integers that the component
  proofs share. Collections:
  \<^item> \<open>go_int\<close>: evaluation of 64-bit arithmetic on values known to be in range;
  \<^item> \<open>outcome_simps\<close>: sequencing of operations that may fail.
\<close>

named_theorems go_int \<open>range facts and evaluation of fixed-width Go integers\<close>
named_theorems outcome_simps \<open>sequencing of fallible Go operations\<close>

type_synonym byte = "8 word"
type_synonym bytes = "byte list"

subsection \<open>Fixed-width integers\<close>

text \<open>
  Unsigned 64-bit values are natural numbers reduced by \<open>u64\<close> after every operation that
  can leave the range; signed ones (\<open>int64\<close>, \<open>time.Duration\<close>) are integers reduced by
  \<open>s64\<close>. Division and remainder of signed values truncate towards zero (\<open>sdiv\<close>, \<open>smod\<close>).
\<close>

definition u64 :: "nat \<Rightarrow> nat" where
  "u64 n = n mod 2 ^ 64"

definition u32 :: "nat \<Rightarrow> nat" where
  "u32 n = n mod 2 ^ 32"

definition s64 :: "int \<Rightarrow> int" where
  "s64 x = (x + 2 ^ 63) mod 2 ^ 64 - 2 ^ 63"

definition in_s64 :: "int \<Rightarrow> bool" where
  "in_s64 x \<longleftrightarrow> - (2 ^ 63) \<le> x \<and> x < 2 ^ 63"

text \<open>One second as a \<open>time.Duration\<close> (nanoseconds).\<close>

abbreviation second :: int where
  "second \<equiv> 1000000000"

abbreviation max_int64 :: int where
  "max_int64 \<equiv> 9223372036854775807"

subsection \<open>Statements that may not complete\<close>

datatype go_panic =
    SendOnClosed | CloseOfClosed | IndexOutOfRange | NilDeref
  | Deadlock \<comment> \<open>a blocking operation that no other goroutine can ever unblock\<close>

type_synonym 'a outcome = "go_panic + 'a"

definition and_then :: "'e + 'a \<Rightarrow> ('a \<Rightarrow> 'e + 'b) \<Rightarrow> 'e + 'b" where
  "and_then m k = (case m of Inl p \<Rightarrow> Inl p | Inr x \<Rightarrow> k x)"

fun for_each :: "('a \<Rightarrow> 's \<Rightarrow> 'e + 's) \<Rightarrow> 'a list \<Rightarrow> 's \<Rightarrow> 'e + 's" where
  "for_each f [] s = Inr s"
| "for_each f (x # xs) s = and_then (f x s) (for_each f xs)"

definition is_ok :: "'e + 'a \<Rightarrow> bool" where
  "is_ok r \<longleftrightarrow> (\<exists>x. r = Inr x)"

subsection \<open>Lemmas on integers\<close>

lemma u64_id [go_int]: "n < 2 ^ 64 \<Longrightarrow> u64 n = n"
  by (simp add: u64_def)

lemma u64_less [simp]: "u64 n < 2 ^ 64" "u64 n < 18446744073709551616"
  by (simp_all add: u64_def)

lemma u32_id [go_int]: "n < 2 ^ 32 \<Longrightarrow> u32 n = n"
  by (simp add: u32_def)

lemma u32_less [simp]: "u32 n < 2 ^ 32" "u32 n < 4294967296"
  by (simp_all add: u32_def)

lemma in_s64_s64 [simp]: "in_s64 (s64 x)"
proof -
  have "0 \<le> (x + 2 ^ 63) mod 2 ^ 64" "(x + 2 ^ 63) mod 2 ^ 64 < (2 ^ 64 :: int)"
    by simp_all
  then show ?thesis by (simp add: in_s64_def s64_def)
qed

lemma s64_id [go_int]: "in_s64 x \<Longrightarrow> s64 x = x"
  by (simp add: s64_def in_s64_def)

lemma s64_eq_iff: "s64 x = x \<longleftrightarrow> in_s64 x"
  using in_s64_s64 [of x] s64_id [of x] by metis

lemma sdiv_nonneg [go_int]: "0 \<le> x \<Longrightarrow> 0 < y \<Longrightarrow> x sdiv y = x div (y :: int)"
  by (cases "x = 0") (simp_all add: signed_divide_int_def)

lemma smod_nonneg [go_int]: "0 \<le> x \<Longrightarrow> 0 < y \<Longrightarrow> x smod y = x mod (y :: int)"
  by (cases "x = 0") (simp_all add: signed_modulo_int_def)

lemma byte_less [simp]: "unat (x :: byte) < 256"
proof -
  have "unat x < 2 ^ LENGTH(8)" by (rule unsigned_less)
  then show ?thesis by simp
qed

subsection \<open>Lemmas on outcomes\<close>

lemma and_then_Inr [outcome_simps, simp]: "and_then (Inr x) k = k x"
  by (simp add: and_then_def)

lemma and_then_Inl [outcome_simps, simp]: "and_then (Inl p) k = Inl p"
  by (simp add: and_then_def)

lemma and_then_eq_Inr [outcome_simps]:
  "and_then m k = Inr y \<longleftrightarrow> (\<exists>x. m = Inr x \<and> k x = Inr y)"
  by (cases m) auto

lemma for_each_append:
  "for_each f (xs @ ys) s = and_then (for_each f xs s) (for_each f ys)"
  by (induction xs arbitrary: s) (auto simp: and_then_def split: sum.splits)

text \<open>
  The loop rule: an invariant under which the body succeeds and that the body keeps makes
  the whole loop succeed and hold the invariant at the end.
\<close>

lemma for_each_invariant:
  assumes "I s"
    and "\<And>x s. x \<in> set xs \<Longrightarrow> I s \<Longrightarrow> \<exists>s'. f x s = Inr s' \<and> I s'"
  shows "\<exists>s'. for_each f xs s = Inr s' \<and> I s'"
  using assms
proof (induction xs arbitrary: s)
  case Nil
  then show ?case by simp
next
  case (Cons x xs)
  then obtain s1 where s1: "f x s = Inr s1" "I s1" by (meson list.set_intros(1))
  then have "\<exists>s'. for_each f xs s1 = Inr s' \<and> I s'"
    using Cons.prems(2) by (intro Cons.IH) auto
  with s1 show ?case by simp
qed

subsection \<open>Lemmas on lists\<close>

lemma last_drop_append:
  "xs \<noteq> [] \<Longrightarrow> last (ys @ xs) = last xs"
  by simp

lemma upt_snoc: "i \<le> j \<Longrightarrow> [i..<j] @ [j] = [i..<Suc j]"
  by simp

lemma distinct_remove1_set: "distinct xs \<Longrightarrow> set (remove1 x xs) = set xs - {x}"
  by (rule set_remove1_eq)

end
