(* ===== verification/Go_Chan.thy ===== *)
theory Go_Chan
  imports Prelude
begin

text \<open>
  Buffered Go channels, as the program uses them: a bounded FIFO with a closed flag. A
  send in a \<open>select\<close> with a \<open>default\<close> branch (\<open>offer\<close>) never blocks and gives the new element
  up when the buffer is full; a send or a close on a closed channel panics; a receive takes
  the oldest element, and reports the closed state only once the buffer is drained.

  The locale \<open>lossy_queue\<close> is the contract every fan-out component of the program relies on
  (frame readers, metadata and log subscribers, event workers, the MQTT queue); it is
  interpreted on the channel model at the end.
\<close>

record 'a chan =
  ch_cap :: nat
  ch_buf :: "'a list"
  ch_closed :: bool

definition make_chan :: "nat \<Rightarrow> 'a chan" where
  "make_chan n = \<lparr>ch_cap = n, ch_buf = [], ch_closed = False\<rparr>"

definition offer :: "'a \<Rightarrow> 'a chan \<Rightarrow> ('a chan \<times> bool) outcome" where
  "offer x c =
     (if ch_closed c then Inl SendOnClosed
      else if length (ch_buf c) < ch_cap c
      then Inr (c\<lparr>ch_buf := ch_buf c @ [x]\<rparr>, True)
      else Inr (c, False))"

text \<open>A plain send statement. Where nobody else can reach the channel yet, a full buffer is
  a deadlock.\<close>

definition send_unshared :: "'a \<Rightarrow> 'a chan \<Rightarrow> 'a chan outcome" where
  "send_unshared x c =
     (if ch_closed c then Inl SendOnClosed
      else if length (ch_buf c) < ch_cap c then Inr (c\<lparr>ch_buf := ch_buf c @ [x]\<rparr>)
      else Inl Deadlock)"

definition close_chan :: "'a chan \<Rightarrow> 'a chan outcome" where
  "close_chan c = (if ch_closed c then Inl CloseOfClosed else Inr (c\<lparr>ch_closed := True\<rparr>))"

datatype 'a recv_result = Received 'a "'a chan" | RecvClosed | RecvBlocks

definition recv :: "'a chan \<Rightarrow> 'a recv_result" where
  "recv c =
     (case ch_buf c of
        x # xs \<Rightarrow> Received x (c\<lparr>ch_buf := xs\<rparr>)
      | [] \<Rightarrow> if ch_closed c then RecvClosed else RecvBlocks)"

definition chan_ok :: "'a chan \<Rightarrow> bool" where
  "chan_ok c \<longleftrightarrow> length (ch_buf c) \<le> ch_cap c"

text \<open>Offering a list of elements one after the other, ignoring which were accepted.\<close>

definition offer_all ::
  "('a \<Rightarrow> 'q \<Rightarrow> ('q \<times> bool) outcome) \<Rightarrow> 'a list \<Rightarrow> 'q \<Rightarrow> 'q outcome" where
  "offer_all off = for_each (\<lambda>x q. and_then (off x q) (\<lambda>(q', _). Inr q'))"

subsection \<open>The contract of a lossy queue\<close>

locale lossy_queue =
  fixes off :: "'a \<Rightarrow> 'q \<Rightarrow> ('q \<times> bool) outcome"
    and contents :: "'q \<Rightarrow> 'a list"
    and capacity :: "'q \<Rightarrow> nat"
    and is_open :: "'q \<Rightarrow> bool"
  assumes off_room: "is_open q \<Longrightarrow> length (contents q) < capacity q \<Longrightarrow>
      \<exists>q'. off x q = Inr (q', True) \<and> contents q' = contents q @ [x] \<and>
           capacity q' = capacity q \<and> is_open q'"
    and off_full: "is_open q \<Longrightarrow> \<not> length (contents q) < capacity q \<Longrightarrow>
      off x q = Inr (q, False)"
begin

lemma off_total: "is_open q \<Longrightarrow> \<exists>q' b. off x q = Inr (q', b) \<and> is_open q'"
  using off_room off_full by (metis (full_types))

lemma off_contents:
  assumes "is_open q" "off x q = Inr (q', b)"
  shows "contents q' = (if b then contents q @ [x] else contents q)"
    and "b \<longleftrightarrow> length (contents q) < capacity q"
    and "capacity q' = capacity q" and "is_open q'"
  using off_room [of q x] off_full [of q x] assms
  by (cases "length (contents q) < capacity q"; fastforce)+

text \<open>Drop-newest: what survives of a burst is its longest prefix that fits.\<close>

lemma offer_all_contents:
  assumes "is_open q" "length (contents q) \<le> capacity q"
  shows "\<exists>q'. offer_all off xs q = Inr q' \<and> is_open q' \<and> capacity q' = capacity q \<and>
    contents q' = contents q @ take (capacity q - length (contents q)) xs"
  using assms
proof (induction xs arbitrary: q)
  case Nil
  then show ?case by (auto simp: offer_all_def)
next
  case (Cons x xs)
  obtain q1 b where q1: "off x q = Inr (q1, b)"
    using off_total [OF Cons.prems(1)] by blast
  note c1 = off_contents [OF Cons.prems(1) q1]
  have "length (contents q1) \<le> capacity q1"
    using c1 Cons.prems(2) by (auto split: if_splits)
  from Cons.IH [OF c1(4) this] obtain q' where
    q': "offer_all off xs q1 = Inr q'" "is_open q'" "capacity q' = capacity q1"
      "contents q' = contents q1 @ take (capacity q1 - length (contents q1)) xs"
    by blast
  have "contents q' = contents q @ take (capacity q - length (contents q)) (x # xs)"
  proof (cases "length (contents q) < capacity q")
    case True
    then show ?thesis using q' c1 by (simp add: take_Cons' Suc_diff_Suc)
  next
    case False
    then show ?thesis using q' c1 Cons.prems(2) by simp
  qed
  with q' q1 c1(3) show ?case by (auto simp: offer_all_def)
qed

end

interpretation chan_q: lossy_queue offer ch_buf ch_cap "\<lambda>c. \<not> ch_closed c"
  by unfold_locales (auto simp: offer_def)

subsection \<open>Facts about channels\<close>

lemma make_chan_simps [simp]:
  "ch_cap (make_chan n) = n" "ch_buf (make_chan n) = []" "ch_closed (make_chan n) = False"
  by (simp_all add: make_chan_def)

lemma chan_ok_close [simp]: "chan_ok (c\<lparr>ch_closed := b\<rparr>) = chan_ok c"
  by (simp add: chan_ok_def)

lemma offer_closed_simps [simp]: "ch_closed c \<Longrightarrow> offer x c = Inl SendOnClosed"
  by (simp add: offer_def)

lemma offer_cases:
  assumes "offer x c = Inr (c', b)"
  obtains (accepted) "b" "\<not> ch_closed c" "length (ch_buf c) < ch_cap c"
      "c' = c\<lparr>ch_buf := ch_buf c @ [x]\<rparr>"
  | (dropped) "\<not> b" "\<not> ch_closed c" "\<not> length (ch_buf c) < ch_cap c" "c' = c"
  using assms by (auto simp: offer_def split: if_splits)

lemma chan_ok_offer: "chan_ok c \<Longrightarrow> offer x c = Inr (c', b) \<Longrightarrow> chan_ok c'"
  by (erule offer_cases) (auto simp: chan_ok_def)

lemma chan_ok_recv: "chan_ok c \<Longrightarrow> recv c = Received x c' \<Longrightarrow> chan_ok c'"
  by (auto simp: chan_ok_def recv_def split: list.splits if_splits)

lemma recv_Received_iff:
  "recv c = Received x c' \<longleftrightarrow> ch_buf c = x # ch_buf c' \<and> c' = c\<lparr>ch_buf := ch_buf c'\<rparr>"
  by (cases c; cases c') (auto simp: recv_def split: list.splits if_splits)

lemma recv_closed_iff: "recv c = RecvClosed \<longleftrightarrow> ch_buf c = [] \<and> ch_closed c"
  by (auto simp: recv_def split: list.splits if_splits)

end
