(* ===== verification/RingBuffer.thy ===== *)
theory RingBuffer
  imports Go_Chan
begin

text \<open>
  \<open>internal/buffer\<close>: the per-camera frame ring and its readers. The Go pointers to
  \<open>Reader\<close> objects are addresses (natural numbers) into the store \<open>rb_readers\<close>, so that
  the \<open>subs\<close> map, the \<open>subsSlice\<close> slice and the consumers share one object as in the code.
  Every method runs under the ring's mutex and is one atomic step; the step relation
  \<open>ring_step\<close> interleaves the producer, any number of consumers and \<open>Close\<close> arbitrarily.

  Shown: the circular slots hold exactly the newest frames (refinement of the ring by a
  window on the list of all frames written); no method panics or blocks; a subscriber starts
  at the newest retained keyframe; and every frame a reader is handed either follows the
  previous one in the stream or is a keyframe, whatever was dropped in between.
\<close>

record frame =
  Timestamp :: int
  IsKeyFrame :: bool
  NALUs :: "bytes list"

record codec_params =
  VPS :: "bytes option"
  SPS :: "bytes option"
  PPS :: "bytes option"

type_synonym reader_id = nat

record reader =
  rd_C :: "frame chan"
  Drops :: nat
  NeedsIFrame :: bool

record ring_buffer =
  rb_frames :: "frame option list"
  rb_capacity :: nat
  rb_head :: nat
  rb_closed :: bool
  cameraID :: string
  metricDrops :: string
  rb_params :: "codec_params option"
  subs :: "reader_id set"
  subsSlice :: "reader_id list"
  totalDrops :: nat
  rb_readers :: "reader_id \<rightharpoonup> reader"
  rb_fresh :: reader_id
  RingbufferDropsTotal :: "string \<Rightarrow> nat"

definition NewRingBuffer :: "int \<Rightarrow> ring_buffer" where
  "NewRingBuffer capacity =
     (let cap = nat (if capacity \<le> 0 then 100 else capacity) in
      \<lparr>rb_frames = replicate cap None, rb_capacity = cap, rb_head = 0, rb_closed = False,
       cameraID = ''unknown'', metricDrops = ''unknown'', rb_params = None,
       subs = {}, subsSlice = [], totalDrops = 0,
       rb_readers = Map.empty, rb_fresh = 0, RingbufferDropsTotal = (\<lambda>_. 0)\<rparr>)"

definition SetCameraID :: "string \<Rightarrow> ring_buffer \<Rightarrow> ring_buffer" where
  "SetCameraID i rb = rb\<lparr>cameraID := i, metricDrops := i\<rparr>"

definition GetTotalDrops :: "ring_buffer \<Rightarrow> nat" where
  "GetTotalDrops rb = totalDrops rb"

subsection \<open>Write\<close>

definition store_frame :: "frame \<Rightarrow> ring_buffer \<Rightarrow> ring_buffer outcome" where
  "store_frame f rb =
     (let idx = rb_head rb mod rb_capacity rb in
      if idx < length (rb_frames rb)
      then Inr (rb\<lparr>rb_frames := (rb_frames rb)[idx := Some f],
                  rb_head := u64 (rb_head rb + 1)\<rparr>)
      else Inl IndexOutOfRange)"

definition count_drop :: "reader_id \<Rightarrow> reader \<Rightarrow> ring_buffer \<Rightarrow> ring_buffer" where
  "count_drop i r rb =
     rb\<lparr>rb_readers := (rb_readers rb)(i \<mapsto> r\<lparr>Drops := u64 (Drops r + 1), NeedsIFrame := True\<rparr>),
        RingbufferDropsTotal :=
          (RingbufferDropsTotal rb)(metricDrops rb := RingbufferDropsTotal rb (metricDrops rb) + 1),
        totalDrops := u64 (totalDrops rb + 1)\<rparr>"

text \<open>The body of the broadcast loop, for one subscriber.\<close>

definition deliver :: "frame \<Rightarrow> reader_id \<Rightarrow> ring_buffer \<Rightarrow> ring_buffer outcome" where
  "deliver f i rb =
     (case rb_readers rb i of
        None \<Rightarrow> Inl NilDeref
      | Some sub \<Rightarrow>
          if NeedsIFrame sub \<and> \<not> IsKeyFrame f then Inr rb
          else let sub1 = sub\<lparr>NeedsIFrame := False\<rparr> in
            and_then (offer f (rd_C sub1)) (\<lambda>(c, sent).
              if sent then Inr (rb\<lparr>rb_readers := (rb_readers rb)(i \<mapsto> sub1\<lparr>rd_C := c\<rparr>)\<rparr>)
              else Inr (count_drop i sub1 rb)))"

definition rb_Write :: "frame \<Rightarrow> ring_buffer \<Rightarrow> ring_buffer outcome" where
  "rb_Write f rb =
     (if rb_closed rb then Inr rb
      else and_then (store_frame f rb) (\<lambda>rb1. for_each (deliver f) (subsSlice rb1) rb1))"

subsection \<open>Codec parameters\<close>

definition cloneBytes :: "bytes option \<Rightarrow> bytes option" where
  "cloneBytes b = (case b of None \<Rightarrow> None | Some xs \<Rightarrow> Some (take (length xs) xs))"

definition SetParams ::
  "bytes option \<Rightarrow> bytes option \<Rightarrow> bytes option \<Rightarrow> ring_buffer \<Rightarrow> ring_buffer" where
  "SetParams vps sps pps rb =
     rb\<lparr>rb_params := Some \<lparr>VPS = cloneBytes vps, SPS = cloneBytes sps, PPS = cloneBytes pps\<rparr>\<rparr>"

definition GetCodecParams :: "ring_buffer \<Rightarrow> codec_params option" where
  "GetCodecParams rb = rb_params rb"

definition GetParams :: "ring_buffer \<Rightarrow> bytes option \<times> bytes option \<times> bytes option" where
  "GetParams rb =
     (case rb_params rb of
        None \<Rightarrow> (None, None, None)
      | Some p \<Rightarrow> (cloneBytes (VPS p), cloneBytes (SPS p), cloneBytes (PPS p)))"

subsection \<open>Close\<close>

definition close_reader_chan :: "reader_id \<Rightarrow> ring_buffer \<Rightarrow> ring_buffer outcome" where
  "close_reader_chan i rb =
     (case rb_readers rb i of
        None \<Rightarrow> Inl NilDeref
      | Some sub \<Rightarrow> and_then (close_chan (rd_C sub)) (\<lambda>c.
          Inr (rb\<lparr>rb_readers := (rb_readers rb)(i \<mapsto> sub\<lparr>rd_C := c\<rparr>)\<rparr>)))"

definition rb_Close :: "ring_buffer \<Rightarrow> ring_buffer outcome" where
  "rb_Close rb =
     (if rb_closed rb then Inr rb
      else and_then (for_each close_reader_chan (subsSlice rb) (rb\<lparr>rb_closed := True\<rparr>))
        (\<lambda>rb1. Inr (rb1\<lparr>subs := {}, subsSlice := []\<rparr>)))"

subsection \<open>Subscribe\<close>

text \<open>The backward scan for the newest keyframe, from loop counter \<open>i\<close> on.\<close>

function findLastIFrame_from :: "ring_buffer \<Rightarrow> nat \<Rightarrow> nat \<times> bool \<times> nat" where
  "findLastIFrame_from rb i =
     (if i < rb_capacity rb then
        let step = i + 1 in
        if rb_head rb < step then (rb_head rb, False, rb_head rb)
        else
          let idx = rb_head rb - step in
          (case rb_frames rb ! (idx mod rb_capacity rb) of
             Some fr \<Rightarrow> if IsKeyFrame fr then (idx, True, rb_head rb)
                        else findLastIFrame_from rb (i + 1)
           | None \<Rightarrow> findLastIFrame_from rb (i + 1))
      else (rb_head rb, False, rb_head rb))"
  by pat_completeness auto
termination
  by (relation "measure (\<lambda>(rb, i). rb_capacity rb - i)") auto

declare findLastIFrame_from.simps [simp del]

definition findLastIFrameLocked :: "ring_buffer \<Rightarrow> nat \<times> bool \<times> nat" where
  "findLastIFrameLocked rb = findLastIFrame_from rb 0"

definition preload_one :: "ring_buffer \<Rightarrow> nat \<Rightarrow> frame chan \<Rightarrow> frame chan outcome" where
  "preload_one rb i c =
     (case rb_frames rb ! (i mod rb_capacity rb) of
        None \<Rightarrow> Inr c
      | Some f \<Rightarrow> send_unshared f c)"

definition register_reader :: "reader \<Rightarrow> ring_buffer \<Rightarrow> reader_id \<times> ring_buffer" where
  "register_reader r rb =
     (rb_fresh rb,
      rb\<lparr>rb_readers := (rb_readers rb)(rb_fresh rb \<mapsto> r), rb_fresh := rb_fresh rb + 1,
         subs := insert (rb_fresh rb) (subs rb), subsSlice := subsSlice rb @ [rb_fresh rb]\<rparr>)"

definition Subscribe :: "ring_buffer \<Rightarrow> (reader_id \<times> ring_buffer) outcome" where
  "Subscribe rb =
     (let r = \<lparr>rd_C = make_chan (rb_capacity rb), Drops = 0, NeedsIFrame = False\<rparr> in
      if rb_closed rb then
        and_then (close_chan (rd_C r)) (\<lambda>c.
          Inr (rb_fresh rb,
               rb\<lparr>rb_readers := (rb_readers rb)(rb_fresh rb \<mapsto> r\<lparr>rd_C := c\<rparr>),
                  rb_fresh := rb_fresh rb + 1\<rparr>))
      else
        (case findLastIFrameLocked rb of
           (startIdx, found, head) \<Rightarrow>
             if found then
               and_then (for_each (preload_one rb) [startIdx..<head] (rd_C r)) (\<lambda>c.
                 Inr (register_reader (r\<lparr>rd_C := c\<rparr>) rb))
             else if 0 < head then Inr (register_reader (r\<lparr>NeedsIFrame := True\<rparr>) rb)
             else Inr (register_reader r rb)))"

definition NewReader :: "ring_buffer \<Rightarrow> (reader_id \<times> ring_buffer) outcome" where
  "NewReader = Subscribe"

definition Reader_Close :: "reader_id \<Rightarrow> ring_buffer \<Rightarrow> ring_buffer" where
  "Reader_Close i rb =
     (if i \<notin> subs rb then rb
      else rb\<lparr>subs := subs rb - {i}, subsSlice := remove1 i (subsSlice rb)\<rparr>)"

subsection \<open>Reading\<close>

datatype read_error = CtxErr string | EOF

text \<open>
  \<open>ReadContext\<close> waits on two channels; when both are ready Go picks either, so it is a
  relation. \<open>ctx\<close> is the context's error, \<open>None\<close> while it is not done.
\<close>

inductive ReadContext ::
  "string option \<Rightarrow> reader_id \<Rightarrow> ring_buffer \<Rightarrow> read_error + frame \<Rightarrow> ring_buffer \<Rightarrow> bool" where
  ctx_done: "ReadContext (Some e) i rb (Inl (CtxErr e)) rb"
| got_frame: "rb_readers rb i = Some r \<Longrightarrow> recv (rd_C r) = Received f c \<Longrightarrow>
    ReadContext ctx i rb (Inr f) (rb\<lparr>rb_readers := (rb_readers rb)(i \<mapsto> r\<lparr>rd_C := c\<rparr>)\<rparr>)"
| got_eof: "rb_readers rb i = Some r \<Longrightarrow> recv (rd_C r) = RecvClosed \<Longrightarrow>
    ReadContext ctx i rb (Inl EOF) rb"

inductive_cases ReadContext_frameE: "ReadContext ctx i rb (Inr f) rb'"

text \<open>\<open>Read\<close> uses the background context and returns nil for a closed ring.\<close>

inductive rb_Read :: "reader_id \<Rightarrow> ring_buffer \<Rightarrow> frame option \<Rightarrow> ring_buffer \<Rightarrow> bool" where
  read_some: "ReadContext None i rb (Inr f) rb' \<Longrightarrow> rb_Read i rb (Some f) rb'"
| read_nil: "ReadContext None i rb (Inl e) rb' \<Longrightarrow> rb_Read i rb None rb'"

subsection \<open>Invariants, the abstract window and the concurrent system\<close>

definition reader_ok :: "ring_buffer \<Rightarrow> reader_id \<Rightarrow> reader \<Rightarrow> bool" where
  "reader_ok rb i r \<longleftrightarrow> i < rb_fresh rb \<and> chan_ok (rd_C r) \<and> ch_cap (rd_C r) = rb_capacity rb \<and>
     (i \<in> subs rb \<longrightarrow> \<not> ch_closed (rd_C r))"

definition ring_inv :: "ring_buffer \<Rightarrow> bool" where
  "ring_inv rb \<longleftrightarrow>
     0 < rb_capacity rb \<and> length (rb_frames rb) = rb_capacity rb \<and>
     distinct (subsSlice rb) \<and> set (subsSlice rb) = subs rb \<and>
     subs rb \<subseteq> dom (rb_readers rb) \<and>
     (\<forall>i r. rb_readers rb i = Some r \<longrightarrow> reader_ok rb i r) \<and>
     (rb_closed rb \<longrightarrow> subs rb = {})"

text \<open>The effect of one broadcast on one reader, on its own.\<close>

definition skips :: "frame \<Rightarrow> reader \<Rightarrow> bool" where
  "skips f r \<longleftrightarrow> NeedsIFrame r \<and> \<not> IsKeyFrame f"

definition loses :: "frame \<Rightarrow> reader \<Rightarrow> bool" where
  "loses f r \<longleftrightarrow> \<not> skips f r \<and> \<not> length (ch_buf (rd_C r)) < ch_cap (rd_C r)"

definition accept :: "frame \<Rightarrow> reader \<Rightarrow> reader" where
  "accept f r =
     (if skips f r then r
      else if loses f r then r\<lparr>Drops := u64 (Drops r + 1), NeedsIFrame := True\<rparr>
      else r\<lparr>NeedsIFrame := False, rd_C := (rd_C r)\<lparr>ch_buf := ch_buf (rd_C r) @ [f]\<rparr>\<rparr>)"

definition accept_in :: "frame \<Rightarrow> reader_id set \<Rightarrow> (reader_id \<rightharpoonup> reader) \<Rightarrow> reader_id \<rightharpoonup> reader" where
  "accept_in f A m = (\<lambda>i. if i \<in> A then map_option (accept f) (m i) else m i)"

definition shut_in :: "reader_id set \<Rightarrow> (reader_id \<rightharpoonup> reader) \<Rightarrow> reader_id \<rightharpoonup> reader" where
  "shut_in A m = (\<lambda>i. if i \<in> A
     then map_option (\<lambda>r. r\<lparr>rd_C := (rd_C r)\<lparr>ch_closed := True\<rparr>\<rparr>) (m i) else m i)"

definition losers :: "frame \<Rightarrow> (reader_id \<rightharpoonup> reader) \<Rightarrow> reader_id list \<Rightarrow> reader_id list" where
  "losers f m is = filter (\<lambda>i. case m i of Some r \<Rightarrow> loses f r | None \<Rightarrow> False) is"

text \<open>The retained frames, oldest first, read out of the circular slots.\<close>

definition window :: "ring_buffer \<Rightarrow> frame option list" where
  "window rb =
     map (\<lambda>j. rb_frames rb ! (j mod rb_capacity rb)) [rb_head rb - rb_capacity rb..<rb_head rb]"

text \<open>\<open>holds_history h rb\<close>: the ring has seen exactly the frames \<open>h\<close> and its slots hold the newest.\<close>

definition holds_history :: "frame list \<Rightarrow> ring_buffer \<Rightarrow> bool" where
  "holds_history h rb \<longleftrightarrow>
     rb_head rb = length h \<and> length h < 2 ^ 64 \<and>
     (\<forall>j<length h. length h \<le> j + rb_capacity rb \<longrightarrow>
        rb_frames rb ! (j mod rb_capacity rb) = Some (h ! j))"

text \<open>
  A list of stream positions is decodable from its start: every position directly follows
  the one before or carries a keyframe, and the first is a keyframe or the very first frame.
\<close>

definition gop_synced :: "frame list \<Rightarrow> nat list \<Rightarrow> bool" where
  "gop_synced w js \<longleftrightarrow>
     (\<forall>j\<in>set js. j < length w) \<and> sorted_wrt (<) js \<and>
     (\<forall>p. Suc p < length js \<longrightarrow> js ! Suc p = Suc (js ! p) \<or> IsKeyFrame (w ! (js ! Suc p))) \<and>
     (js \<noteq> [] \<longrightarrow> IsKeyFrame (w ! hd js) \<or> hd js = 0)"

text \<open>
  The ring together with what an observer records: all frames written, and per reader the
  positions it was handed and the frames it has taken out of its channel.
\<close>

record ring_sys =
  ring_of :: ring_buffer
  written :: "frame list"
  got :: "reader_id \<Rightarrow> nat list"
  consumed :: "reader_id \<Rightarrow> frame list"

definition handed :: "ring_buffer \<Rightarrow> ring_buffer \<Rightarrow> reader_id \<Rightarrow> bool" where
  "handed rb rb' i \<longleftrightarrow>
     (case (rb_readers rb i, rb_readers rb' i) of
        (Some r, Some r') \<Rightarrow> length (ch_buf (rd_C r)) < length (ch_buf (rd_C r'))
      | _ \<Rightarrow> False)"

definition preload_positions :: "ring_buffer \<Rightarrow> nat list" where
  "preload_positions rb =
     (case findLastIFrameLocked rb of
        (startIdx, found, head) \<Rightarrow> if found \<and> \<not> rb_closed rb then [startIdx..<head] else [])"

text \<open>What a new reader of an open ring looks like once it has seen the history \<open>h\<close>.\<close>

definition fresh_reader :: "frame list \<Rightarrow> ring_buffer \<Rightarrow> reader" where
  "fresh_reader h rb =
     \<lparr>rd_C = \<lparr>ch_cap = rb_capacity rb, ch_buf = map ((!) h) (preload_positions rb), ch_closed = False\<rparr>,
      Drops = 0, NeedsIFrame = (preload_positions rb = [] \<and> h \<noteq> [])\<rparr>"

inductive ring_step :: "ring_sys \<Rightarrow> ring_sys \<Rightarrow> bool" where
  step_write: "\<not> rb_closed (ring_of s) \<Longrightarrow> length (written s) + 1 < 2 ^ 64 \<Longrightarrow>
    rb_Write f (ring_of s) = Inr rb' \<Longrightarrow>
    ring_step s (s\<lparr>ring_of := rb', written := written s @ [f],
      got := (\<lambda>i. if handed (ring_of s) rb' i then got s i @ [length (written s)] else got s i)\<rparr>)"
| step_write_closed: "rb_closed (ring_of s) \<Longrightarrow> rb_Write f (ring_of s) = Inr rb' \<Longrightarrow>
    ring_step s (s\<lparr>ring_of := rb'\<rparr>)"
| step_subscribe: "Subscribe (ring_of s) = Inr (i, rb') \<Longrightarrow>
    ring_step s (s\<lparr>ring_of := rb', got := (got s)(i := preload_positions (ring_of s)),
      consumed := (consumed s)(i := [])\<rparr>)"
| step_reader_close: "ring_step s (s\<lparr>ring_of := Reader_Close i (ring_of s)\<rparr>)"
| step_read: "ReadContext ctx i (ring_of s) (Inr f) rb' \<Longrightarrow>
    ring_step s (s\<lparr>ring_of := rb', consumed := (consumed s)(i := consumed s i @ [f])\<rparr>)"
| step_close: "rb_Close (ring_of s) = Inr rb' \<Longrightarrow> ring_step s (s\<lparr>ring_of := rb'\<rparr>)"
| step_params: "ring_step s (s\<lparr>ring_of := SetParams vps sps pps (ring_of s)\<rparr>)"
| step_camera: "ring_step s (s\<lparr>ring_of := SetCameraID cid (ring_of s)\<rparr>)"

definition up_to_date :: "frame list \<Rightarrow> nat list \<Rightarrow> bool" where
  "up_to_date w js \<longleftrightarrow> (if js = [] then w = [] else Suc (last js) = length w)"

definition sys_inv :: "ring_sys \<Rightarrow> bool" where
  "sys_inv s \<longleftrightarrow>
     ring_inv (ring_of s) \<and> totalDrops (ring_of s) < 2 ^ 64 \<and>
     holds_history (written s) (ring_of s) \<and>
     (\<forall>i r. rb_readers (ring_of s) i = Some r \<longrightarrow>
        gop_synced (written s) (got s i) \<and>
        consumed s i @ ch_buf (rd_C r) = map ((!) (written s)) (got s i) \<and>
        (i \<in> subs (ring_of s) \<longrightarrow> \<not> NeedsIFrame r \<longrightarrow> up_to_date (written s) (got s i)))"

definition reader_drops :: "ring_buffer \<Rightarrow> reader_id \<Rightarrow> nat" where
  "reader_drops rb i = (case rb_readers rb i of Some r \<Rightarrow> Drops r | None \<Rightarrow> 0)"

definition sum_drops :: "ring_buffer \<Rightarrow> nat" where
  "sum_drops rb = (\<Sum>i<rb_fresh rb. reader_drops rb i)"

definition ring_start :: "int \<Rightarrow> ring_sys" where
  "ring_start capacity =
     \<lparr>ring_of = NewRingBuffer capacity, written = [], got = (\<lambda>_. []), consumed = (\<lambda>_. [])\<rparr>"

inductive ring_reach :: "int \<Rightarrow> ring_sys \<Rightarrow> bool" for capacity where
  reach_start: "ring_reach capacity (ring_start capacity)"
| reach_step: "ring_reach capacity s \<Longrightarrow> ring_step s t \<Longrightarrow> ring_reach capacity t"

text \<open>An executable scheduler: a script of calls, run one after the other.\<close>

datatype ring_event = EvWrite frame | EvSubscribe | EvReaderClose reader_id | EvRead reader_id | EvClose

definition ring_exec1 :: "ring_event \<Rightarrow> ring_sys \<Rightarrow> ring_sys outcome" where
  "ring_exec1 e s =
     (case e of
        EvWrite f \<Rightarrow> and_then (rb_Write f (ring_of s)) (\<lambda>rb'.
          Inr (if rb_closed (ring_of s) then s\<lparr>ring_of := rb'\<rparr>
               else s\<lparr>ring_of := rb', written := written s @ [f],
                 got := (\<lambda>i. if handed (ring_of s) rb' i
                              then got s i @ [length (written s)] else got s i)\<rparr>))
      | EvSubscribe \<Rightarrow> and_then (Subscribe (ring_of s)) (\<lambda>(i, rb').
          Inr (s\<lparr>ring_of := rb', got := (got s)(i := preload_positions (ring_of s)),
                 consumed := (consumed s)(i := [])\<rparr>))
      | EvReaderClose i \<Rightarrow> Inr (s\<lparr>ring_of := Reader_Close i (ring_of s)\<rparr>)
      | EvRead i \<Rightarrow> (case rb_readers (ring_of s) i of
            None \<Rightarrow> Inl NilDeref
          | Some r \<Rightarrow> (case recv (rd_C r) of
                Received f c \<Rightarrow> Inr (s\<lparr>ring_of := (ring_of s)\<lparr>rb_readers :=
                    (rb_readers (ring_of s))(i \<mapsto> r\<lparr>rd_C := c\<rparr>)\<rparr>,
                  consumed := (consumed s)(i := consumed s i @ [f])\<rparr>)
              | RecvClosed \<Rightarrow> Inr s
              | RecvBlocks \<Rightarrow> Inl Deadlock))
      | EvClose \<Rightarrow> and_then (rb_Close (ring_of s)) (\<lambda>rb'. Inr (s\<lparr>ring_of := rb'\<rparr>)))"

subsection \<open>The broadcast loop, reader by reader\<close>

lemma deliver_not_skipped:
  assumes "rb_readers rb i = Some r" "\<not> skips f r"
  shows "deliver f i rb = and_then (offer f (rd_C r)) (\<lambda>(c, sent).
    if sent then Inr (rb\<lparr>rb_readers := (rb_readers rb)(i \<mapsto> r\<lparr>NeedsIFrame := False, rd_C := c\<rparr>)\<rparr>)
    else Inr (count_drop i (r\<lparr>NeedsIFrame := False\<rparr>) rb))"
  using assms by (cases "IsKeyFrame f") (simp_all add: deliver_def skips_def Let_def)

lemma deliver_accept:
  assumes "rb_readers rb i = Some r" "\<not> ch_closed (rd_C r)"
  shows "\<exists>m. deliver f i rb = Inr (rb\<lparr>rb_readers := (rb_readers rb)(i \<mapsto> accept f r),
      RingbufferDropsTotal := m,
      totalDrops := (if loses f r then u64 (totalDrops rb + 1) else totalDrops rb)\<rparr>)"
proof -
  consider "skips f r" | "\<not> skips f r" "loses f r" | "\<not> skips f r" "\<not> loses f r" by blast
  then show ?thesis
  proof cases
    case 1
    then have "rb = rb\<lparr>rb_readers := (rb_readers rb)(i \<mapsto> accept f r)\<rparr>"
      using assms by (simp add: accept_def fun_upd_idem)
    with 1 assms show ?thesis
      by (intro exI [of _ "RingbufferDropsTotal rb"]) (simp add: deliver_def skips_def loses_def)
  next
    case 2
    then have "offer f (rd_C r) = Inr (rd_C r, False)"
      using assms(2) by (simp add: loses_def offer_def)
    with deliver_not_skipped [OF assms(1) 2(1)] show ?thesis
      using 2 by (simp add: accept_def count_drop_def del: fun_upd_apply) blast
  next
    case 3
    then have "offer f (rd_C r) = Inr ((rd_C r)\<lparr>ch_buf := ch_buf (rd_C r) @ [f]\<rparr>, True)"
      using assms(2) by (simp add: loses_def offer_def)
    with deliver_not_skipped [OF assms(1) 3(1)] show ?thesis
      using 3 by (intro exI [of _ "RingbufferDropsTotal rb"]) (simp add: accept_def del: fun_upd_apply)
  qed
qed

lemma broadcast_accept:
  assumes "distinct is" "\<forall>i\<in>set is. \<exists>r. rb_readers rb i = Some r \<and> \<not> ch_closed (rd_C r)"
    and "totalDrops rb < 2 ^ 64"
  shows "\<exists>m. for_each (deliver f) is rb = Inr (rb\<lparr>
      rb_readers := accept_in f (set is) (rb_readers rb), RingbufferDropsTotal := m,
      totalDrops := u64 (totalDrops rb + length (losers f (rb_readers rb) is))\<rparr>)"
  using assms
proof (induction "is" arbitrary: rb)
  case Nil
  then show ?case
    by (intro exI [of _ "RingbufferDropsTotal rb"]) (simp add: accept_in_def losers_def go_int)
next
  case (Cons i "is")
  then obtain r where r: "rb_readers rb i = Some r" "\<not> ch_closed (rd_C r)" by auto
  obtain m where m: "deliver f i rb = Inr (rb\<lparr>rb_readers := (rb_readers rb)(i \<mapsto> accept f r),
      RingbufferDropsTotal := m,
      totalDrops := (if loses f r then u64 (totalDrops rb + 1) else totalDrops rb)\<rparr>)"
    (is "_ = Inr ?rb1")
    using deliver_accept [OF r] by blast
  have keep: "\<forall>k\<in>set is. rb_readers ?rb1 k = rb_readers rb k"
    using Cons.prems(1) by auto
  have "\<exists>m. for_each (deliver f) is ?rb1 = Inr (?rb1\<lparr>
      rb_readers := accept_in f (set is) (rb_readers ?rb1), RingbufferDropsTotal := m,
      totalDrops := u64 (totalDrops ?rb1 + length (losers f (rb_readers ?rb1) is))\<rparr>)"
    using Cons.prems keep by (intro Cons.IH) auto
  moreover have "accept_in f (set is) (rb_readers ?rb1) = accept_in f (set (i # is)) (rb_readers rb)"
    using Cons.prems(1) r by (auto simp: accept_in_def fun_eq_iff)
  moreover have "losers f (rb_readers ?rb1) is = losers f (rb_readers rb) is"
    unfolding losers_def by (intro filter_cong) (use keep in auto)
  moreover have "u64 (totalDrops ?rb1 + length (losers f (rb_readers rb) is)) =
      u64 (totalDrops rb + length (losers f (rb_readers rb) (i # is)))"
    using r by (simp add: losers_def u64_def mod_simps)
  ultimately show ?case using m by auto
qed

lemma ring_inv_subs:
  assumes "ring_inv rb"
  shows "distinct (subsSlice rb)"
    and "\<forall>i\<in>set (subsSlice rb). \<exists>r. rb_readers rb i = Some r \<and> \<not> ch_closed (rd_C r)"
  using assms by (auto simp: ring_inv_def reader_ok_def)

text \<open>A whole \<open>Write\<close> on an open ring, as one state update.\<close>

lemma rb_Write_eq:
  assumes "ring_inv rb" "\<not> rb_closed rb" "totalDrops rb < 2 ^ 64"
  shows "\<exists>m. rb_Write f rb = Inr (rb\<lparr>
      rb_frames := (rb_frames rb)[rb_head rb mod rb_capacity rb := Some f],
      rb_head := u64 (rb_head rb + 1),
      rb_readers := accept_in f (subs rb) (rb_readers rb), RingbufferDropsTotal := m,
      totalDrops := u64 (totalDrops rb + length (losers f (rb_readers rb) (subsSlice rb)))\<rparr>)"
proof -
  let ?rb1 = "rb\<lparr>rb_frames := (rb_frames rb)[rb_head rb mod rb_capacity rb := Some f],
      rb_head := u64 (rb_head rb + 1)\<rparr>"
  have "store_frame f rb = Inr ?rb1"
    using assms(1) by (simp add: store_frame_def ring_inv_def)
  moreover have "\<exists>m. for_each (deliver f) (subsSlice ?rb1) ?rb1 = Inr (?rb1\<lparr>
      rb_readers := accept_in f (set (subsSlice ?rb1)) (rb_readers ?rb1), RingbufferDropsTotal := m,
      totalDrops := u64 (totalDrops ?rb1 + length (losers f (rb_readers ?rb1) (subsSlice ?rb1)))\<rparr>)"
    using assms by (intro broadcast_accept) (auto simp: ring_inv_def reader_ok_def)
  moreover have "set (subsSlice rb) = subs rb"
    using assms(1) by (simp add: ring_inv_def)
  ultimately show ?thesis using assms(2) by (auto simp: rb_Write_def)
qed

lemma accept_simps [simp]:
  "ch_cap (rd_C (accept f r)) = ch_cap (rd_C r)"
  "ch_closed (rd_C (accept f r)) = ch_closed (rd_C r)"
  by (simp_all add: accept_def)

lemma chan_ok_accept: "chan_ok (rd_C r) \<Longrightarrow> chan_ok (rd_C (accept f r))"
  by (auto simp: accept_def chan_ok_def loses_def)

lemma ch_buf_accept:
  "ch_buf (rd_C (accept f r)) =
     (if skips f r \<or> loses f r then ch_buf (rd_C r) else ch_buf (rd_C r) @ [f])"
  by (simp add: accept_def)

lemma accept_in_Some:
  "accept_in f A m i = Some r' \<longleftrightarrow>
     (\<exists>r. m i = Some r \<and> r' = (if i \<in> A then accept f r else r))"
  by (auto simp: accept_in_def)

subsection \<open>Every operation succeeds and keeps the invariant\<close>

lemma ring_inv_New: "ring_inv (NewRingBuffer capacity)"
  by (simp add: ring_inv_def NewRingBuffer_def Let_def)

lemma rb_Write_ok:
  assumes "ring_inv rb" "totalDrops rb < 2 ^ 64"
  shows "\<exists>rb'. rb_Write f rb = Inr rb' \<and> ring_inv rb' \<and> totalDrops rb' < 2 ^ 64"
proof (cases "rb_closed rb")
  case True
  with assms show ?thesis by (simp add: rb_Write_def)
next
  case False
  obtain m where w: "rb_Write f rb = Inr (rb\<lparr>
      rb_frames := (rb_frames rb)[rb_head rb mod rb_capacity rb := Some f],
      rb_head := u64 (rb_head rb + 1),
      rb_readers := accept_in f (subs rb) (rb_readers rb), RingbufferDropsTotal := m,
      totalDrops := u64 (totalDrops rb + length (losers f (rb_readers rb) (subsSlice rb)))\<rparr>)"
    using rb_Write_eq [OF assms(1) False assms(2)] by blast
  with assms(1) show ?thesis
    by (auto simp: ring_inv_def reader_ok_def accept_in_Some chan_ok_accept)
qed

lemma close_reader_chans_ok:
  assumes "distinct is" "\<forall>i\<in>set is. \<exists>r. rb_readers rb i = Some r \<and> \<not> ch_closed (rd_C r)"
  shows "for_each close_reader_chan is rb = Inr (rb\<lparr>rb_readers := shut_in (set is) (rb_readers rb)\<rparr>)"
  using assms
proof (induction "is" arbitrary: rb)
  case Nil
  then show ?case by (simp add: shut_in_def)
next
  case (Cons i "is")
  then obtain r where r: "rb_readers rb i = Some r" "\<not> ch_closed (rd_C r)" by auto
  let ?rb1 = "rb\<lparr>rb_readers := (rb_readers rb)(i \<mapsto> r\<lparr>rd_C := (rd_C r)\<lparr>ch_closed := True\<rparr>\<rparr>)\<rparr>"
  have "close_reader_chan i rb = Inr ?rb1"
    using r by (simp add: close_reader_chan_def close_chan_def)
  moreover have "for_each close_reader_chan is ?rb1 =
      Inr (?rb1\<lparr>rb_readers := shut_in (set is) (rb_readers ?rb1)\<rparr>)"
    using Cons.prems by (intro Cons.IH) auto
  moreover have "shut_in (set is) (rb_readers ?rb1) = shut_in (set (i # is)) (rb_readers rb)"
    using Cons.prems(1) r by (auto simp: shut_in_def fun_eq_iff)
  ultimately show ?case by simp
qed

lemma shut_in_Some:
  "shut_in A m i = Some r' \<longleftrightarrow>
     (\<exists>r. m i = Some r \<and> r' = (if i \<in> A then r\<lparr>rd_C := (rd_C r)\<lparr>ch_closed := True\<rparr>\<rparr> else r))"
  by (auto simp: shut_in_def)

lemma rb_Close_eq:
  assumes "ring_inv rb" "\<not> rb_closed rb"
  shows "rb_Close rb = Inr (rb\<lparr>rb_closed := True, rb_readers := shut_in (subs rb) (rb_readers rb),
    subs := {}, subsSlice := []\<rparr>)"
proof -
  have "set (subsSlice rb) = subs rb" using assms(1) by (simp add: ring_inv_def)
  with assms(2) close_reader_chans_ok [OF ring_inv_subs [OF assms(1)]]
    close_reader_chans_ok [of "subsSlice rb" "rb\<lparr>rb_closed := True\<rparr>"] ring_inv_subs [OF assms(1)]
  show ?thesis by (simp add: rb_Close_def)
qed

lemma rb_Close_ok:
  assumes "ring_inv rb"
  shows "\<exists>rb'. rb_Close rb = Inr rb' \<and> ring_inv rb' \<and> rb_closed rb' \<and>
    totalDrops rb' = totalDrops rb"
proof (cases "rb_closed rb")
  case True
  with assms show ?thesis by (simp add: rb_Close_def)
next
  case False
  with assms rb_Close_eq [OF assms False] show ?thesis
    by (auto simp: ring_inv_def reader_ok_def shut_in_Some)
qed

lemma Reader_Close_ok: "ring_inv rb \<Longrightarrow> ring_inv (Reader_Close i rb)"
  by (auto simp: Reader_Close_def ring_inv_def reader_ok_def)

subsection \<open>The slots hold the newest frames\<close>

lemma mod_neq_of_close:
  assumes "j < k" "k < j + c"
  shows "j mod c \<noteq> k mod (c :: nat)"
proof
  assume "j mod c = k mod c"
  then have "c dvd k - j" using assms(1) by (metis mod_eq_dvd_iff_nat less_imp_le)
  then show False using assms by (auto dest: dvd_imp_le)
qed

lemma holds_history_New: "holds_history [] (NewRingBuffer capacity)"
  by (simp add: holds_history_def NewRingBuffer_def Let_def)

lemma holds_history_store:
  assumes "holds_history h rb" "ring_inv rb" "length h + 1 < 2 ^ 64"
    and "rb_frames rb' = (rb_frames rb)[rb_head rb mod rb_capacity rb := Some f]"
    and "rb_head rb' = u64 (rb_head rb + 1)" "rb_capacity rb' = rb_capacity rb"
  shows "holds_history (h @ [f]) rb'"
proof -
  have hd: "rb_head rb = length h" and cap: "0 < rb_capacity rb"
    and len: "length (rb_frames rb) = rb_capacity rb"
    using assms(1,2) by (simp_all add: holds_history_def ring_inv_def)
  have "rb_frames rb' ! (j mod rb_capacity rb) = Some ((h @ [f]) ! j)"
    if "j < length h + 1" "length h + 1 \<le> j + rb_capacity rb" for j
  proof (cases "j = length h")
    case True
    then show ?thesis using assms(4) hd len cap by simp
  next
    case False
    then have "j mod rb_capacity rb \<noteq> length h mod rb_capacity rb"
      using that by (intro mod_neq_of_close) auto
    then show ?thesis
      using that False assms(1,4) hd by (simp add: holds_history_def nth_append)
  qed
  then show ?thesis using assms(3,5,6) hd by (simp add: holds_history_def go_int)
qed

lemma holds_historyD:
  "holds_history h rb \<Longrightarrow> j < length h \<Longrightarrow> length h \<le> j + rb_capacity rb \<Longrightarrow>
     rb_frames rb ! (j mod rb_capacity rb) = Some (h ! j)"
  by (simp add: holds_history_def)

lemma holds_history_cong:
  assumes "rb_frames rb' = rb_frames rb" "rb_head rb' = rb_head rb" "rb_capacity rb' = rb_capacity rb"
  shows "holds_history h rb' = holds_history h rb"
  using assms by (simp add: holds_history_def)

lemma window_eq:
  assumes "holds_history h rb" "ring_inv rb"
  shows "window rb = map Some (drop (length h - rb_capacity rb) h)"
proof (rule nth_equalityI)
  show "length (window rb) = length (map Some (drop (length h - rb_capacity rb) h))"
    using assms(1) by (simp add: window_def holds_history_def)
  show "window rb ! i = map Some (drop (length h - rb_capacity rb) h) ! i"
    if "i < length (window rb)" for i
    using that assms(1) by (auto simp: window_def holds_history_def)
qed

subsection \<open>The newest retained keyframe\<close>

lemma findLastIFrame_from_spec:
  assumes "holds_history h rb" "findLastIFrame_from rb i = (st, found, hp)"
  shows "hp = length h \<and>
    (if found then st < length h - i \<and> length h \<le> st + rb_capacity rb \<and> IsKeyFrame (h ! st) \<and>
        (\<forall>j. st < j \<and> j < length h - i \<longrightarrow> \<not> IsKeyFrame (h ! j))
     else (\<forall>j<length h - i. length h \<le> j + rb_capacity rb \<longrightarrow> \<not> IsKeyFrame (h ! j)))"
  using assms
proof (induction rb i rule: findLastIFrame_from.induct)
  case (1 rb i)
  have hd: "rb_head rb = length h" using "1.prems"(1) by (simp add: holds_history_def)
  show ?case
  proof (cases "i < rb_capacity rb \<and> i < length h")
    case False
    then show ?thesis
      using "1.prems"(2) hd by (subst (asm) findLastIFrame_from.simps) (auto split: if_splits)
  next
    case True
    define idx where "idx = length h - (i + 1)"
    have slot: "rb_frames rb ! (idx mod rb_capacity rb) = Some (h ! idx)"
      using "1.prems"(1) True by (intro holds_historyD) (auto simp: idx_def)
    have cases_idx: "j < length h - i \<longleftrightarrow> j < length h - (i + 1) \<or> j = idx" for j
      using True by (auto simp: idx_def)
    show ?thesis
    proof (cases "IsKeyFrame (h ! idx)")
      case True': True
      then have "(st, found, hp) = (idx, True, length h)"
        using "1.prems"(2) True hd slot
        by (subst (asm) findLastIFrame_from.simps) (auto simp: idx_def)
      then show ?thesis using True True' by (auto simp: idx_def)
    next
      case False
      then have "findLastIFrame_from rb (i + 1) = (st, found, hp)"
        using "1.prems"(2) True hd slot
        by (subst (asm) findLastIFrame_from.simps) (simp add: idx_def)
      then have "hp = length h \<and>
        (if found then st < length h - (i + 1) \<and> length h \<le> st + rb_capacity rb \<and> IsKeyFrame (h ! st) \<and>
            (\<forall>j. st < j \<and> j < length h - (i + 1) \<longrightarrow> \<not> IsKeyFrame (h ! j))
         else (\<forall>j<length h - (i + 1). length h \<le> j + rb_capacity rb \<longrightarrow> \<not> IsKeyFrame (h ! j)))"
        using True hd slot False "1.prems"(1) by (intro "1.IH") (auto simp: idx_def)
      then show ?thesis using False by (auto simp: cases_idx split: if_splits)
    qed
  qed
qed

lemma preload_positions_cases:
  assumes "holds_history h rb" "\<not> rb_closed rb"
  obtains (found) st where "findLastIFrameLocked rb = (st, True, length h)"
      "preload_positions rb = [st..<length h]" "st < length h" "length h \<le> st + rb_capacity rb"
      "IsKeyFrame (h ! st)" "\<And>j. st < j \<Longrightarrow> j < length h \<Longrightarrow> \<not> IsKeyFrame (h ! j)"
  | (none) st where "findLastIFrameLocked rb = (st, False, length h)" "preload_positions rb = []"
      "\<And>j. j < length h \<Longrightarrow> length h \<le> j + rb_capacity rb \<Longrightarrow> \<not> IsKeyFrame (h ! j)"
proof -
  obtain st found hp where r: "findLastIFrameLocked rb = (st, found, hp)" by (metis prod_cases3)
  with findLastIFrame_from_spec [OF assms(1), of 0 st found hp] that assms(2)
  show thesis by (cases found) (auto simp: findLastIFrameLocked_def preload_positions_def)
qed

subsection \<open>Subscribing\<close>

lemma preload_ok:
  assumes "holds_history h rb" "\<forall>j\<in>set js. j < length h \<and> length h \<le> j + rb_capacity rb"
    and "\<not> ch_closed c" "length (ch_buf c) + length js \<le> ch_cap c"
  shows "for_each (preload_one rb) js c = Inr (c\<lparr>ch_buf := ch_buf c @ map ((!) h) js\<rparr>)"
  using assms(2-)
proof (induction js arbitrary: c)
  case Nil
  then show ?case by simp
next
  case (Cons j js)
  then have "preload_one rb j c = Inr (c\<lparr>ch_buf := ch_buf c @ [h ! j]\<rparr>)"
    using assms(1) by (simp add: preload_one_def send_unshared_def holds_history_def)
  with Cons show ?case by simp
qed

lemma Subscribe_open:
  assumes "holds_history h rb" "\<not> rb_closed rb"
  shows "Subscribe rb = Inr (register_reader (fresh_reader h rb) rb)"
  using assms
proof (cases rule: preload_positions_cases)
  case (found st)
  have "for_each (preload_one rb) [st..<length h] (make_chan (rb_capacity rb)) =
      Inr ((make_chan (rb_capacity rb))\<lparr>ch_buf := map ((!) h) [st..<length h]\<rparr>)"
    using preload_ok [OF assms(1), of "[st..<length h]" "make_chan (rb_capacity rb)"] found by auto
  with found assms(2) show ?thesis
    by (simp add: Subscribe_def fresh_reader_def make_chan_def)
next
  case (none st)
  with assms(2) show ?thesis
    by (cases h) (simp_all add: Subscribe_def fresh_reader_def make_chan_def)
qed

lemma Subscribe_closed:
  assumes "rb_closed rb"
  shows "Subscribe rb = Inr (rb_fresh rb, rb\<lparr>rb_readers := (rb_readers rb)(rb_fresh rb \<mapsto>
      \<lparr>rd_C = \<lparr>ch_cap = rb_capacity rb, ch_buf = [], ch_closed = True\<rparr>, Drops = 0, NeedsIFrame = False\<rparr>),
      rb_fresh := rb_fresh rb + 1\<rparr>)"
  using assms by (simp add: Subscribe_def close_chan_def make_chan_def)

lemma length_preload_positions:
  assumes "holds_history h rb" "\<not> rb_closed rb"
  shows "length (preload_positions rb) \<le> rb_capacity rb"
  using assms by (cases rule: preload_positions_cases) auto

lemma Subscribe_ok:
  assumes "ring_inv rb" "holds_history h rb"
  shows "\<exists>i rb'. Subscribe rb = Inr (i, rb') \<and> ring_inv rb' \<and> holds_history h rb' \<and>
    totalDrops rb' = totalDrops rb"
proof (cases "rb_closed rb")
  case True
  have "ring_inv (rb\<lparr>rb_readers := (rb_readers rb)(rb_fresh rb \<mapsto>
      \<lparr>rd_C = \<lparr>ch_cap = rb_capacity rb, ch_buf = [], ch_closed = True\<rparr>, Drops = 0, NeedsIFrame = False\<rparr>),
      rb_fresh := rb_fresh rb + 1\<rparr>)"
    using assms(1) True by (fastforce simp: ring_inv_def reader_ok_def chan_ok_def)
  with Subscribe_closed [OF True] assms(2) show ?thesis by (simp add: holds_history_def)
next
  case False
  have "ring_inv (snd (register_reader (fresh_reader h rb) rb))"
    using assms(1) False length_preload_positions [OF assms(2) False]
    by (fastforce simp: ring_inv_def reader_ok_def chan_ok_def register_reader_def fresh_reader_def)
  with Subscribe_open [OF assms(2) False] assms(2) show ?thesis
    by (simp add: register_reader_def holds_history_def)
qed

subsection \<open>The concurrent system keeps every reader decodable\<close>

lemma gop_synced_grow: "gop_synced w js \<Longrightarrow> gop_synced (w @ [f]) js"
proof -
  assume g: "gop_synced w js"
  have "js ! Suc p < length w" if "Suc p < length js" for p
    using g nth_mem [OF that] by (simp add: gop_synced_def)
  moreover have "js \<noteq> [] \<Longrightarrow> hd js < length w"
    using g by (cases js) (auto simp: gop_synced_def)
  ultimately show ?thesis using g by (auto simp: gop_synced_def nth_append)
qed

lemma gop_synced_deliver:
  assumes "gop_synced w js" "up_to_date w js \<or> IsKeyFrame f"
  shows "gop_synced (w @ [f]) (js @ [length w])"
proof -
  have g: "gop_synced (w @ [f]) js" by (rule gop_synced_grow [OF assms(1)])
  have bound: "\<forall>j\<in>set js. j < length w" using assms(1) by (simp add: gop_synced_def)
  have step: "(js @ [length w]) ! Suc p = Suc ((js @ [length w]) ! p) \<or>
      IsKeyFrame ((w @ [f]) ! ((js @ [length w]) ! Suc p))" if "Suc p < length (js @ [length w])" for p
  proof (cases "Suc p < length js")
    case True
    then show ?thesis using g by (simp add: gop_synced_def nth_append)
  next
    case False
    with that have p: "js \<noteq> []" "p = length js - 1" "Suc p = length js" by auto
    then have "(js @ [length w]) ! p = last js"
      by (simp add: nth_append last_conv_nth)
    moreover have "(js @ [length w]) ! Suc p = length w" using p by (simp add: nth_append)
    ultimately show ?thesis using assms(2) p(1) by (auto simp: up_to_date_def)
  qed
  have "IsKeyFrame ((w @ [f]) ! hd (js @ [length w])) \<or> hd (js @ [length w]) = 0"
    using g assms(2) by (cases js) (auto simp: gop_synced_def up_to_date_def)
  with step bound g show ?thesis
    by (auto simp: gop_synced_def sorted_wrt_append less_Suc_eq)
qed

lemma gop_synced_preload:
  assumes "holds_history w rb" "\<not> rb_closed rb"
  shows "gop_synced w (preload_positions rb)"
  using assms
proof (cases rule: preload_positions_cases)
  case (found st)
  then show ?thesis by (auto simp: gop_synced_def)
next
  case (none st)
  then show ?thesis by (simp add: gop_synced_def)
qed

lemma up_to_date_preload:
  assumes "holds_history w rb" "\<not> rb_closed rb" "preload_positions rb \<noteq> [] \<or> w = []"
  shows "up_to_date w (preload_positions rb)"
  using assms(1,2)
proof (cases rule: preload_positions_cases)
  case (found st)
  then show ?thesis by (auto simp: up_to_date_def)
next
  case (none st)
  then show ?thesis using assms(3) by (simp add: up_to_date_def)
qed

lemma map_nth_snoc:
  "\<forall>j\<in>set js. j < length w \<Longrightarrow> map ((!) (w @ [f])) js = map ((!) w) js"
  by (auto simp: nth_append)

lemma sys_inv_start: "sys_inv (ring_start capacity)"
  using holds_history_New [of capacity] ring_inv_New [of capacity]
  by (simp add: sys_inv_def ring_start_def) (simp add: NewRingBuffer_def Let_def)

lemma handed_accept:
  assumes "rb_readers rb i = Some r" "rb_readers rb' = accept_in f A (rb_readers rb)"
  shows "handed rb rb' i \<longleftrightarrow> i \<in> A \<and> \<not> skips f r \<and> \<not> loses f r"
  using assms by (auto simp: handed_def accept_in_def ch_buf_accept)

lemma sys_inv_write:
  assumes inv: "sys_inv s" and "\<not> rb_closed (ring_of s)" "length (written s) + 1 < 2 ^ 64"
    and w: "rb_Write f (ring_of s) = Inr rb'"
  shows "sys_inv (s\<lparr>ring_of := rb', written := written s @ [f],
      got := (\<lambda>i. if handed (ring_of s) rb' i then got s i @ [length (written s)] else got s i)\<rparr>)"
proof -
  let ?rb = "ring_of s" and ?w = "written s"
  have ri: "ring_inv ?rb" and td: "totalDrops ?rb < 2 ^ 64" and hh: "holds_history ?w ?rb"
    using inv by (simp_all add: sys_inv_def)
  obtain m where eq: "rb' = ?rb\<lparr>
      rb_frames := (rb_frames ?rb)[rb_head ?rb mod rb_capacity ?rb := Some f],
      rb_head := u64 (rb_head ?rb + 1),
      rb_readers := accept_in f (subs ?rb) (rb_readers ?rb), RingbufferDropsTotal := m,
      totalDrops := u64 (totalDrops ?rb + length (losers f (rb_readers ?rb) (subsSlice ?rb)))\<rparr>"
    using rb_Write_eq [OF ri assms(2) td, of f] w by auto
  have ok: "ring_inv rb'" "totalDrops rb' < 2 ^ 64"
    using rb_Write_ok [OF ri td, of f] w by auto
  have hh': "holds_history (?w @ [f]) rb'"
    by (rule holds_history_store [OF hh ri assms(3)]) (simp_all add: eq)
  have "gop_synced (?w @ [f]) js \<and>
      consumed s i @ ch_buf (rd_C r') = map ((!) (?w @ [f])) js \<and>
      (i \<in> subs rb' \<longrightarrow> \<not> NeedsIFrame r' \<longrightarrow> up_to_date (?w @ [f]) js)"
    if r': "rb_readers rb' i = Some r'"
      and js: "js = (if handed ?rb rb' i then got s i @ [length ?w] else got s i)" for i r' js
  proof -
    obtain r where r: "rb_readers ?rb i = Some r" "r' = (if i \<in> subs ?rb then accept f r else r)"
      using r' eq by (auto simp: accept_in_Some)
    have old: "gop_synced ?w (got s i)"
      "consumed s i @ ch_buf (rd_C r) = map ((!) ?w) (got s i)"
      "i \<in> subs ?rb \<Longrightarrow> \<not> NeedsIFrame r \<Longrightarrow> up_to_date ?w (got s i)"
      using inv r(1) by (auto simp: sys_inv_def)
    have b: "\<forall>j\<in>set (got s i). j < length ?w" using old(1) by (simp add: gop_synced_def)
    have h: "handed ?rb rb' i \<longleftrightarrow> i \<in> subs ?rb \<and> \<not> skips f r \<and> \<not> loses f r"
      by (rule handed_accept [OF r(1)]) (simp add: eq)
    show ?thesis
    proof (cases "handed ?rb rb' i")
      case True
      then have "up_to_date ?w (got s i) \<or> IsKeyFrame f"
        using h old(3) by (auto simp: skips_def)
      from gop_synced_deliver [OF old(1) this] True h r js old(2)
      show ?thesis by (simp add: ch_buf_accept map_nth_snoc [OF b] up_to_date_def)
    next
      case False
      then have "i \<in> subs ?rb \<Longrightarrow> NeedsIFrame r' \<and> ch_buf (rd_C r') = ch_buf (rd_C r)"
        using h r by (auto simp: accept_def skips_def)
      with False gop_synced_grow [OF old(1)] r js old(2) eq
      show ?thesis by (auto simp: map_nth_snoc [OF b])
    qed
  qed
  with ok hh' show ?thesis by (simp add: sys_inv_def)
qed

lemma sys_inv_subscribe:
  assumes inv: "sys_inv s" and sub: "Subscribe (ring_of s) = Inr (i, rb')"
  shows "sys_inv (s\<lparr>ring_of := rb', got := (got s)(i := preload_positions (ring_of s)),
      consumed := (consumed s)(i := [])\<rparr>)"
proof -
  let ?rb = "ring_of s" and ?w = "written s"
  have ri: "ring_inv ?rb" and td: "totalDrops ?rb < 2 ^ 64" and hh: "holds_history ?w ?rb"
    using inv by (simp_all add: sys_inv_def)
  have ok: "ring_inv rb'" "holds_history ?w rb'" "totalDrops rb' = totalDrops ?rb"
    using Subscribe_ok [OF ri hh] sub by auto
  show ?thesis
  proof (cases "rb_closed ?rb")
    case True
    then have "subs ?rb = {}" using ri by (simp add: ring_inv_def)
    with Subscribe_closed [OF True] sub ok td inv True show ?thesis
      by (auto simp: sys_inv_def gop_synced_def preload_positions_def split: prod.splits)
  next
    case False
    note Subscribe_open [OF hh False] sub
    then have "i = rb_fresh ?rb" "rb' = snd (register_reader (fresh_reader ?w ?rb) ?rb)"
      by (auto simp: register_reader_def)
    with inv ok td gop_synced_preload [OF hh False] up_to_date_preload [OF hh False]
    show ?thesis by (auto simp: sys_inv_def register_reader_def fresh_reader_def)
  qed
qed

lemma sys_inv_read:
  assumes inv: "sys_inv s" and "ReadContext ctx i (ring_of s) (Inr f) rb'"
  shows "sys_inv (s\<lparr>ring_of := rb', consumed := (consumed s)(i := consumed s i @ [f])\<rparr>)"
proof -
  obtain r c where r: "rb_readers (ring_of s) i = Some r" "recv (rd_C r) = Received f c"
    and rb': "rb' = (ring_of s)\<lparr>rb_readers := (rb_readers (ring_of s))(i \<mapsto> r\<lparr>rd_C := c\<rparr>)\<rparr>"
    using assms(2) by (erule_tac ReadContext_frameE) auto
  obtain xs where xs: "ch_buf (rd_C r) = f # xs" "c = (rd_C r)\<lparr>ch_buf := xs\<rparr>"
    using r(2) by (auto simp: recv_Received_iff)
  have "chan_ok (rd_C r)" using inv r(1) by (simp add: sys_inv_def ring_inv_def reader_ok_def)
  then have "chan_ok c" using r(2) by (rule chan_ok_recv)
  moreover have "ch_cap c = ch_cap (rd_C r)" "ch_closed c = ch_closed (rd_C r)" "ch_buf c = xs"
    using xs(2) by simp_all
  moreover have "reader_ok (ring_of s) i r" and
    "consumed s i @ ch_buf (rd_C r) = map ((!) (written s)) (got s i)"
    using inv r(1) by (auto simp: sys_inv_def ring_inv_def)
  ultimately show ?thesis using inv r rb' xs(1)
    by (auto simp: sys_inv_def ring_inv_def reader_ok_def holds_history_def)
qed

lemma sys_inv_reader_close: "sys_inv s \<Longrightarrow> sys_inv (s\<lparr>ring_of := Reader_Close i (ring_of s)\<rparr>)"
  using Reader_Close_ok [of "ring_of s" i]
  by (auto simp: sys_inv_def Reader_Close_def holds_history_def)

lemma sys_inv_close:
  assumes inv: "sys_inv s" and c: "rb_Close (ring_of s) = Inr rb'"
  shows "sys_inv (s\<lparr>ring_of := rb'\<rparr>)"
proof (cases "rb_closed (ring_of s)")
  case True
  with c inv show ?thesis by (auto simp: rb_Close_def sys_inv_def)
next
  case False
  have ri: "ring_inv (ring_of s)" using inv by (simp add: sys_inv_def)
  from rb_Close_ok [OF ri] c have "ring_inv rb'" by auto
  with inv c rb_Close_eq [OF ri False] show ?thesis
    by (auto simp: sys_inv_def shut_in_Some holds_history_def)
qed

lemma sys_inv_step: "ring_step s t \<Longrightarrow> sys_inv s \<Longrightarrow> sys_inv t"
proof (induction rule: ring_step.induct)
  case (step_write s f rb')
  then show ?case by (intro sys_inv_write)
next
  case (step_write_closed s f rb')
  then show ?case by (auto simp: rb_Write_def sys_inv_def)
next
  case (step_subscribe s i rb')
  then show ?case by (intro sys_inv_subscribe)
next
  case (step_reader_close s i)
  then show ?case by (rule sys_inv_reader_close)
next
  case (step_read ctx i s f rb')
  then show ?case by (intro sys_inv_read)
next
  case (step_close s rb')
  then show ?case by (intro sys_inv_close)
next
  case (step_params s vps sps pps)
  then show ?case by (auto simp: sys_inv_def SetParams_def ring_inv_def reader_ok_def holds_history_def)
next
  case (step_camera s cid)
  then show ?case by (auto simp: sys_inv_def SetCameraID_def ring_inv_def reader_ok_def holds_history_def)
qed

lemma sys_inv_reach: "ring_reach capacity s \<Longrightarrow> sys_inv s"
  by (induction rule: ring_reach.induct) (auto intro: sys_inv_start sys_inv_step)

subsection \<open>Accounting of dropped frames\<close>

lemma count_losers:
  assumes "ring_inv rb"
  shows "length (losers f (rb_readers rb) (subsSlice rb)) =
    (\<Sum>i<rb_fresh rb. if i \<in> subs rb \<and> (\<exists>r. rb_readers rb i = Some r \<and> loses f r) then 1 else 0)"
proof -
  let ?P = "\<lambda>i. \<exists>r. rb_readers rb i = Some r \<and> loses f r"
  have l: "losers f (rb_readers rb) (subsSlice rb) = filter ?P (subsSlice rb)"
    unfolding losers_def by (intro filter_cong) (auto split: option.splits)
  have s: "subs rb \<subseteq> {..<rb_fresh rb}"
    using assms by (fastforce simp: ring_inv_def reader_ok_def dom_def)
  have "length (filter ?P (subsSlice rb)) = card (set (filter ?P (subsSlice rb)))"
    using assms by (intro distinct_card [symmetric]) (simp add: ring_inv_def)
  also have "set (filter ?P (subsSlice rb)) = {i \<in> {..<rb_fresh rb}. i \<in> subs rb \<and> ?P i}"
    using s assms by (auto simp: ring_inv_def)
  also have "card \<dots> = (\<Sum>i<rb_fresh rb. if i \<in> subs rb \<and> ?P i then 1 else 0)"
    by (simp add: sum.If_cases Int_def)
  finally show ?thesis using l by simp
qed

lemma sum_drops_write:
  assumes "ring_inv rb" "rb_readers rb' = accept_in f (subs rb) (rb_readers rb)"
    and "rb_fresh rb' = rb_fresh rb"
  shows "u64 (sum_drops rb') = u64 (sum_drops rb + length (losers f (rb_readers rb) (subsSlice rb)))"
proof -
  let ?e = "\<lambda>i. if i \<in> subs rb \<and> (\<exists>r. rb_readers rb i = Some r \<and> loses f r) then 1 else 0 :: nat"
  have "reader_drops rb' i mod 2 ^ 64 = (reader_drops rb i + ?e i) mod 2 ^ 64" for i
    using assms(2)
    by (cases "rb_readers rb i") (auto simp: reader_drops_def accept_in_def accept_def u64_def loses_def)
  then have "(\<Sum>i<rb_fresh rb. reader_drops rb' i mod 2 ^ 64) mod 2 ^ 64 =
      (\<Sum>i<rb_fresh rb. (reader_drops rb i + ?e i) mod 2 ^ 64) mod 2 ^ 64"
    by (simp only:)
  then have "(\<Sum>i<rb_fresh rb. reader_drops rb' i) mod 2 ^ 64 =
      (\<Sum>i<rb_fresh rb. reader_drops rb i + ?e i) mod 2 ^ 64"
    by (simp only: mod_sum_eq)
  then show ?thesis
    using assms(3) by (simp add: sum_drops_def u64_def sum.distrib count_losers [OF assms(1)])
qed

lemma sum_drops_cong:
  assumes "\<And>i. reader_drops rb' i = reader_drops rb i" "rb_fresh rb' = rb_fresh rb"
  shows "sum_drops rb' = sum_drops rb"
  using assms by (simp add: sum_drops_def)

lemma sum_drops_new_reader:
  assumes "\<And>i. i < rb_fresh rb \<Longrightarrow> reader_drops rb' i = reader_drops rb i"
    and "reader_drops rb' (rb_fresh rb) = 0" "rb_fresh rb' = rb_fresh rb + 1"
  shows "sum_drops rb' = sum_drops rb"
  using assms by (simp add: sum_drops_def)

lemma drops_step:
  assumes "ring_step s t" "sys_inv s" "totalDrops (ring_of s) = u64 (sum_drops (ring_of s))"
  shows "totalDrops (ring_of t) = u64 (sum_drops (ring_of t))"
  using assms
proof (induction rule: ring_step.induct)
  case (step_write s f rb')
  have ri: "ring_inv (ring_of s)" and td: "totalDrops (ring_of s) < 2 ^ 64"
    using step_write.prems by (simp_all add: sys_inv_def)
  obtain m where eq: "rb' = (ring_of s)\<lparr>
      rb_frames := (rb_frames (ring_of s))[rb_head (ring_of s) mod rb_capacity (ring_of s) := Some f],
      rb_head := u64 (rb_head (ring_of s) + 1),
      rb_readers := accept_in f (subs (ring_of s)) (rb_readers (ring_of s)), RingbufferDropsTotal := m,
      totalDrops := u64 (totalDrops (ring_of s) +
        length (losers f (rb_readers (ring_of s)) (subsSlice (ring_of s))))\<rparr>"
    using rb_Write_eq [OF ri step_write.hyps(1) td, of f] step_write.hyps(3) by auto
  have "u64 (sum_drops rb') = u64 (sum_drops (ring_of s) +
      length (losers f (rb_readers (ring_of s)) (subsSlice (ring_of s))))"
    by (rule sum_drops_write [OF ri]) (simp_all add: eq)
  with eq step_write.prems(2) show ?case by (simp add: u64_def mod_simps)
next
  case (step_write_closed s f rb')
  then show ?case by (simp add: rb_Write_def)
next
  case (step_subscribe s i rb')
  have hh: "holds_history (written s) (ring_of s)" using step_subscribe.prems by (simp add: sys_inv_def)
  have "sum_drops rb' = sum_drops (ring_of s) \<and> totalDrops rb' = totalDrops (ring_of s)"
  proof (cases "rb_closed (ring_of s)")
    case True
    with Subscribe_closed [OF True] step_subscribe.hyps show ?thesis
      by (auto intro!: sum_drops_new_reader simp: reader_drops_def)
  next
    case False
    with Subscribe_open [OF hh False] step_subscribe.hyps show ?thesis
      by (auto intro!: sum_drops_new_reader simp: reader_drops_def register_reader_def fresh_reader_def)
  qed
  with step_subscribe.prems show ?case by simp
next
  case (step_reader_close s i)
  then show ?case by (simp add: Reader_Close_def sum_drops_def reader_drops_def)
next
  case (step_read ctx i s f rb')
  then have "sum_drops rb' = sum_drops (ring_of s) \<and> totalDrops rb' = totalDrops (ring_of s)"
    by (auto elim!: ReadContext_frameE intro!: sum_drops_cong simp: reader_drops_def)
  with step_read.prems show ?case by simp
next
  case (step_close s rb')
  have ri: "ring_inv (ring_of s)" using step_close.prems by (simp add: sys_inv_def)
  have "sum_drops rb' = sum_drops (ring_of s) \<and> totalDrops rb' = totalDrops (ring_of s)"
    using step_close.hyps rb_Close_eq [OF ri]
    by (cases "rb_closed (ring_of s)")
      (auto simp: rb_Close_def reader_drops_def shut_in_def split: option.splits intro!: sum_drops_cong)
  with step_close.prems show ?case by simp
next
  case (step_params s vps sps pps)
  then show ?case by (simp add: SetParams_def sum_drops_def reader_drops_def)
next
  case (step_camera s cid)
  then show ?case by (simp add: SetCameraID_def sum_drops_def reader_drops_def)
qed

lemma drops_reach: "ring_reach capacity s \<Longrightarrow> totalDrops (ring_of s) = u64 (sum_drops (ring_of s))"
proof (induction rule: ring_reach.induct)
  case reach_start
  then show ?case by (simp add: ring_start_def NewRingBuffer_def sum_drops_def Let_def u64_def)
next
  case (reach_step s t)
  then show ?case by (auto intro: drops_step sys_inv_reach)
qed

subsection \<open>Scripts are runs of the system\<close>

lemma ring_exec1_reach:
  assumes "ring_reach capacity s" "ring_exec1 e s = Inr t" "length (written s) + 1 < 2 ^ 64"
  shows "ring_reach capacity t \<and> length (written t) \<le> length (written s) + 1"
proof -
  have "(ring_step s t \<or> t = s) \<and> length (written t) \<le> length (written s) + 1"
  proof (cases e)
    case (EvWrite f)
    with assms show ?thesis
      by (cases "rb_closed (ring_of s)")
        (auto simp: ring_exec1_def and_then_eq_Inr intro: step_write step_write_closed)
  next
    case EvSubscribe
    with assms show ?thesis
      by (auto simp: ring_exec1_def and_then_eq_Inr intro: step_subscribe)
  next
    case (EvReaderClose i)
    with assms show ?thesis by (auto simp: ring_exec1_def intro: step_reader_close)
  next
    case (EvRead i)
    with assms show ?thesis
      by (auto simp: ring_exec1_def intro: step_read got_frame
          split: option.splits recv_result.splits)
  next
    case EvClose
    with assms show ?thesis by (auto simp: ring_exec1_def and_then_eq_Inr intro: step_close)
  qed
  with assms(1) show ?thesis by (auto intro: reach_step)
qed

lemma ring_exec_reach:
  assumes "ring_reach capacity s" "for_each ring_exec1 es s = Inr t"
    and "length (written s) + length es < 2 ^ 64"
  shows "ring_reach capacity t"
  using assms
proof (induction es arbitrary: s)
  case Nil
  then show ?case by simp
next
  case (Cons e es)
  then obtain u where u: "ring_exec1 e s = Inr u" "for_each ring_exec1 es u = Inr t"
    by (auto simp: and_then_eq_Inr)
  with ring_exec1_reach [OF Cons.prems(1) u(1)] Cons.prems(3) show ?case
    by (intro Cons.IH) auto
qed

subsection \<open>Properties\<close>

lemmas ring_eval = ring_exec1_def ring_start_def NewRingBuffer_def Subscribe_def findLastIFrameLocked_def
  findLastIFrame_from.simps register_reader_def make_chan_def rb_Write_def store_frame_def deliver_def
  offer_def u64_def recv_def handed_def preload_positions_def count_drop_def preload_one_def
  send_unshared_def rb_Close_def close_reader_chan_def close_chan_def sum_drops_def reader_drops_def

text \<open>
  C2: In every interleaving of the producer, the readers and \<open>Close\<close>, what a reader has taken
  out of its channel followed by what is still buffered there is the sequence of written
  frames at the positions it was handed, and those positions are decodable: they increase,
  each one directly follows the previous or carries a keyframe, and the first one is a
  keyframe unless it is the first frame of the stream. Dropped frames never leave a reader
  inside a broken group of pictures.
\<close>

theorem reader_stream_decodable:
  assumes "ring_reach capacity s" "rb_readers (ring_of s) i = Some r"
  shows "consumed s i @ ch_buf (rd_C r) = map ((!) (written s)) (got s i) \<and>
    gop_synced (written s) (got s i)"
  using sys_inv_reach [OF assms(1)] assms(2) by (simp add: sys_inv_def)

theorem reader_stream_decodable_witness:
  "\<exists>s r. ring_reach 1 s \<and> rb_readers (ring_of s) 0 = Some r \<and> got s 0 = [0, 3] \<and>
     consumed s 0 @ ch_buf (rd_C r) = map ((!) (written s)) [0, 3] \<and> gop_synced (written s) [0, 3]"
proof -
  let ?K = "\<lambda>t. \<lparr>Timestamp = t, IsKeyFrame = True, NALUs = []\<rparr>"
  let ?P = "\<lambda>t. \<lparr>Timestamp = t, IsKeyFrame = False, NALUs = []\<rparr>"
  let ?es = "[EvSubscribe, EvWrite (?K 0), EvWrite (?P 1), EvRead 0, EvWrite (?P 2), EvWrite (?K 3)]"
  have "\<exists>s. for_each ring_exec1 ?es (ring_start 1) = Inr s \<and>
      rb_readers (ring_of s) 0 \<noteq> None \<and> got s 0 = [0, 3]"
    by (simp add: ring_eval Let_def)
  then obtain s r where s: "for_each ring_exec1 ?es (ring_start 1) = Inr s"
      "rb_readers (ring_of s) 0 = Some r" "got s 0 = [0, 3]" by blast
  have "ring_reach 1 s" by (rule ring_exec_reach [OF reach_start s(1)]) (simp add: ring_start_def)
  from reader_stream_decodable [OF this s(2)] this s(2,3) show ?thesis by (intro exI) auto
qed

text \<open>
  C3: No method of the ring can panic (send on closed, double close, index out of range) or
  deadlock while it holds the mutex, in any reachable state: \<open>Write\<close>, \<open>Subscribe\<close> with its
  blocking preload sends, and \<open>Close\<close> all return.
\<close>

theorem ring_methods_return:
  assumes "ring_reach capacity s"
  shows "(\<exists>rb'. rb_Write f (ring_of s) = Inr rb') \<and> (\<exists>i rb'. Subscribe (ring_of s) = Inr (i, rb')) \<and>
    (\<exists>rb'. rb_Close (ring_of s) = Inr rb')"
proof -
  have inv: "ring_inv (ring_of s)" "totalDrops (ring_of s) < 2 ^ 64" "holds_history (written s) (ring_of s)"
    using sys_inv_reach [OF assms] by (simp_all add: sys_inv_def)
  from rb_Write_ok [OF inv(1,2), of f] Subscribe_ok [OF inv(1,3)] rb_Close_ok [OF inv(1)]
  show ?thesis by blast
qed

theorem ring_methods_return_witness:
  "ring_reach 3 (ring_start 3) \<and> (\<exists>rb'. rb_Close (ring_of (ring_start 3)) = Inr rb')"
  using ring_methods_return [OF reach_start, of _ 3] reach_start [of 3] by blast

text \<open>
  C4: The circular slots refine a sliding window on the stream: read out oldest first they
  are exactly the last \<open>capacity\<close> frames written (all of them while fewer were written), and
  \<open>head\<close> counts the frames written.
\<close>

theorem ring_window_refines:
  assumes "ring_reach capacity s"
  shows "rb_head (ring_of s) = length (written s) \<and>
    window (ring_of s) =
      map Some (drop (length (written s) - rb_capacity (ring_of s)) (written s))"
  using sys_inv_reach [OF assms] window_eq [of "written s" "ring_of s"]
  by (simp add: sys_inv_def holds_history_def)

theorem ring_window_refines_witness:
  "\<exists>s. ring_reach 2 s \<and> length (written s) = 3 \<and>
     window (ring_of s) = map Some (drop (3 - rb_capacity (ring_of s)) (written s))"
proof -
  let ?K = "\<lambda>t. \<lparr>Timestamp = t, IsKeyFrame = True, NALUs = []\<rparr>"
  have "\<exists>s. for_each ring_exec1 [EvWrite (?K 0), EvWrite (?K 1), EvWrite (?K 2)] (ring_start 2) = Inr s \<and>
      length (written s) = 3"
    by (simp add: ring_eval Let_def)
  then obtain s where s: "for_each ring_exec1 [EvWrite (?K 0), EvWrite (?K 1), EvWrite (?K 2)] (ring_start 2) = Inr s"
      "length (written s) = 3" by blast
  have "ring_reach 2 s" by (rule ring_exec_reach [OF reach_start s(1)]) (simp add: ring_start_def)
  from ring_window_refines [OF this] this s(2) show ?thesis by auto
qed

text \<open>
  C5: A subscriber of an open ring starts at the newest keyframe still retained: its channel
  is preloaded with the stream from that keyframe on. When no retained frame is a keyframe
  it starts empty, and waits for one exactly if anything was written before.
\<close>

theorem subscribe_at_newest_keyframe:
  assumes "ring_reach capacity s" "\<not> rb_closed (ring_of s)" "Subscribe (ring_of s) = Inr (i, rb')"
  shows "\<exists>r. rb_readers rb' i = Some r \<and> i \<in> subs rb' \<and> Drops r = 0 \<and>
    ((\<exists>k<length (written s). length (written s) \<le> k + rb_capacity (ring_of s) \<and>
        IsKeyFrame (written s ! k) \<and>
        (\<forall>j. k < j \<and> j < length (written s) \<longrightarrow> \<not> IsKeyFrame (written s ! j)) \<and>
        ch_buf (rd_C r) = drop k (written s) \<and> \<not> NeedsIFrame r) \<or>
     ((\<forall>j<length (written s). length (written s) \<le> j + rb_capacity (ring_of s) \<longrightarrow>
        \<not> IsKeyFrame (written s ! j)) \<and>
      ch_buf (rd_C r) = [] \<and> (NeedsIFrame r \<longleftrightarrow> written s \<noteq> [])))"
proof -
  have h: "holds_history (written s) (ring_of s)"
    using sys_inv_reach [OF assms(1)] by (simp add: sys_inv_def)
  have eq: "rb_readers rb' i = Some (fresh_reader (written s) (ring_of s))" "i \<in> subs rb'"
    using Subscribe_open [OF h assms(2)] assms(3) by (auto simp: register_reader_def)
  from h assms(2) show ?thesis
  proof (cases rule: preload_positions_cases)
    case (found st)
    then have "map ((!) (written s)) [st..<length (written s)] = drop st (written s)"
      by (simp add: list_eq_iff_nth_eq)
    with found eq show ?thesis by (auto simp: fresh_reader_def)
  next
    case (none st)
    with eq show ?thesis by (auto simp: fresh_reader_def)
  qed
qed

theorem subscribe_at_newest_keyframe_witness:
  "\<exists>s i rb' r. ring_reach 4 s \<and> \<not> rb_closed (ring_of s) \<and> Subscribe (ring_of s) = Inr (i, rb') \<and>
     rb_readers rb' i = Some r \<and> i \<in> subs rb' \<and> Drops r = 0"
proof -
  let ?es = "[EvWrite \<lparr>Timestamp = 0, IsKeyFrame = True, NALUs = []\<rparr>,
      EvWrite \<lparr>Timestamp = 1, IsKeyFrame = False, NALUs = []\<rparr>]"
  have "\<exists>s. for_each ring_exec1 ?es (ring_start 4) = Inr s \<and> \<not> rb_closed (ring_of s) \<and>
      (\<exists>i rb'. Subscribe (ring_of s) = Inr (i, rb'))"
    by (simp add: ring_eval Let_def upt_rec)
  then obtain s i rb' where s: "for_each ring_exec1 ?es (ring_start 4) = Inr s"
      "\<not> rb_closed (ring_of s)" "Subscribe (ring_of s) = Inr (i, rb')" by blast
  have "ring_reach 4 s" by (rule ring_exec_reach [OF reach_start s(1)]) (simp add: ring_start_def)
  from subscribe_at_newest_keyframe [OF this s(2,3)] this s(2,3) show ?thesis by blast
qed

text \<open>
  Slow consumers are isolated: a \<open>Write\<close> changes each subscribed reader as a function of
  that reader and the frame alone (skip while waiting for a keyframe, count a drop and
  wait for a keyframe when its own channel is full, enqueue otherwise), and touches no
  reader that has unsubscribed.
\<close>

theorem write_isolates_readers:
  assumes "ring_reach capacity s" "\<not> rb_closed (ring_of s)" "rb_Write f (ring_of s) = Inr rb'"
  shows "rb_readers rb' i =
    (if i \<in> subs (ring_of s) then map_option (accept f) (rb_readers (ring_of s) i)
     else rb_readers (ring_of s) i)"
proof -
  have inv: "ring_inv (ring_of s)" "totalDrops (ring_of s) < 2 ^ 64"
    using sys_inv_reach [OF assms(1)] by (simp_all add: sys_inv_def)
  from rb_Write_eq [OF inv(1) assms(2) inv(2), of f] assms(3) show ?thesis
    by (auto simp: accept_in_def)
qed

theorem write_isolates_readers_witness:
  "\<exists>rb'. \<not> rb_closed (ring_of (ring_start 2)) \<and>
     rb_Write \<lparr>Timestamp = 0, IsKeyFrame = True, NALUs = []\<rparr> (ring_of (ring_start 2)) = Inr rb' \<and>
     rb_readers rb' 5 = None"
proof -
  let ?f = "\<lparr>Timestamp = 0, IsKeyFrame = True, NALUs = []\<rparr>"
  have "\<not> rb_closed (ring_of (ring_start 2)) \<and> (\<exists>rb'. rb_Write ?f (ring_of (ring_start 2)) = Inr rb')"
    by (simp add: ring_eval Let_def)
  then obtain rb' where "\<not> rb_closed (ring_of (ring_start 2))" "rb_Write ?f (ring_of (ring_start 2)) = Inr rb'"
    by blast
  with write_isolates_readers [OF reach_start this, of 5] show ?thesis
    by (auto simp: ring_start_def NewRingBuffer_def Let_def)
qed

text \<open>
  The ring's drop counter is the sum of the drop counters of all readers it ever had,
  modulo the width of the counter.
\<close>

theorem total_drops_accounts:
  assumes "ring_reach capacity s"
  shows "GetTotalDrops (ring_of s) = u64 (sum_drops (ring_of s))"
  using drops_reach [OF assms] by (simp add: GetTotalDrops_def)

theorem total_drops_accounts_witness:
  "\<exists>s. ring_reach 1 s \<and> sum_drops (ring_of s) = 1 \<and> GetTotalDrops (ring_of s) = u64 1"
proof -
  let ?K = "\<lambda>t. \<lparr>Timestamp = t, IsKeyFrame = True, NALUs = []\<rparr>"
  have "\<exists>s. for_each ring_exec1 [EvSubscribe, EvWrite (?K 0), EvWrite (?K 1)] (ring_start 1) = Inr s \<and>
      sum_drops (ring_of s) = 1"
    by (simp add: ring_eval Let_def)
  then obtain s where s: "for_each ring_exec1 [EvSubscribe, EvWrite (?K 0), EvWrite (?K 1)] (ring_start 1) = Inr s"
      "sum_drops (ring_of s) = 1" by blast
  have "ring_reach 1 s" by (rule ring_exec_reach [OF reach_start s(1)]) (simp add: ring_start_def)
  from total_drops_accounts [OF this] this s(2) show ?thesis by auto
qed

text \<open>
  \<open>Close\<close> ends the stream for good without losing what is buffered: every subscribed
  reader keeps its buffered frames, its channel is closed so that it sees end of stream after
  them, and later writes and closes change nothing.
\<close>

theorem close_drains:
  assumes "ring_reach capacity s" "\<not> rb_closed (ring_of s)" "rb_Close (ring_of s) = Inr rb'"
  shows "rb_Write f rb' = Inr rb' \<and> rb_Close rb' = Inr rb' \<and>
    (\<forall>i\<in>subs (ring_of s). \<exists>r r'. rb_readers (ring_of s) i = Some r \<and> rb_readers rb' i = Some r' \<and>
       ch_buf (rd_C r') = ch_buf (rd_C r) \<and> ch_closed (rd_C r'))"
proof -
  have inv: "ring_inv (ring_of s)" using sys_inv_reach [OF assms(1)] by (simp add: sys_inv_def)
  have rb': "rb' = (ring_of s)\<lparr>rb_closed := True,
      rb_readers := shut_in (subs (ring_of s)) (rb_readers (ring_of s)), subs := {}, subsSlice := []\<rparr>"
    using rb_Close_eq [OF inv assms(2)] assms(3) by simp
  have "\<exists>r. rb_readers (ring_of s) i = Some r" if "i \<in> subs (ring_of s)" for i
    using inv that by (auto simp: ring_inv_def)
  then show ?thesis by (force simp: rb' rb_Write_def rb_Close_def shut_in_def)
qed

theorem close_drains_witness:
  "\<exists>s rb' r'. ring_reach 1 s \<and> \<not> rb_closed (ring_of s) \<and> rb_Close (ring_of s) = Inr rb' \<and>
     0 \<in> subs (ring_of s) \<and> rb_readers rb' 0 = Some r' \<and> ch_closed (rd_C r')"
proof -
  let ?es = "[EvSubscribe, EvWrite \<lparr>Timestamp = 0, IsKeyFrame = True, NALUs = []\<rparr>]"
  have "\<exists>s. for_each ring_exec1 ?es (ring_start 1) = Inr s \<and> \<not> rb_closed (ring_of s) \<and>
      0 \<in> subs (ring_of s) \<and> (\<exists>rb'. rb_Close (ring_of s) = Inr rb')"
    by (simp add: ring_eval Let_def)
  then obtain s rb' where s: "for_each ring_exec1 ?es (ring_start 1) = Inr s"
      "\<not> rb_closed (ring_of s)" "0 \<in> subs (ring_of s)" "rb_Close (ring_of s) = Inr rb'" by blast
  have "ring_reach 1 s" by (rule ring_exec_reach [OF reach_start s(1)]) (simp add: ring_start_def)
  from close_drains [OF this s(2,4)] this s(2-) show ?thesis by blast
qed

end
