(* ===== verification/Timestamp.thy ===== *)
theory Timestamp
  imports Prelude
begin

text \<open>
  \<open>internal/rtsp/timestamp.go\<close>: unwrapping of 32-bit RTP timestamps onto a 64-bit timeline
  and the conversions between the 90 kHz RTP clock and \<open>time.Duration\<close>. RTP timestamps keep
  their machine widths as words; durations are integers with the 64-bit wrap-around of every
  operation written out.

  Shown: the unwrapper reconstructs any timeline whose steps are shorter than half the 32-bit
  range; both conversions equal the exact rational value truncated to an integer on the
  stated ranges; a round trip loses at most one tick, and none exactly for multiples of 9.
\<close>

record TimestampUnwrapper =
  lastTS :: "32 word"
  epoch :: "64 word"
  initialized :: bool

definition NewTimestampUnwrapper :: TimestampUnwrapper where
  "NewTimestampUnwrapper = \<lparr>lastTS = 0, epoch = 0, initialized = False\<rparr>"

definition Unwrap :: "32 word \<Rightarrow> TimestampUnwrapper \<Rightarrow> 64 word \<times> TimestampUnwrapper" where
  "Unwrap ts u =
     (if \<not> initialized u then (ucast ts, \<lparr>lastTS = ts, epoch = 0, initialized = True\<rparr>)
      else
        let e = (if ts < lastTS u \<and> 0x80000000 < lastTS u - ts then epoch u + 0x100000000
                 else if lastTS u < ts \<and> 0x80000000 < ts - lastTS u then
                   (if 0x100000000 \<le> epoch u then epoch u - 0x100000000 else epoch u)
                 else epoch u)
        in (e + ucast ts, u\<lparr>epoch := e, lastTS := ts\<rparr>))"

definition RTP90kToDuration :: "64 word \<Rightarrow> int" where
  "RTP90kToDuration ts =
     (let sec = unat ts div 90000;
          rm = unat ts mod 90000;
          maxSec = nat (max_int64 sdiv second)
      in if maxSec < sec then max_int64
         else s64 (s64 (s64 (int sec) * second) + s64 (s64 (int rm) * second) sdiv 90000))"

definition DurationTo90k :: "int \<Rightarrow> int" where
  "DurationTo90k d =
     (let sec = d sdiv second;
          rm = d smod second
      in s64 (s64 (sec * 90000) + s64 (rm * 90000) sdiv second))"

text \<open>Feeding a whole sequence of packets through one unwrapper.\<close>

primrec unwrap_all :: "32 word list \<Rightarrow> TimestampUnwrapper \<Rightarrow> 64 word list" where
  "unwrap_all [] u = []"
| "unwrap_all (t # ts) u = (case Unwrap t u of (v, u') \<Rightarrow> v # unwrap_all ts u')"

text \<open>A timeline of 64-bit instants whose successive steps, forward or back, are short.\<close>

fun gentle :: "nat list \<Rightarrow> bool" where
  "gentle (s # t # ts) \<longleftrightarrow> s < t + 2 ^ 31 \<and> t < s + 2 ^ 31 \<and> gentle (t # ts)"
| "gentle _ \<longleftrightarrow> True"

definition at_instant :: "nat \<Rightarrow> TimestampUnwrapper \<Rightarrow> bool" where
  "at_instant t u \<longleftrightarrow> initialized u \<and> unat (lastTS u) = t mod 2 ^ 32 \<and>
     unat (epoch u) = t div 2 ^ 32 * 2 ^ 32"

subsection \<open>Unwrapping\<close>

lemma short_step_cases:
  assumes "s < t + 2 ^ 31" "t < s + 2 ^ (31 :: nat)"
  obtains
    (same) "t div 2 ^ 32 = s div 2 ^ 32"
      "\<not> (t mod 2 ^ 32 < s mod 2 ^ 32 \<and> 2 ^ 31 < s mod 2 ^ 32 - t mod 2 ^ 32)"
      "\<not> (s mod 2 ^ 32 < t mod 2 ^ 32 \<and> 2 ^ 31 < t mod 2 ^ 32 - s mod 2 ^ 32)"
  | (forward) "t div 2 ^ 32 = s div 2 ^ 32 + 1" "t mod 2 ^ 32 < s mod 2 ^ 32"
      "2 ^ 31 < s mod 2 ^ 32 - t mod 2 ^ 32"
  | (backward) "t div 2 ^ 32 + 1 = s div (2 ^ 32 :: nat)" "s mod 2 ^ 32 < t mod 2 ^ 32"
      "2 ^ 31 < t mod 2 ^ 32 - s mod 2 ^ 32"
proof -
  define q r q' r' where "q = s div 2 ^ 32" "r = s mod 2 ^ 32" "q' = t div 2 ^ 32" "r' = t mod 2 ^ 32"
  have st: "s = q * 2 ^ 32 + r" "t = q' * 2 ^ 32 + r'" "r < 2 ^ 32" "r' < 2 ^ 32"
    by (simp_all add: q_r_q'_r'_def)
  then have "q' = q \<or> q' = q + 1 \<or> q' + 1 = q" using assms by auto
  then show thesis
  proof (elim disjE)
    assume "q' = q"
    then show thesis using st assms by (intro same; fold q_r_q'_r'_def) auto
  next
    assume "q' = q + 1"
    then show thesis using st assms by (intro forward; fold q_r_q'_r'_def) auto
  next
    assume "q' + 1 = q"
    then show thesis using st assms by (intro backward; fold q_r_q'_r'_def) auto
  qed
qed

lemma unat_sub_less: "(a :: 'a :: len word) < b \<Longrightarrow> unat (b - a) = unat b - unat a"
  by (simp add: unat_sub)

lemma Unwrap_at_instant:
  assumes "at_instant s u" "s < t + 2 ^ 31" "t < s + 2 ^ 31" "t < 2 ^ 64"
  shows "\<exists>u'. Unwrap (of_nat t) u = (of_nat t, u') \<and> at_instant t u'"
proof -
  let ?ts = "of_nat t :: 32 word"
  have u: "initialized u" "unat (lastTS u) = s mod 2 ^ 32" "unat (epoch u) = s div 2 ^ 32 * 2 ^ 32"
    using assms(1) by (simp_all add: at_instant_def)
  have ts: "unat ?ts = t mod 2 ^ 32" by (simp add: unat_of_nat)
  have cmp: "?ts < lastTS u \<and> 0x80000000 < lastTS u - ?ts \<longleftrightarrow>
      t mod 2 ^ 32 < s mod 2 ^ 32 \<and> 2 ^ 31 < s mod 2 ^ 32 - t mod 2 ^ 32"
    "lastTS u < ?ts \<and> 0x80000000 < ?ts - lastTS u \<longleftrightarrow>
      s mod 2 ^ 32 < t mod 2 ^ 32 \<and> 2 ^ 31 < t mod 2 ^ 32 - s mod 2 ^ 32"
    using u(2) ts by (auto simp: word_less_nat_alt unat_sub_less [unfolded word_less_nat_alt])
  have fin: ?thesis if "Unwrap ?ts u = (e + ucast ?ts, u\<lparr>epoch := e, lastTS := ?ts\<rparr>)"
    and "unat e = t div 2 ^ 32 * 2 ^ 32" for e
  proof -
    have "unat (e + ucast ?ts) = t div 2 ^ 32 * 2 ^ 32 + t mod 2 ^ 32"
      using that(2) ts assms(4) by (simp add: unat_word_ariths unsigned_ucast_eq take_bit_nat_def)
    then have "e + ucast ?ts = of_nat t"
      using assms(4) by (simp only: word_unat_eq_iff div_mult_mod_eq) (simp add: unat_of_nat)
    with that u(1) ts show ?thesis by (simp add: at_instant_def)
  qed
  from assms(2,3) show ?thesis
  proof (cases rule: short_step_cases)
    case same
    then show ?thesis using u cmp by (intro fin [of "epoch u"]) (simp_all add: Unwrap_def Let_def)
  next
    case forward
    have "unat (epoch u + 0x100000000) = t div 2 ^ 32 * 2 ^ 32"
      using forward(1) u(3) assms(4) by (simp add: unat_word_ariths)
    then show ?thesis using u forward cmp
      by (intro fin [of "epoch u + 0x100000000"]) (simp_all add: Unwrap_def Let_def)
  next
    case backward
    then have le: "0x100000000 \<le> epoch u" using u(3) by (simp add: word_le_nat_alt)
    then have "unat (epoch u - 0x100000000) = t div 2 ^ 32 * 2 ^ 32"
      using backward(1) u(3) by (simp add: unat_sub flip: backward(1))
    then show ?thesis using u backward cmp le
      by (intro fin [of "epoch u - 0x100000000"]) (auto simp: Unwrap_def Let_def)
  qed
qed

lemma unwrap_all_gentle:
  assumes "at_instant s u" "gentle (s # ts)" "\<forall>t\<in>set ts. t < 2 ^ 64"
  shows "unwrap_all (map of_nat ts) u = map of_nat ts"
  using assms
proof (induction ts arbitrary: s u)
  case Nil
  then show ?case by simp
next
  case (Cons t ts)
  then have "s < t + 2 ^ 31" "t < s + 2 ^ 31" "t < 2 ^ 64" by auto
  from Unwrap_at_instant [OF Cons.prems(1) this] Cons show ?case by auto
qed

lemma gentle_Cons: "gentle (t # ts) \<Longrightarrow> gentle ts"
  by (cases ts) simp_all

subsection \<open>Conversions\<close>

lemma RTP90k_exact:
  assumes "int (unat ts) * second div 90000 \<le> max_int64"
  shows "RTP90kToDuration ts = int (unat ts) * second div 90000"
proof -
  define q r where "q = int (unat ts) div 90000" "r = int (unat ts) mod 90000"
  have t: "int (unat ts) = 90000 * q + r" "0 \<le> q" "0 \<le> r" "r < 90000"
    by (simp_all add: q_r_def pos_imp_zdiv_nonneg_iff)
  have qr: "int (unat ts div 90000) = q" "int (unat ts mod 90000) = r"
    by (simp_all add: q_r_def zdiv_int zmod_int)
  have e: "int (unat ts) * second div 90000 = q * second + r * second div 90000"
    unfolding t(1) by (simp add: algebra_simps)
  have b: "0 \<le> r * second div 90000" using t by simp
  have q: "q \<le> 9223372036" using assms e b by linarith
  have "nat (max_int64 sdiv second) = 9223372036" by (simp add: go_int)
  moreover have "\<not> 9223372036 < unat ts div 90000" using q qr(1) by linarith
  moreover have "s64 q = q" "s64 (q * second) = q * second" "s64 r = r" "s64 (r * second) = r * second"
    using t q by (auto simp: s64_eq_iff in_s64_def)
  moreover have "s64 (q * second + r * second div 90000) = q * second + r * second div 90000"
    using assms e b t q by (auto simp: s64_eq_iff in_s64_def)
  ultimately show ?thesis
    unfolding RTP90kToDuration_def Let_def qr e using t by (simp add: sdiv_nonneg)
qed

lemma DurationTo90k_nonneg:
  assumes "0 \<le> d" "d \<le> max_int64"
  shows "DurationTo90k d = d * 90000 div second"
proof -
  define q r where "q = d div second" "r = d mod second"
  have t: "d = second * q + r" "0 \<le> q" "0 \<le> r" "r < second"
    using assms by (simp_all add: q_r_def pos_imp_zdiv_nonneg_iff)
  have q: "q \<le> 9223372036" using assms t by linarith
  have e: "d * 90000 div second = q * 90000 + r * 90000 div second"
    unfolding t(1) by (simp add: algebra_simps)
  have b: "0 \<le> r * 90000 div second" "r * 90000 div second < 90000"
    using t by linarith+
  have "s64 (q * 90000) = q * 90000" "s64 (r * 90000) = r * 90000"
    "s64 (q * 90000 + r * 90000 div second) = q * 90000 + r * 90000 div second"
    using t q b by (auto simp: s64_eq_iff in_s64_def)
  then show ?thesis
    unfolding DurationTo90k_def Let_def e using assms t
    by (simp add: sdiv_nonneg smod_nonneg flip: q_r_def)
qed

lemma RTP90k_floor:
  assumes "int (unat ts) * 100000 div 9 \<le> max_int64"
  shows "RTP90kToDuration ts = int (unat ts) * 100000 div 9"
proof -
  have "int (unat ts) * second div 90000 = int (unat ts) * 100000 div 9"
    using div_mult_mult2 [of 10000 "int (unat ts) * 100000" 9] by simp
  with RTP90k_exact [of ts] assms show ?thesis by simp
qed

lemma ninth_floor:
  fixes n :: int
  assumes "0 \<le> n"
  shows "n * 100000 div 9 * 9 div 100000 = (if 9 dvd n then n else n - 1)"
proof -
  define k m where "k = n * 100000 div 9" "m = n * 100000 mod 9"
  have "9 dvd 9 * (11111 * n) + n \<longleftrightarrow> 9 dvd n" by (rule dvd_add_right_iff) simp
  then have "9 dvd n * 100000 \<longleftrightarrow> 9 dvd n" by (simp add: mult.commute)
  then have k: "9 * k = n * 100000 - m" "0 \<le> m" "m < 9" "m = 0 \<longleftrightarrow> 9 dvd n"
    by (auto simp: k_m_def dvd_eq_mod_eq_0 minus_mod_eq_mult_div)
  have "k * 9 div 100000 = (if 9 dvd n then n else n - 1)"
  proof (cases "9 dvd n")
    case True
    with k show ?thesis by (simp add: mult.commute)
  next
    case False
    with k have "k * 9 div 100000 = n - 1"
      by (intro int_div_pos_eq [of _ _ _ "100000 - m"]) auto
    with False show ?thesis by simp
  qed
  then show ?thesis by (simp add: k_m_def)
qed

subsection \<open>Properties\<close>

text \<open>
  C16: The unwrapper reconstructs the sender's 64-bit timeline exactly. If the first instant is
  below \<open>2^32\<close> and successive instants differ by less than \<open>2^31\<close> ticks in either direction
  (reordered packets included), then feeding the 32-bit truncations of the instants through
  one unwrapper gives back the instants themselves, across any number of rollovers.
\<close>

theorem unwrap_reconstructs:
  assumes "gentle (t # ts)" "t < 2 ^ 32" "\<forall>x\<in>set ts. x < 2 ^ 64"
  shows "unwrap_all (map of_nat (t # ts)) NewTimestampUnwrapper = map of_nat (t # ts)"
proof -
  let ?u = "\<lparr>lastTS = of_nat t, epoch = 0, initialized = True\<rparr>"
  have "(ucast (of_nat t :: 32 word) :: 64 word) = of_nat t"
    using assms(2) by (simp add: word_unat_eq_iff unsigned_ucast_eq take_bit_nat_def unat_of_nat)
  moreover have "at_instant t ?u"
    using assms(2) by (simp add: at_instant_def unat_of_nat)
  ultimately show ?thesis
    using unwrap_all_gentle [OF _ assms(1,3)] by (simp add: Unwrap_def NewTimestampUnwrapper_def)
qed

theorem unwrap_reconstructs_witness:
  "unwrap_all (map of_nat [4294967290, 4294967300, 4294967295, 4294967310]) NewTimestampUnwrapper =
     map of_nat [4294967290, 4294967300, 4294967295, 4294967310]"
  by (rule unwrap_reconstructs) simp_all

text \<open>
  \<open>RTP90kToDuration\<close> is the exact number of nanoseconds, rounded down, whenever that
  number fits a \<open>time.Duration\<close>: the split into seconds and remainder avoids every
  intermediate overflow.
\<close>

theorem RTP90kToDuration_exact:
  assumes "int (unat ts) * second div 90000 \<le> max_int64"
  shows "RTP90kToDuration ts = int (unat ts) * second div 90000"
  using assms by (rule RTP90k_exact)

theorem RTP90kToDuration_exact_witness:
  "RTP90kToDuration 830103483316929 = 9223372036854766666"
  using RTP90kToDuration_exact [of 830103483316929] by simp

text \<open>
  A round trip through \<open>time.Duration\<close> is exact for multiples of nine ticks and loses
  exactly one tick otherwise.
\<close>

theorem rtp_round_trip:
  assumes "int (unat ts) * 100000 div 9 \<le> max_int64"
  shows "DurationTo90k (RTP90kToDuration ts) =
    (if 9 dvd int (unat ts) then int (unat ts) else int (unat ts) - 1)"
proof -
  let ?n = "int (unat ts)"
  have "RTP90kToDuration ts = ?n * 100000 div 9" by (rule RTP90k_floor [OF assms])
  moreover have "0 \<le> ?n * 100000 div 9" by (simp add: pos_imp_zdiv_nonneg_iff)
  ultimately have "DurationTo90k (RTP90kToDuration ts) = ?n * 100000 div 9 * 90000 div second"
    using DurationTo90k_nonneg assms by simp
  also have "\<dots> = ?n * 100000 div 9 * 9 div 100000"
    using div_mult_mult2 [of 10000 "?n * 100000 div 9 * 9" 100000] by simp
  finally show ?thesis by (simp add: ninth_floor)
qed

theorem rtp_round_trip_witness:
  "DurationTo90k (RTP90kToDuration 90001) = 90000"
  using rtp_round_trip [of 90001] by simp

text \<open>
  The clamp has a gap: in the last representable second the remainder term still overflows, so
  the largest accepted timestamps give a negative duration instead of the maximum.
\<close>

lemma RTP90kToDuration_clamp_gap: "RTP90kToDuration 830103483329999 < 0"
  by (simp add: RTP90kToDuration_def s64_def go_int)

end
