(* ===== verification/Broadcast.thy ===== *)
theory Broadcast
  imports Go_Chan
begin

text \<open>
  The two fan-out services: \<open>internal/stream/metadata.go\<close> (AI metadata for a camera, with the
  latest payload replayed to a new subscriber) and \<open>pkg/logger/broadcaster.go\<close> (log lines for
  the SSE endpoint). Subscriber channels are addresses in a store. Go ranges over a map in
  an arbitrary order, so \<open>Broadcast\<close> and \<open>log_Write\<close> take the order as an argument and the
  results hold for every enumeration of the subscribers.

  The locale \<open>fanout\<close> is the common contract: publishing reaches every member without
  blocking, attaching yields a fresh member, detaching is idempotent. It is interpreted on both
  services, and the delivery guarantee for bursts is proved once inside it.
\<close>

type_synonym sub_id = nat

record 'a MetadataBroadcaster =
  subscribers :: "sub_id set"
  latest :: "'a option"
  md_chans :: "sub_id \<rightharpoonup> 'a chan"
  md_fresh :: sub_id

record log_broadcaster =
  clients :: "sub_id set"
  lb_chans :: "sub_id \<rightharpoonup> bytes chan"
  lb_fresh :: sub_id

subsection \<open>Metadata\<close>

definition NewMetadataBroadcaster :: "'a MetadataBroadcaster" where
  "NewMetadataBroadcaster =
     \<lparr>subscribers = {}, latest = None, md_chans = Map.empty, md_fresh = 0\<rparr>"

text \<open>The \<open>select\<close> that sends or drops, on the channel at an address of the store.\<close>

definition offer_at :: "'a \<Rightarrow> sub_id \<Rightarrow> (sub_id \<rightharpoonup> 'a chan) \<Rightarrow> (sub_id \<rightharpoonup> 'a chan) outcome" where
  "offer_at x i m =
     (case m i of
        None \<Rightarrow> Inl NilDeref
      | Some c \<Rightarrow> and_then (offer x c) (\<lambda>(c', _). Inr (m(i \<mapsto> c'))))"

definition close_at :: "sub_id \<Rightarrow> (sub_id \<rightharpoonup> 'a chan) \<Rightarrow> (sub_id \<rightharpoonup> 'a chan) outcome" where
  "close_at i m =
     (case m i of
        None \<Rightarrow> Inl NilDeref
      | Some c \<Rightarrow> and_then (close_chan c) (\<lambda>c'. Inr (m(i \<mapsto> c'))))"

definition md_Subscribe :: "'a MetadataBroadcaster \<Rightarrow> (sub_id \<times> 'a MetadataBroadcaster) outcome" where
  "md_Subscribe m =
     (let sub = md_fresh m;
          m1 = m\<lparr>subscribers := insert sub (subscribers m),
                 md_chans := (md_chans m)(sub \<mapsto> make_chan 10), md_fresh := sub + 1\<rparr>
      in case latest m1 of
           None \<Rightarrow> Inr (sub, m1)
         | Some x \<Rightarrow> and_then (offer_at x sub (md_chans m1)) (\<lambda>cs. Inr (sub, m1\<lparr>md_chans := cs\<rparr>)))"

definition md_Unsubscribe :: "sub_id \<Rightarrow> 'a MetadataBroadcaster \<Rightarrow> 'a MetadataBroadcaster outcome" where
  "md_Unsubscribe sub m =
     (if sub \<in> subscribers m then
        and_then (close_at sub (md_chans m)) (\<lambda>cs.
          Inr (m\<lparr>subscribers := subscribers m - {sub}, md_chans := cs\<rparr>))
      else Inr m)"

definition md_Broadcast :: "sub_id list \<Rightarrow> 'a \<Rightarrow> 'a MetadataBroadcaster \<Rightarrow> 'a MetadataBroadcaster outcome" where
  "md_Broadcast order req m =
     and_then (for_each (offer_at req) order (md_chans m)) (\<lambda>cs.
       Inr (m\<lparr>latest := Some req, md_chans := cs\<rparr>))"

subsection \<open>Log lines\<close>

definition GlobalBroadcaster :: log_broadcaster where
  "GlobalBroadcaster = \<lparr>clients = {}, lb_chans = Map.empty, lb_fresh = 0\<rparr>"

text \<open>The result of \<open>Write\<close> is the number of bytes consumed, and never an error.\<close>

definition log_Write :: "sub_id list \<Rightarrow> bytes \<Rightarrow> log_broadcaster \<Rightarrow> (nat \<times> log_broadcaster) outcome" where
  "log_Write order p b =
     (if clients b = {} then Inr (length p, b)
      else let msg = take (length p) p in
        and_then (for_each (offer_at msg) order (lb_chans b)) (\<lambda>cs.
          Inr (length p, b\<lparr>lb_chans := cs\<rparr>)))"

definition log_Subscribe :: "log_broadcaster \<Rightarrow> sub_id \<times> log_broadcaster" where
  "log_Subscribe b =
     (lb_fresh b,
      b\<lparr>lb_chans := (lb_chans b)(lb_fresh b \<mapsto> make_chan 100), lb_fresh := lb_fresh b + 1,
        clients := insert (lb_fresh b) (clients b)\<rparr>)"

definition log_Unsubscribe :: "sub_id \<Rightarrow> log_broadcaster \<Rightarrow> log_broadcaster outcome" where
  "log_Unsubscribe ch b =
     (if ch \<in> clients b then
        and_then (close_at ch (lb_chans b)) (\<lambda>cs.
          Inr (b\<lparr>clients := clients b - {ch}, lb_chans := cs\<rparr>))
      else Inr b)"

subsection \<open>Invariants\<close>

definition members_open :: "sub_id set \<Rightarrow> (sub_id \<rightharpoonup> 'a chan) \<Rightarrow> sub_id \<Rightarrow> bool" where
  "members_open A m fresh \<longleftrightarrow> finite A \<and>
     (\<forall>i\<in>A. \<exists>c. m i = Some c \<and> \<not> ch_closed c) \<and>
     (\<forall>i c. m i = Some c \<longrightarrow> i < fresh \<and> chan_ok c)"

definition md_inv :: "'a MetadataBroadcaster \<Rightarrow> bool" where
  "md_inv m \<longleftrightarrow> members_open (subscribers m) (md_chans m) (md_fresh m)"

definition log_inv :: "log_broadcaster \<Rightarrow> bool" where
  "log_inv b \<longleftrightarrow> members_open (clients b) (lb_chans b) (lb_fresh b)"

text \<open>The enumerations a \<open>range\<close> over the subscriber map may produce.\<close>

definition enumerates :: "sub_id list \<Rightarrow> sub_id set \<Rightarrow> bool" where
  "enumerates order A \<longleftrightarrow> distinct order \<and> set order = A"

text \<open>What is left of a channel's free space after a burst.\<close>

definition burst :: "'a list \<Rightarrow> 'a chan \<Rightarrow> 'a list" where
  "burst xs c = ch_buf c @ take (ch_cap c - length (ch_buf c)) xs"

text \<open>A new subscriber's channel holds the latest payload, if there is one.\<close>

definition md_preloaded :: "'a MetadataBroadcaster \<Rightarrow> 'a chan" where
  "md_preloaded m = (make_chan 10)\<lparr>ch_buf := (case latest m of None \<Rightarrow> [] | Some x \<Rightarrow> [x])\<rparr>"

subsection \<open>The fan-out contract\<close>

locale fanout =
  fixes publish :: "sub_id list \<Rightarrow> 'a \<Rightarrow> 's \<Rightarrow> 's outcome"
    and attach :: "'s \<Rightarrow> (sub_id \<times> 's) outcome"
    and detach :: "sub_id \<Rightarrow> 's \<Rightarrow> 's outcome"
    and members :: "'s \<Rightarrow> sub_id set"
    and queue :: "'s \<Rightarrow> sub_id \<rightharpoonup> 'a chan"
    and inv :: "'s \<Rightarrow> bool"
  assumes members_queue: "inv s \<Longrightarrow> i \<in> members s \<Longrightarrow>
      \<exists>c. queue s i = Some c \<and> \<not> ch_closed c \<and> chan_ok c"
    and publish_law: "inv s \<Longrightarrow> enumerates order (members s) \<Longrightarrow>
      \<exists>s'. publish order x s = Inr s' \<and> inv s' \<and> members s' = members s \<and>
        (\<forall>i. queue s' i = (if i \<in> members s
           then map_option (\<lambda>c. c\<lparr>ch_buf := burst [x] c\<rparr>) (queue s i) else queue s i))"
    and attach_law: "inv s \<Longrightarrow>
      \<exists>i s'. attach s = Inr (i, s') \<and> inv s' \<and> i \<notin> members s \<and> queue s i = None \<and>
        members s' = insert i (members s) \<and> (\<forall>j. j \<noteq> i \<longrightarrow> queue s' j = queue s j)"
    and detach_law: "inv s \<Longrightarrow>
      \<exists>s'. detach i s = Inr s' \<and> inv s' \<and> members s' = members s - {i} \<and>
        (\<forall>j. queue s' j = (if j = i \<and> i \<in> members s
           then map_option (\<lambda>c. c\<lparr>ch_closed := True\<rparr>) (queue s j) else queue s j))"
begin

text \<open>A burst of messages, each published in whatever order the map is ranged over.\<close>

lemma publish_burst:
  assumes "inv s" "\<forall>(order, x)\<in>set ms. enumerates order (members s)"
  shows "\<exists>s'. for_each (\<lambda>(order, x). publish order x) ms s = Inr s' \<and> inv s' \<and>
    members s' = members s \<and>
    (\<forall>i. queue s' i = (if i \<in> members s
       then map_option (\<lambda>c. c\<lparr>ch_buf := burst (map snd ms) c\<rparr>) (queue s i) else queue s i))"
  using assms
proof (induction ms arbitrary: s)
  case Nil
  then show ?case by (auto simp: burst_def map_option_idI)
next
  case (Cons m ms)
  obtain order x where m: "m = (order, x)" by force
  with Cons.prems obtain s1 where s1: "publish order x s = Inr s1" "inv s1" "members s1 = members s"
    "\<And>i. queue s1 i = (if i \<in> members s
       then map_option (\<lambda>c. c\<lparr>ch_buf := burst [x] c\<rparr>) (queue s i) else queue s i)"
    using publish_law [of s order x] by auto
  have "\<exists>s'. for_each (\<lambda>(order, x). publish order x) ms s1 = Inr s' \<and> inv s' \<and>
    members s' = members s1 \<and>
    (\<forall>i. queue s' i = (if i \<in> members s1
       then map_option (\<lambda>c. c\<lparr>ch_buf := burst (map snd ms) c\<rparr>) (queue s1 i) else queue s1 i))"
    using Cons.prems s1 by (intro Cons.IH) auto
  moreover have "burst (map snd ms) (c\<lparr>ch_buf := burst [x] c\<rparr>) = burst (map snd (m # ms)) c" for c
    using m by (auto simp: burst_def take_Cons')
  ultimately show ?case
    using s1 m by (auto simp: map_option.compositionality comp_def)
qed

text \<open>Detaching twice is as good as once, and a detached subscriber gets nothing more.\<close>

lemma detach_idem:
  assumes "inv s"
  shows "\<exists>s1 s2. detach i s = Inr s1 \<and> detach i s1 = Inr s2 \<and> members s2 = members s1 \<and>
    queue s2 = queue s1"
proof -
  obtain s1 where s1: "detach i s = Inr s1" "inv s1" "members s1 = members s - {i}"
    using detach_law [OF assms, of i] by blast
  obtain s2 where "detach i s1 = Inr s2" "members s2 = members s1 - {i}"
      "\<forall>j. queue s2 j = (if j = i \<and> i \<in> members s1
         then map_option (\<lambda>c. c\<lparr>ch_closed := True\<rparr>) (queue s1 j) else queue s1 j)"
    using detach_law [OF s1(2), of i] by blast
  with s1 show ?thesis by (intro exI [of _ s1] exI [of _ s2]) (auto simp: fun_eq_iff)
qed

end

subsection \<open>The loop over the subscribers\<close>

lemma offer_burst: "\<not> ch_closed c \<Longrightarrow> \<exists>b. offer x c = Inr (c\<lparr>ch_buf := burst [x] c\<rparr>, b)"
  by (auto simp: offer_def burst_def)

lemma chan_ok_burst: "chan_ok c \<Longrightarrow> chan_ok (c\<lparr>ch_buf := burst xs c\<rparr>)"
  by (auto simp: chan_ok_def burst_def)

lemma offer_at_each:
  assumes "distinct order" "\<forall>i\<in>set order. \<exists>c. m i = Some c \<and> \<not> ch_closed c"
  shows "for_each (offer_at x) order m = Inr (\<lambda>i. if i \<in> set order
    then map_option (\<lambda>c. c\<lparr>ch_buf := burst [x] c\<rparr>) (m i) else m i)"
  using assms
proof (induction order arbitrary: m)
  case Nil
  then show ?case by simp
next
  case (Cons i order)
  then obtain c b where c: "m i = Some c" "offer x c = Inr (c\<lparr>ch_buf := burst [x] c\<rparr>, b)"
    using offer_burst by fastforce
  let ?m1 = "m(i \<mapsto> c\<lparr>ch_buf := burst [x] c\<rparr>)"
  have "offer_at x i m = Inr ?m1" using c by (simp add: offer_at_def)
  moreover have "for_each (offer_at x) order ?m1 = Inr (\<lambda>j. if j \<in> set order
      then map_option (\<lambda>c. c\<lparr>ch_buf := burst [x] c\<rparr>) (?m1 j) else ?m1 j)"
    using Cons.prems by (intro Cons.IH) auto
  ultimately show ?case using Cons.prems(1) c by (auto simp: fun_eq_iff)
qed

lemma members_open_publish:
  assumes "members_open A m fresh"
  shows "members_open A (\<lambda>i. if i \<in> A then map_option (\<lambda>c. c\<lparr>ch_buf := burst [x] c\<rparr>) (m i) else m i) fresh"
  using assms by (auto simp: members_open_def chan_ok_burst)

lemma members_open_attach:
  assumes "members_open A m fresh" "chan_ok c" "\<not> ch_closed c"
  shows "members_open (insert fresh A) (m(fresh \<mapsto> c)) (fresh + 1)"
  using assms by (fastforce simp: members_open_def)

lemma members_open_detach:
  assumes "members_open A m fresh" "i \<in> A"
  shows "\<exists>c. m i = Some c \<and> close_at i m = Inr (m(i \<mapsto> c\<lparr>ch_closed := True\<rparr>)) \<and>
    members_open (A - {i}) (m(i \<mapsto> c\<lparr>ch_closed := True\<rparr>)) fresh"
  using assms by (fastforce simp: members_open_def close_at_def close_chan_def)

lemma members_open_fresh: "members_open A m fresh \<Longrightarrow> fresh \<notin> A \<and> m fresh = None"
  by (fastforce simp: members_open_def)

lemma md_Broadcast_law:
  assumes "md_inv m" "enumerates order (subscribers m)"
  shows "md_Broadcast order x m = Inr (m\<lparr>latest := Some x, md_chans := (\<lambda>i. if i \<in> subscribers m
    then map_option (\<lambda>c. c\<lparr>ch_buf := burst [x] c\<rparr>) (md_chans m i) else md_chans m i)\<rparr>)"
proof -
  have "for_each (offer_at x) order (md_chans m) = Inr (\<lambda>i. if i \<in> set order
      then map_option (\<lambda>c. c\<lparr>ch_buf := burst [x] c\<rparr>) (md_chans m i) else md_chans m i)"
    using assms by (intro offer_at_each) (auto simp: md_inv_def members_open_def enumerates_def)
  with assms(2) show ?thesis by (simp add: md_Broadcast_def enumerates_def)
qed

lemma md_Subscribe_law:
  "md_Subscribe m = Inr (md_fresh m, m\<lparr>subscribers := insert (md_fresh m) (subscribers m),
     md_chans := (md_chans m)(md_fresh m \<mapsto> md_preloaded m), md_fresh := md_fresh m + 1\<rparr>)"
  by (cases "latest m")
    (simp_all add: md_Subscribe_def md_preloaded_def offer_at_def offer_def make_chan_def Let_def)

lemma log_Write_law:
  assumes "log_inv b" "enumerates order (clients b)"
  shows "log_Write order p b = Inr (length p, b\<lparr>lb_chans := (\<lambda>i. if i \<in> clients b
    then map_option (\<lambda>c. c\<lparr>ch_buf := burst [p] c\<rparr>) (lb_chans b i) else lb_chans b i)\<rparr>)"
proof -
  have "for_each (offer_at p) order (lb_chans b) = Inr (\<lambda>i. if i \<in> set order
      then map_option (\<lambda>c. c\<lparr>ch_buf := burst [p] c\<rparr>) (lb_chans b i) else lb_chans b i)"
    using assms by (intro offer_at_each) (auto simp: log_inv_def members_open_def enumerates_def)
  with assms(2) show ?thesis by (auto simp: log_Write_def enumerates_def)
qed

subsection \<open>Both services are fan-outs\<close>

interpretation md: fanout md_Broadcast md_Subscribe md_Unsubscribe subscribers md_chans md_inv
proof (unfold_locales, goal_cases)
  case (1 s i)
  then show ?case by (auto simp: md_inv_def members_open_def)
next
  case (2 s order x)
  then show ?case
    using md_Broadcast_law [OF 2, of x] members_open_publish [of "subscribers s" "md_chans s" "md_fresh s" x]
    by (simp add: md_inv_def)
next
  case (3 s)
  have "chan_ok (md_preloaded s)" "\<not> ch_closed (md_preloaded s)"
    by (simp_all add: md_preloaded_def chan_ok_def split: option.splits)
  with 3 show ?case
    using md_Subscribe_law [of s] members_open_attach [of _ _ _ "md_preloaded s"]
      members_open_fresh [of "subscribers s" "md_chans s" "md_fresh s"]
    by (simp add: md_inv_def)
next
  case (4 s i)
  then show ?case
    using members_open_detach [of "subscribers s" "md_chans s" "md_fresh s" i]
    by (cases "i \<in> subscribers s") (auto simp: md_Unsubscribe_def md_inv_def)
qed

interpretation lg: fanout "\<lambda>order p b. and_then (log_Write order p b) (\<lambda>(n, b'). Inr b')"
  "\<lambda>b. Inr (log_Subscribe b)" log_Unsubscribe clients lb_chans log_inv
proof (unfold_locales, goal_cases)
  case (1 s i)
  then show ?case by (auto simp: log_inv_def members_open_def)
next
  case (2 s order x)
  then show ?case
    using log_Write_law [OF 2, of x] members_open_publish [of "clients s" "lb_chans s" "lb_fresh s" x]
    by (simp add: log_inv_def)
next
  case (3 s)
  then show ?case
    using members_open_attach [of "clients s" "lb_chans s" "lb_fresh s" "make_chan 100"]
      members_open_fresh [of "clients s" "lb_chans s" "lb_fresh s"]
    by (simp add: log_Subscribe_def log_inv_def chan_ok_def)
next
  case (4 s i)
  then show ?case
    using members_open_detach [of "clients s" "lb_chans s" "lb_fresh s" i]
    by (cases "i \<in> clients s") (auto simp: log_Unsubscribe_def log_inv_def)
qed

subsection \<open>Properties\<close>

text \<open>
  Publishing a burst of metadata never blocks or panics, in whatever order the
  subscriber map is ranged over: every subscriber's channel then holds what it held before
  followed by the longest prefix of the burst that fits its free space (newest payloads are
  the ones given up), and the channels of former subscribers are untouched.
\<close>

theorem metadata_burst:
  assumes "md_inv m" "\<forall>(order, x)\<in>set ms. enumerates order (subscribers m)"
  shows "\<exists>m'. for_each (\<lambda>(order, x). md_Broadcast order x) ms m = Inr m' \<and>
    subscribers m' = subscribers m \<and>
    (\<forall>i. md_chans m' i = (if i \<in> subscribers m
       then map_option (\<lambda>c. c\<lparr>ch_buf := ch_buf c @ take (ch_cap c - length (ch_buf c)) (map snd ms)\<rparr>)
              (md_chans m i) else md_chans m i))"
  using md.publish_burst [OF assms] by (auto simp: burst_def)

theorem metadata_burst_witness:
  "\<exists>m i m'. md_Subscribe (NewMetadataBroadcaster :: nat MetadataBroadcaster) = Inr (i, m) \<and>
     for_each (\<lambda>(order, x). md_Broadcast order x) (map (Pair [i]) [0..<12]) m = Inr m' \<and>
     map_option ch_buf (md_chans m' i) = Some [0..<10]"
proof -
  let ?m = "\<lparr>subscribers = {0}, latest = None, md_chans = [0 \<mapsto> make_chan 10], md_fresh = 1\<rparr> ::
    nat MetadataBroadcaster"
  have m: "md_Subscribe (NewMetadataBroadcaster :: nat MetadataBroadcaster) = Inr (0, ?m)"
    by (simp add: md_Subscribe_def NewMetadataBroadcaster_def Let_def)
  have "md_inv ?m" by (simp add: md_inv_def members_open_def chan_ok_def)
  moreover have "\<forall>(order, x)\<in>set (map (Pair [0]) [0..<12 :: nat]). enumerates order (subscribers ?m)"
    by (simp add: enumerates_def)
  ultimately obtain m' where
    m': "for_each (\<lambda>(order, x). md_Broadcast order x) (map (Pair [0]) [0..<12]) ?m = Inr m'"
      "md_chans m' 0 = map_option (\<lambda>c. c\<lparr>ch_buf := ch_buf c @
         take (ch_cap c - length (ch_buf c)) (map snd (map (Pair [0 :: nat]) [0..<12 :: nat]))\<rparr>) (md_chans ?m 0)"
    using metadata_burst [of ?m "map (Pair [0]) [0..<12]"] by auto
  from m'(2) have "map_option ch_buf (md_chans m' 0) = Some [0..<10]"
    by (simp add: comp_def)
  with m m'(1) show ?thesis by blast
qed

text \<open>
  A subscriber that joins after metadata was published starts with exactly the latest
  payload in its channel and is not yet known to the broadcaster before.
\<close>

theorem metadata_late_subscriber:
  assumes "md_inv m" "enumerates order (subscribers m)" "md_Broadcast order x m = Inr m1"
  shows "\<exists>i m2 c. md_Subscribe m1 = Inr (i, m2) \<and> i \<notin> subscribers m \<and> md_inv m2 \<and>
    md_chans m2 i = Some c \<and> ch_buf c = [x] \<and> ch_cap c = 10 \<and> \<not> ch_closed c"
proof -
  have m1: "md_inv m1" "subscribers m1 = subscribers m" "latest m1 = Some x"
    using md.publish_law [OF assms(1,2), of x] md_Broadcast_law [OF assms(1,2), of x] assms(3) by auto
  from md.attach_law [OF m1(1)] md_Subscribe_law [of m1] m1 show ?thesis
    by (auto simp: md_preloaded_def)
qed

theorem metadata_late_subscriber_witness:
  "\<exists>m1 i m2. md_Broadcast [] (7 :: nat) NewMetadataBroadcaster = Inr m1 \<and> md_Subscribe m1 = Inr (i, m2) \<and>
     map_option ch_buf (md_chans m2 i) = Some [7]"
proof -
  have "md_inv (NewMetadataBroadcaster :: nat MetadataBroadcaster)"
    "enumerates [] (subscribers (NewMetadataBroadcaster :: nat MetadataBroadcaster))"
    "\<exists>m1. md_Broadcast [] (7 :: nat) NewMetadataBroadcaster = Inr m1"
    by (simp_all add: NewMetadataBroadcaster_def md_inv_def members_open_def enumerates_def md_Broadcast_def)
  then obtain m1 where "md_Broadcast [] (7 :: nat) NewMetadataBroadcaster = Inr m1"
    "md_inv (NewMetadataBroadcaster :: nat MetadataBroadcaster)"
    "enumerates [] (subscribers (NewMetadataBroadcaster :: nat MetadataBroadcaster))" by blast
  with metadata_late_subscriber [OF this(2,3,1)] show ?thesis by (metis option.simps(9))
qed

text \<open>
  The log broadcaster never stalls or breaks the logger: every write of a burst reports all
  its bytes as written and delivers it to each client that has room, dropping the newest
  lines for a full one; unsubscribing closes the client's channel once and is a no-op the
  second time.
\<close>

theorem log_burst:
  assumes "log_inv b" "\<forall>(order, p)\<in>set ms. enumerates order (clients b)"
    and "enumerates order (clients b)"
  shows "\<exists>b'. for_each (\<lambda>(order, p) b. and_then (log_Write order p b) (\<lambda>(n, b'). Inr b')) ms b = Inr b' \<and>
    (\<forall>i. lb_chans b' i = (if i \<in> clients b
       then map_option (\<lambda>c. c\<lparr>ch_buf := ch_buf c @ take (ch_cap c - length (ch_buf c)) (map snd ms)\<rparr>)
              (lb_chans b i) else lb_chans b i)) \<and>
    (\<exists>b1. log_Write order p b = Inr (length p, b1)) \<and>
    (\<exists>b1 b2. log_Unsubscribe j b' = Inr b1 \<and> log_Unsubscribe j b1 = Inr b2 \<and> lb_chans b2 = lb_chans b1)"
proof -
  from lg.publish_burst [OF assms(1,2)] obtain b' where b':
    "for_each (\<lambda>(order, p) b. and_then (log_Write order p b) (\<lambda>(n, b'). Inr b')) ms b = Inr b'"
    "log_inv b'" "\<forall>i. lb_chans b' i = (if i \<in> clients b
       then map_option (\<lambda>c. c\<lparr>ch_buf := burst (map snd ms) c\<rparr>) (lb_chans b i) else lb_chans b i)"
    by blast
  from lg.detach_idem [OF b'(2), of j] log_Write_law [OF assms(1,3), of p] b' show ?thesis
    by (auto simp: burst_def)
qed

theorem log_burst_witness:
  "\<exists>b'. for_each (\<lambda>(order, p) b. and_then (log_Write order p b) (\<lambda>(n, b'). Inr b'))
       [([0], [1]), ([0], [2, 3])] (snd (log_Subscribe GlobalBroadcaster)) = Inr b' \<and>
     map_option ch_buf (lb_chans b' 0) = Some [[1], [2, 3]]"
proof -
  let ?b = "snd (log_Subscribe GlobalBroadcaster)"
  let ?ms = "[([0], [1]), ([0], [2, 3])] :: (sub_id list \<times> bytes) list"
  have "log_inv ?b" "\<forall>(order, p)\<in>set ?ms. enumerates order (clients ?b)" "enumerates [0] (clients ?b)"
    by (simp_all add: log_Subscribe_def GlobalBroadcaster_def log_inv_def members_open_def chan_ok_def
        enumerates_def)
  from log_burst [OF this] obtain b' where
    "for_each (\<lambda>(order, p) b. and_then (log_Write order p b) (\<lambda>(n, b'). Inr b')) ?ms ?b = Inr b'"
    "lb_chans b' 0 = (if 0 \<in> clients ?b
       then map_option (\<lambda>c. c\<lparr>ch_buf := ch_buf c @ take (ch_cap c - length (ch_buf c)) (map snd ?ms)\<rparr>)
              (lb_chans ?b 0) else lb_chans ?b 0)" by blast
  then show ?thesis by (simp add: log_Subscribe_def GlobalBroadcaster_def)
qed

end
