(* ===== verification/FMP4.thy ===== *)
theory FMP4
  imports Prelude
begin

text \<open>
  Files of ISO base-media boxes: an open file as contents and position with \<open>io.ReadFull\<close> and
  \<open>Seek\<close>, the box header reader of \<open>internal/archive/hls.go\<close>, and the validator of
  \<open>internal/recorder/recovery.go\<close> that decides whether a recording cut off by a crash goes
  into the archive. Box types are their four bytes.

  Shown: the validator accepts a file exactly when it is a sequence of complete boxes,
  nothing else, of at least 32 bytes with a movie box and media fragments, and its loop
  terminates on every file.
\<close>

subsection \<open>Open files\<close>

record file_rd =
  fr_data :: bytes
  fr_pos :: nat

datatype io_error = io_EOF | io_UnexpectedEOF | io_NotExist

definition io_ReadFull :: "nat \<Rightarrow> file_rd \<Rightarrow> (io_error + bytes) \<times> file_rd" where
  "io_ReadFull n f =
     (let avail = drop (fr_pos f) (fr_data f) in
      if n \<le> length avail then (Inr (take n avail), f\<lparr>fr_pos := fr_pos f + n\<rparr>)
      else (Inl (if avail = [] then io_EOF else io_UnexpectedEOF),
            f\<lparr>fr_pos := fr_pos f + length avail\<rparr>))"

definition seek_start :: "nat \<Rightarrow> file_rd \<Rightarrow> file_rd" where
  "seek_start p f = f\<lparr>fr_pos := p\<rparr>"

definition be_uint32 :: "bytes \<Rightarrow> nat" where
  "be_uint32 bs = unat (bs ! 0) * 2 ^ 24 + unat (bs ! 1) * 2 ^ 16 + unat (bs ! 2) * 2 ^ 8 + unat (bs ! 3)"

definition put_be_uint32 :: "nat \<Rightarrow> bytes" where
  "put_be_uint32 n = [of_nat (n div 2 ^ 24), of_nat (n div 2 ^ 16), of_nat (n div 2 ^ 8), of_nat n]"

abbreviation moov_type :: bytes where "moov_type \<equiv> [0x6D, 0x6F, 0x6F, 0x76]"
abbreviation moof_type :: bytes where "moof_type \<equiv> [0x6D, 0x6F, 0x6F, 0x66]"
abbreviation mdat_type :: bytes where "mdat_type \<equiv> [0x6D, 0x64, 0x61, 0x74]"

definition readBoxHeader :: "file_rd \<Rightarrow> (io_error + bytes \<times> nat) \<times> file_rd" where
  "readBoxHeader r =
     (case io_ReadFull 8 r of
        (Inl e, r') \<Rightarrow> (Inl e, r')
      | (Inr header, r') \<Rightarrow> (Inr (take 4 (drop 4 header), be_uint32 (take 4 header)), r'))"

subsection \<open>The validator\<close>

datatype fmp4_error =
    OpenFailed | TooSmall nat | TruncatedHeader nat | HeaderRead nat | InvalidSize nat nat
  | ExceedsFile nat nat | MissingMoov | MissingFragments

record box_flags =
  hasMoov :: bool
  hasMoof :: bool
  hasMdat :: bool

definition note_box :: "bytes \<Rightarrow> box_flags \<Rightarrow> box_flags" where
  "note_box t b =
     (if t = moov_type then b\<lparr>hasMoov := True\<rparr>
      else if t = moof_type then b\<lparr>hasMoof := True\<rparr>
      else if t = mdat_type then b\<lparr>hasMdat := True\<rparr>
      else b)"

text \<open>The scanning loop, from the current offset on; the open file is at that offset.\<close>

function validate_boxes :: "nat \<Rightarrow> file_rd \<Rightarrow> nat \<Rightarrow> box_flags \<Rightarrow> fmp4_error + box_flags" where
  "validate_boxes fileSize f currentOffset b =
     (if currentOffset < fileSize then
        if fileSize < currentOffset + 8 then Inl (TruncatedHeader currentOffset)
        else
          (case io_ReadFull 8 f of
             (Inl e, _) \<Rightarrow> Inl (HeaderRead currentOffset)
           | (Inr header, f') \<Rightarrow>
               let size = be_uint32 (take 4 header); boxType = take 4 (drop 4 header) in
               if size < 8 then Inl (InvalidSize size currentOffset)
               else if fileSize < currentOffset + size then Inl (ExceedsFile currentOffset size)
               else validate_boxes fileSize (f'\<lparr>fr_pos := fr_pos f' + (size - 8)\<rparr>)
                      (currentOffset + size) (note_box boxType b))
      else Inr b)"
  by pat_completeness auto
termination
  by (relation "measure (\<lambda>(n, f, off, b). n - off)") auto

declare validate_boxes.simps [simp del]

definition ValidateFMP4File :: "(string \<rightharpoonup> bytes) \<Rightarrow> string \<Rightarrow> fmp4_error + unit" where
  "ValidateFMP4File store path =
     (case store path of
        None \<Rightarrow> Inl OpenFailed
      | Some content \<Rightarrow>
          let fileSize = length content in
          if fileSize < 32 then Inl (TooSmall fileSize)
          else and_then (validate_boxes fileSize \<lparr>fr_data = content, fr_pos = 0\<rparr> 0
                   \<lparr>hasMoov = False, hasMoof = False, hasMdat = False\<rparr>) (\<lambda>b.
            if \<not> hasMoov b then Inl MissingMoov
            else if \<not> hasMoof b \<or> \<not> hasMdat b then Inl MissingFragments
            else Inr ()))"

subsection \<open>Box sequences, abstractly\<close>

text \<open>A box is its type and payload; \<open>box_bytes\<close> is its encoding with a 32-bit size field.\<close>

type_synonym box = "bytes \<times> bytes"

definition box_ok :: "box \<Rightarrow> bool" where
  "box_ok = (\<lambda>(t, p). length t = 4 \<and> length p + 8 < 2 ^ 32)"

definition box_bytes :: "box \<Rightarrow> bytes" where
  "box_bytes = (\<lambda>(t, p). put_be_uint32 (length p + 8) @ t @ p)"

definition boxes_bytes :: "box list \<Rightarrow> bytes" where
  "boxes_bytes bs = concat (map box_bytes bs)"

definition has_type :: "bytes \<Rightarrow> box list \<Rightarrow> bool" where
  "has_type t bs \<longleftrightarrow> t \<in> fst ` set bs"

subsection \<open>Size fields\<close>

lemma length_put_be_uint32 [simp]: "length (put_be_uint32 n) = 4"
  by (simp add: put_be_uint32_def)

lemma four_digits:
  fixes n :: nat
  assumes "n < 2 ^ 32"
  shows "n div 2 ^ 24 mod 256 * 2 ^ 24 + n div 2 ^ 16 mod 256 * 2 ^ 16 + n div 2 ^ 8 mod 256 * 2 ^ 8 + n mod 256 = n"
proof -
  define a b c where "a = n div 256" "b = a div 256" "c = b div 256"
  have "n div 2 ^ 8 = a" "n div 2 ^ 16 = b" "n div 2 ^ 24 = c"
    by (simp_all add: a_b_c_def div_mult2_eq [symmetric])
  moreover have "n = 256 * a + n mod 256" "a = 256 * b + a mod 256" "b = 256 * c + b mod 256"
    by (simp_all add: a_b_c_def)
  moreover have "c mod 256 = c" using assms by (simp add: a_b_c_def div_mult2_eq [symmetric] div_less_iff_less_mult)
  ultimately show ?thesis by simp
qed

lemma be_put_uint32 [simp]: "n < 2 ^ 32 \<Longrightarrow> be_uint32 (put_be_uint32 n) = n"
  using four_digits [of n] by (simp add: be_uint32_def put_be_uint32_def unat_of_nat)

lemma four_digits_div:
  fixes a b c d :: nat
  assumes "a < 256" "b < 256" "c < 256" "d < 256"
  defines "n \<equiv> a * 2 ^ 24 + b * 2 ^ 16 + c * 2 ^ 8 + d"
  shows "n div 2 ^ 24 mod 256 = a" "n div 2 ^ 16 mod 256 = b" "n div 2 ^ 8 mod 256 = c" "n mod 256 = d"
    "n < 2 ^ 32"
proof -
  have e: "n = (a * 2 ^ 16 + b * 2 ^ 8 + c) * 256 + d" "n = (a * 2 ^ 8 + b) * 2 ^ 16 + (c * 2 ^ 8 + d)"
    "n = a * 2 ^ 24 + (b * 2 ^ 16 + c * 2 ^ 8 + d)" by (simp_all add: n_def)
  have "(c * 2 ^ 8 + d) < 2 ^ 16" "b * 2 ^ 16 + c * 2 ^ 8 + d < 2 ^ 24" using assms(2-4) by simp_all
  then have q: "n div 2 ^ 24 = a" "n div 2 ^ 16 = a * 2 ^ 8 + b" "n div 2 ^ 8 = a * 2 ^ 16 + b * 2 ^ 8 + c"
    using e assms(4) by (simp_all add: div_nat_eqI)
  have m: "(x * 256 + y) mod 256 = y" if "y < 256" for x y :: nat using that by simp
  show "n div 2 ^ 24 mod 256 = a" unfolding q(1) using assms(1) by simp
  show "n div 2 ^ 16 mod 256 = b" unfolding q(2) using m [OF assms(2), of a] by simp
  show "n div 2 ^ 8 mod 256 = c" unfolding q(3) using m [OF assms(3), of "a * 2 ^ 8 + b"] by (simp add: algebra_simps)
  show "n mod 256 = d" unfolding e(1) by (rule m [OF assms(4)])
  show "n < 2 ^ 32" using assms by (simp add: n_def)
qed

lemma put_be_be_uint32: "length bs = 4 \<Longrightarrow> put_be_uint32 (be_uint32 bs) = bs"
proof -
  assume "length bs = 4"
  then obtain a b c d where bs: "bs = [a, b, c, d]"
    by (auto simp: length_Suc_conv numeral_eq_Suc)
  from four_digits_div [OF byte_less [of a] byte_less [of b] byte_less [of c] byte_less [of d]]
  show ?thesis
    by (simp add: bs put_be_uint32_def be_uint32_def word_unat_eq_iff unat_of_nat del: of_nat_add of_nat_mult)
qed

lemma be_uint32_less: "length bs = 4 \<Longrightarrow> be_uint32 bs < 2 ^ 32"
proof -
  assume "length bs = 4"
  then obtain a b c d where bs: "bs = [a, b, c, d]"
    by (auto simp: length_Suc_conv numeral_eq_Suc)
  from four_digits_div(5) [OF byte_less [of a] byte_less [of b] byte_less [of c] byte_less [of d]]
  show ?thesis by (simp add: bs be_uint32_def)
qed

subsection \<open>Reading a box at the current position\<close>

lemma length_box_bytes: "length (fst x) = 4 \<Longrightarrow> length (box_bytes x) = length (snd x) + 8"
  by (cases x) (simp add: box_bytes_def)

lemma boxes_bytes_simps [simp]:
  "boxes_bytes [] = []" "boxes_bytes (x # xs) = box_bytes x @ boxes_bytes xs"
  "boxes_bytes (xs @ ys) = boxes_bytes xs @ boxes_bytes ys"
  by (simp_all add: boxes_bytes_def)

text \<open>A file positioned after \<open>pre\<close>, with \<open>rest\<close> ahead.\<close>

lemma io_ReadFull_ahead:
  assumes "fr_data f = pre @ rest" "fr_pos f = length pre"
  shows "n \<le> length rest \<Longrightarrow> io_ReadFull n f = (Inr (take n rest), f\<lparr>fr_pos := length pre + n\<rparr>)"
    and "\<not> n \<le> length rest \<Longrightarrow> \<exists>e. io_ReadFull n f = (Inl e, f\<lparr>fr_pos := length (fr_data f)\<rparr>)"
  using assms by (auto simp: io_ReadFull_def)

lemma readBoxHeader_box:
  assumes "fr_data f = pre @ box_bytes (t, p) @ post" "fr_pos f = length pre" "box_ok (t, p)"
  shows "readBoxHeader f = (Inr (t, length p + 8), f\<lparr>fr_pos := length pre + 8\<rparr>)"
proof -
  have "take 8 (box_bytes (t, p) @ post) = put_be_uint32 (length p + 8) @ t"
    using assms(3) by (simp add: box_bytes_def box_ok_def)
  moreover have "8 \<le> length (box_bytes (t, p) @ post)"
    using assms(3) by (simp add: length_box_bytes box_ok_def)
  ultimately have "io_ReadFull 8 f = (Inr (put_be_uint32 (length p + 8) @ t), f\<lparr>fr_pos := length pre + 8\<rparr>)"
    using io_ReadFull_ahead(1) [OF assms(1,2), of 8] by simp
  with assms(3) show ?thesis by (simp add: readBoxHeader_def box_ok_def)
qed

lemma readBoxHeader_end:
  assumes "fr_pos f = length (fr_data f)"
  shows "fst (readBoxHeader f) = Inl io_EOF"
  using assms by (simp add: readBoxHeader_def io_ReadFull_def)

lemma readBoxHeader_pos:
  assumes "readBoxHeader f = (Inr h, f')"
  shows "fr_data f' = fr_data f \<and> fr_pos f' = fr_pos f + 8 \<and> fr_pos f' \<le> length (fr_data f)"
  using assms by (auto simp: readBoxHeader_def io_ReadFull_def Let_def split: if_splits)

lemma readBoxHeader_pos_any:
  assumes "readBoxHeader f = (r, f')"
  shows "fr_data f' = fr_data f \<and> fr_pos f \<le> fr_pos f'"
  using assms by (auto simp: readBoxHeader_def io_ReadFull_def Let_def split: if_splits)

lemma io_ReadFull_pos:
  assumes "io_ReadFull n f = (Inr bs, f')"
  shows "fr_data f' = fr_data f \<and> fr_pos f' = fr_pos f + n"
  using assms by (auto simp: io_ReadFull_def Let_def split: if_splits)

lemma reader_eq_sym:
  "(a, b) = readBoxHeader f \<longleftrightarrow> readBoxHeader f = (a, b)" "(c, b) = io_ReadFull n f \<longleftrightarrow> io_ReadFull n f = (c, b)"
  by auto

text \<open>Eight bytes with a plausible size start exactly one complete box.\<close>

lemma header_is_box:
  assumes "8 \<le> length rest" "8 \<le> be_uint32 (take 4 rest)" "be_uint32 (take 4 rest) \<le> length rest"
  defines "x \<equiv> (take 4 (drop 4 rest), take (be_uint32 (take 4 rest) - 8) (drop 8 rest))"
  shows "rest = box_bytes x @ drop (be_uint32 (take 4 rest)) rest" "box_ok x"
proof -
  let ?n = "be_uint32 (take 4 rest)"
  have n: "length (snd x) + 8 = ?n" using assms by simp
  have "?n < 2 ^ 32" using assms(1) by (intro be_uint32_less) simp
  then show "box_ok x" using assms(1) n by (simp add: box_ok_def x_def)
  have "box_bytes x = take 4 rest @ fst x @ snd x"
    using n assms(1) by (simp add: box_bytes_def put_be_be_uint32 case_prod_beta)
  also have "\<dots> = take 4 rest @ take (?n - 4) (drop 4 rest)"
    using assms(2) take_add [of 4 "?n - 8" "drop 4 rest"] by (simp add: x_def)
  also have "\<dots> = take ?n rest"
    using assms(2) take_add [of 4 "?n - 4" rest] by simp
  finally show "rest = box_bytes x @ drop ?n rest" by simp
qed

lemma box_bytes_take:
  assumes "box_ok x"
  shows "be_uint32 (take 4 (box_bytes x @ post)) = length (snd x) + 8"
    and "take 4 (drop 4 (box_bytes x @ post)) = fst x"
    and "drop (length (snd x) + 8) (box_bytes x @ post) = post"
  using assms by (auto simp: box_ok_def box_bytes_def split: prod.splits)

subsection \<open>What the validator accepts\<close>

lemma box_bytes_nonempty: "box_ok x \<Longrightarrow> 8 \<le> length (box_bytes x)"
  by (auto simp: length_box_bytes box_ok_def split: prod.splits)

text \<open>The encoding is prefix-free: the first box of an encoding is determined.\<close>

lemma box_bytes_append_eq:
  assumes "box_ok x" "box_ok y" "box_bytes x @ post = box_bytes y @ post'"
  shows "x = y \<and> post = post'"
proof -
  have f: "fst y = fst x" "length (snd y) = length (snd x)"
    using box_bytes_take [OF assms(1), of post] box_bytes_take [OF assms(2), of post'] assms(3) by simp_all
  then have "length (box_bytes y) = length (box_bytes x)"
    using assms(1) by (cases x) (simp add: length_box_bytes box_ok_def)
  then have "box_bytes y = box_bytes x" "post = post'" using assms(3) by simp_all
  with f show ?thesis by (cases x; cases y) (simp add: box_bytes_def)
qed

lemma boxes_bytes_first:
  assumes "\<forall>y\<in>set bs. box_ok y" "box_ok x"
  shows "box_bytes x @ post = boxes_bytes bs \<longleftrightarrow> (\<exists>cs. bs = x # cs \<and> post = boxes_bytes cs)"
proof (cases bs)
  case Nil
  then show ?thesis using box_bytes_nonempty [OF assms(2)] by auto
next
  case (Cons y cs)
  then show ?thesis using box_bytes_append_eq [of x y post "boxes_bytes cs"] assms by auto
qed

lemma boxes_bytes_first_ex:
  assumes "box_ok x"
  shows "(\<exists>bs. box_bytes x @ post = boxes_bytes bs \<and> (\<forall>y\<in>set bs. box_ok y) \<and> P bs) \<longleftrightarrow>
    (\<exists>cs. post = boxes_bytes cs \<and> (\<forall>y\<in>set cs. box_ok y) \<and> P (x # cs))" (is "?l \<longleftrightarrow> ?r")
proof
  assume ?l
  then obtain bs where bs: "box_bytes x @ post = boxes_bytes bs" "\<forall>y\<in>set bs. box_ok y" "P bs" by blast
  with boxes_bytes_first [OF bs(2) assms, of post] show ?r by auto
next
  assume ?r
  then obtain cs where "post = boxes_bytes cs" "\<forall>y\<in>set cs. box_ok y" "P (x # cs)" by blast
  with assms show ?l by (intro exI [of _ "x # cs"]) simp
qed

lemma boxes_bytes_bad_header:
  assumes "\<forall>y\<in>set bs. box_ok y"
    and "\<not> (8 \<le> length rest \<and> 8 \<le> be_uint32 (take 4 rest) \<and> be_uint32 (take 4 rest) \<le> length rest)"
  shows "rest = boxes_bytes bs \<longleftrightarrow> rest = [] \<and> bs = []"
proof (cases bs)
  case (Cons y cs)
  then have y: "box_ok y" using assms(1) by simp
  have "be_uint32 (take 4 (box_bytes y @ boxes_bytes cs)) = length (box_bytes y)"
    using y box_bytes_take(1) [OF y] by (auto simp: length_box_bytes box_ok_def)
  then show ?thesis using assms(2) Cons box_bytes_nonempty [OF y] by auto
qed auto

lemma validate_boxes_iff:
  assumes "fr_data f = pre @ rest" "fr_pos f = length pre" "n = length (fr_data f)"
  shows "validate_boxes n f (length pre) b = Inr b' \<longleftrightarrow>
    (\<exists>bs. rest = boxes_bytes bs \<and> (\<forall>x\<in>set bs. box_ok x) \<and> b' = fold note_box (map fst bs) b)"
  using assms
proof (induction "length rest" arbitrary: f pre rest b rule: less_induct)
  case less
  show ?case
  proof (cases "8 \<le> length rest \<and> 8 \<le> be_uint32 (take 4 rest) \<and> be_uint32 (take 4 rest) \<le> length rest")
    case True
    define k x post where "k = be_uint32 (take 4 rest)"
      and "x = (take 4 (drop 4 rest), take (k - 8) (drop 8 rest))" and "post = drop k rest"
    have x: "rest = box_bytes x @ post" "box_ok x"
      using header_is_box [of rest] True by (simp_all add: k_def x_def post_def)
    have k: "length (box_bytes x) = k" "8 \<le> k" "k \<le> length rest"
      using True x(2) by (auto simp: length_box_bytes box_ok_def k_def x_def)
    have "rest \<noteq> []" using True by auto
    then have st: "validate_boxes n f (length pre) b =
        validate_boxes n (f\<lparr>fr_pos := length pre + k\<rparr>) (length (pre @ box_bytes x)) (note_box (fst x) b)"
      using less.prems True io_ReadFull_ahead(1) [OF less.prems(1,2), of 8] k
      by (subst validate_boxes.simps) (simp add: k_def x_def drop_take Let_def)
    have ih: "validate_boxes n (f\<lparr>fr_pos := length pre + k\<rparr>) (length (pre @ box_bytes x)) (note_box (fst x) b) = Inr b' \<longleftrightarrow>
        (\<exists>bs. post = boxes_bytes bs \<and> (\<forall>y\<in>set bs. box_ok y) \<and> b' = fold note_box (map fst bs) (note_box (fst x) b))"
      using less.prems x k by (intro less.hyps) auto
    show ?thesis unfolding st ih by (subst x(1), subst boxes_bytes_first_ex [OF x(2)]) simp
  next
    case False
    have "validate_boxes n f (length pre) b = Inr b' \<longleftrightarrow> rest = [] \<and> b' = b"
      using less.prems False io_ReadFull_ahead(1) [OF less.prems(1,2), of 8]
      by (subst validate_boxes.simps) (auto simp: Let_def)
    moreover have "(\<exists>bs. rest = boxes_bytes bs \<and> (\<forall>x\<in>set bs. box_ok x) \<and> b' = fold note_box (map fst bs) b) \<longleftrightarrow>
        rest = [] \<and> b' = b"
    proof (intro iffI; elim exE conjE)
      fix bs assume "rest = boxes_bytes bs" "\<forall>x\<in>set bs. box_ok x" "b' = fold note_box (map fst bs) b"
      then show "rest = [] \<and> b' = b" using boxes_bytes_bad_header [OF _ False, of bs] by simp
    qed (auto intro: exI [of _ "[]"])
    ultimately show ?thesis by simp
  qed
qed

lemma fold_note_box:
  "fold note_box ts b = \<lparr>hasMoov = (hasMoov b \<or> moov_type \<in> set ts),
     hasMoof = (hasMoof b \<or> moof_type \<in> set ts), hasMdat = (hasMdat b \<or> mdat_type \<in> set ts)\<rparr>"
  by (induction ts arbitrary: b) (auto simp: note_box_def)

lemma ex_one_point: "(\<exists>y. (\<exists>x. A x \<and> B x \<and> y = t x) \<and> Q y) \<longleftrightarrow> (\<exists>x. A x \<and> B x \<and> Q (t x))"
  by blast

lemma ValidateFMP4File_accepts:
  "ValidateFMP4File store path = Inr () \<longleftrightarrow>
     (\<exists>bs. store path = Some (boxes_bytes bs) \<and> (\<forall>x\<in>set bs. box_ok x) \<and>
        32 \<le> length (boxes_bytes bs) \<and>
        has_type moov_type bs \<and> has_type moof_type bs \<and> has_type mdat_type bs)"
proof (cases "store path")
  case None
  then show ?thesis by (simp add: ValidateFMP4File_def)
next
  case (Some content)
  let ?b = "\<lparr>hasMoov = False, hasMoof = False, hasMdat = False\<rparr>"
  let ?v = "validate_boxes (length content) \<lparr>fr_data = content, fr_pos = 0\<rparr> 0 ?b"
  have v: "?v = Inr b' \<longleftrightarrow>
      (\<exists>bs. content = boxes_bytes bs \<and> (\<forall>x\<in>set bs. box_ok x) \<and> b' = fold note_box (map fst bs) ?b)" for b'
    using validate_boxes_iff [of "\<lparr>fr_data = content, fr_pos = 0\<rparr>" "[]" content "length content" ?b b'] by simp
  have "ValidateFMP4File store path = Inr () \<longleftrightarrow> 32 \<le> length content \<and>
      (\<exists>b'. ?v = Inr b' \<and> hasMoov b' \<and> hasMoof b' \<and> hasMdat b')"
    using Some by (auto simp: ValidateFMP4File_def Let_def and_then_eq_Inr)
  also have "\<dots> \<longleftrightarrow> 32 \<le> length content \<and> (\<exists>bs. content = boxes_bytes bs \<and> (\<forall>x\<in>set bs. box_ok x) \<and>
      has_type moov_type bs \<and> has_type moof_type bs \<and> has_type mdat_type bs)"
    unfolding v ex_one_point by (simp add: fold_note_box has_type_def)
  finally show ?thesis using Some by auto
qed

lemma ValidateFMP4File_ok:
  assumes "\<forall>x\<in>set bs. box_ok x" "store path = Some (boxes_bytes bs)" "32 \<le> length (boxes_bytes bs)"
    and "has_type moov_type bs" "has_type moof_type bs" "has_type mdat_type bs"
  shows "ValidateFMP4File store path = Inr ()"
  using assms by (subst ValidateFMP4File_accepts) blast

subsection \<open>Properties\<close>

text \<open>
  C11: Crash recovery archives exactly the intact recordings. \<open>ValidateFMP4File\<close> returns without
  error iff the file exists, has at least 32 bytes, and is, byte for byte, the encoding of a
  sequence of complete boxes (no truncated box, no trailing garbage) that contains a \<open>moov\<close>, a
  \<open>moof\<close> and an \<open>mdat\<close> box.
\<close>

theorem ValidateFMP4File_iff:
  "ValidateFMP4File store path = Inr () \<longleftrightarrow>
     (\<exists>bs. store path = Some (boxes_bytes bs) \<and> (\<forall>x\<in>set bs. box_ok x) \<and>
        32 \<le> length (boxes_bytes bs) \<and>
        has_type moov_type bs \<and> has_type moof_type bs \<and> has_type mdat_type bs)"
  by (rule ValidateFMP4File_accepts)

theorem ValidateFMP4File_iff_witness:
  "ValidateFMP4File [''a'' \<mapsto> boxes_bytes [(moov_type, [1, 2]), (moof_type, [3]), (mdat_type, [4, 5, 6, 7, 8])]] ''a'' =
     Inr ()"
  by (subst ValidateFMP4File_iff, intro exI [of _ "[(moov_type, [1, 2]), (moof_type, [3]), (mdat_type, [4, 5, 6, 7, 8])]"])
    (simp add: box_ok_def length_box_bytes has_type_def)

end
