(* ===== verification/LruCache.thy ===== *)
theory LruCache
  imports Prelude
begin

text \<open>
  \<open>IndexLRUCache\<close> of \<open>internal/archive/hls.go\<close>: a map from keys to elements of a doubly linked
  list (\<open>container/list\<close>), most recently used first. List elements are addresses into a store
  of entries, because the map and the list share them. The eviction loop is a recursive
  function that yields \<open>None\<close> where the Go loop would spin for ever.

  Shown: the pointer structure refines a plain list of key/value pairs under the textbook
  LRU operations, the capacity is never exceeded, and the eviction loop terminates. The
  locale \<open>memo_cache\<close> is the contract of a cache used for memoisation, interpreted here on
  this cache and used by the archive.
\<close>

record 'v lru =
  lru_capacity :: nat
  items :: "string \<rightharpoonup> nat"
  evictList :: "nat list"
  lru_entries :: "nat \<rightharpoonup> string \<times> 'v"
  lru_fresh :: nat

abbreviation defaultCacheCapacity :: nat where "defaultCacheCapacity \<equiv> 2000"

definition NewIndexLRUCache :: "int \<Rightarrow> 'v lru" where
  "NewIndexLRUCache capacity =
     \<lparr>lru_capacity = (if capacity \<le> 0 then defaultCacheCapacity else nat capacity),
      items = Map.empty, evictList = [], lru_entries = Map.empty, lru_fresh = 0\<rparr>"

definition MoveToFront :: "nat \<Rightarrow> 'v lru \<Rightarrow> 'v lru" where
  "MoveToFront e c = c\<lparr>evictList := e # remove1 e (evictList c)\<rparr>"

definition lru_Get :: "string \<Rightarrow> 'v lru \<Rightarrow> 'v option \<times> 'v lru" where
  "lru_Get key c =
     (case items c key of
        Some elem \<Rightarrow> (map_option snd (lru_entries c elem), MoveToFront elem c)
      | None \<Rightarrow> (None, c))"

function lru_evict :: "'v lru \<Rightarrow> 'v lru option" where
  "lru_evict c =
     (if lru_capacity c \<le> length (evictList c) then
        (if evictList c = [] then None
         else
           let oldest = last (evictList c);
               its = (case lru_entries c oldest of
                        Some (k, v) \<Rightarrow> (items c)(k := None) | None \<Rightarrow> items c)
           in lru_evict (c\<lparr>items := its, evictList := remove1 oldest (evictList c)\<rparr>))
      else Some c)"
  by pat_completeness auto
termination
  by (relation "measure (\<lambda>c. length (evictList c))") (auto simp: length_remove1 length_greater_0_conv simp del: length_0_conv)

declare lru_evict.simps [simp del]

definition lru_Add :: "string \<Rightarrow> 'v \<Rightarrow> 'v lru \<Rightarrow> 'v lru option" where
  "lru_Add key v c =
     (case items c key of
        Some elem \<Rightarrow>
          let c1 = MoveToFront elem c
          in Some (c1\<lparr>lru_entries := (lru_entries c1)(elem := map_option (\<lambda>(k, _). (k, v)) (lru_entries c1 elem))\<rparr>)
      | None \<Rightarrow>
          map_option (\<lambda>c1. c1\<lparr>lru_entries := (lru_entries c1)(lru_fresh c1 \<mapsto> (key, v)),
              lru_fresh := lru_fresh c1 + 1, evictList := lru_fresh c1 # evictList c1,
              items := (items c1)(key \<mapsto> lru_fresh c1)\<rparr>) (lru_evict c))"

definition lru_Remove :: "string \<Rightarrow> 'v lru \<Rightarrow> 'v lru" where
  "lru_Remove key c =
     (case items c key of
        Some elem \<Rightarrow> c\<lparr>items := (items c)(key := None), evictList := remove1 elem (evictList c)\<rparr>
      | None \<Rightarrow> c)"

definition lru_Clear :: "'v lru \<Rightarrow> 'v lru" where
  "lru_Clear c = c\<lparr>items := Map.empty, evictList := []\<rparr>"

definition lru_Len :: "'v lru \<Rightarrow> nat" where
  "lru_Len c = length (evictList c)"

subsection \<open>Invariant and abstraction\<close>

definition lru_ok :: "'v lru \<Rightarrow> bool" where
  "lru_ok c \<longleftrightarrow> 0 < lru_capacity c \<and> length (evictList c) \<le> lru_capacity c \<and> distinct (evictList c) \<and>
     (\<forall>e\<in>set (evictList c). e < lru_fresh c \<and> (\<exists>k v. lru_entries c e = Some (k, v) \<and> items c k = Some e)) \<and>
     (\<forall>k e. items c k = Some e \<longrightarrow> e \<in> set (evictList c) \<and> (\<exists>v. lru_entries c e = Some (k, v)))"

definition lru_abs :: "'v lru \<Rightarrow> (string \<times> 'v) list" where
  "lru_abs c = map (\<lambda>e. the (lru_entries c e)) (evictList c)"

text \<open>Least-recently-used caching of pairs, newest first.\<close>

definition drop_key :: "'k \<Rightarrow> ('k \<times> 'v) list \<Rightarrow> ('k \<times> 'v) list" where
  "drop_key k = filter (\<lambda>(k', _). k' \<noteq> k)"

definition spec_touch :: "'k \<Rightarrow> ('k \<times> 'v) list \<Rightarrow> ('k \<times> 'v) list" where
  "spec_touch k xs = (case map_of xs k of None \<Rightarrow> xs | Some v \<Rightarrow> (k, v) # drop_key k xs)"

definition spec_add :: "nat \<Rightarrow> 'k \<Rightarrow> 'v \<Rightarrow> ('k \<times> 'v) list \<Rightarrow> ('k \<times> 'v) list" where
  "spec_add n k v xs = (case map_of xs k of None \<Rightarrow> (k, v) # take (n - 1) xs | Some _ \<Rightarrow> (k, v) # drop_key k xs)"

subsection \<open>The contract of a memoising cache\<close>

locale memo_cache =
  fixes get :: "'k \<Rightarrow> 'c \<Rightarrow> 'v option \<times> 'c"
    and add :: "'k \<Rightarrow> 'v \<Rightarrow> 'c \<Rightarrow> 'c option"
    and remove :: "'k \<Rightarrow> 'c \<Rightarrow> 'c"
    and look :: "'c \<Rightarrow> 'k \<rightharpoonup> 'v"
    and ok :: "'c \<Rightarrow> bool"
  assumes get_law: "ok c \<Longrightarrow> get k c = (r, c') \<Longrightarrow> r = look c k \<and> look c' = look c \<and> ok c'"
    and add_law: "ok c \<Longrightarrow> \<exists>c'. add k v c = Some c' \<and> ok c' \<and> look c' k = Some v \<and>
      (\<forall>k'. k' \<noteq> k \<longrightarrow> look c' k' = look c k' \<or> look c' k' = None)"
    and remove_law: "ok c \<Longrightarrow> ok (remove k c) \<and> look (remove k c) = (look c)(k := None)"
begin

text \<open>Every cached value is what the cached computation yields now.\<close>

definition coherent :: "('k \<Rightarrow> 'e + 'v) \<Rightarrow> 'c \<Rightarrow> bool" where
  "coherent f c \<longleftrightarrow> (\<forall>k v. look c k = Some v \<longrightarrow> f k = Inr v)"

lemma coherent_get: "ok c \<Longrightarrow> coherent f c \<Longrightarrow> get k c = (r, c') \<Longrightarrow> coherent f c'"
  using get_law by (metis coherent_def)

lemma coherent_hit: "ok c \<Longrightarrow> coherent f c \<Longrightarrow> get k c = (Some v, c') \<Longrightarrow> f k = Inr v"
  using get_law by (metis coherent_def)

lemma coherent_add:
  assumes "ok c" "coherent f c" "f k = Inr v"
  shows "\<exists>c'. add k v c = Some c' \<and> ok c' \<and> coherent f c'"
proof -
  obtain c' where "add k v c = Some c'" "ok c'" "look c' k = Some v"
    "\<forall>k'. k' \<noteq> k \<longrightarrow> look c' k' = look c k' \<or> look c' k' = None"
    using add_law [OF assms(1)] by blast
  moreover from this have "coherent f c'"
    unfolding coherent_def by (metis assms(2,3) coherent_def option.distinct(1) option.inject)
  ultimately show ?thesis by blast
qed

text \<open>After an underlying change at one key, dropping that key restores coherence.\<close>

lemma coherent_remove:
  assumes "ok c" "coherent f c" "\<And>k'. k' \<noteq> k \<Longrightarrow> g k' = f k'"
  shows "coherent g (remove k c)"
  using remove_law [OF assms(1), of k] assms(2,3) by (auto simp: coherent_def)

end

subsection \<open>The pointer structure\<close>

lemma lru_okD:
  assumes "lru_ok c"
  shows "e \<in> set (evictList c) \<Longrightarrow> \<exists>k v. lru_entries c e = Some (k, v) \<and> items c k = Some e"
    and "items c k = Some e \<Longrightarrow> e \<in> set (evictList c)"
    and "items c k = Some e \<Longrightarrow> \<exists>v. lru_entries c e = Some (k, v)"
    and "e \<in> set (evictList c) \<Longrightarrow> e < lru_fresh c"
    and "distinct (evictList c)" and "0 < lru_capacity c" and "length (evictList c) \<le> lru_capacity c"
  using assms by (auto simp: lru_ok_def)

lemma lru_ok_fresh: "lru_ok c \<Longrightarrow> lru_fresh c \<notin> set (evictList c)"
  by (auto dest: lru_okD(4))

text \<open>Among listed elements, having key \<open>k\<close> and being the element mapped from \<open>k\<close> coincide.\<close>

lemma key_of_elem:
  assumes "lru_ok c" "items c k = Some e" "e' \<in> set (evictList c)"
  shows "fst (the (lru_entries c e')) = k \<longleftrightarrow> e' = e"
  using lru_okD(1) [OF assms(1,3)] lru_okD(3) [OF assms(1,2)] assms(2) by auto

lemma map_of_lru_abs:
  assumes "lru_ok c"
  shows "map_of (lru_abs c) k = (case items c k of Some e \<Rightarrow> map_option snd (lru_entries c e) | None \<Rightarrow> None)"
proof (cases "items c k")
  case None
  have "k \<notin> fst ` set (lru_abs c)"
    using None by (auto simp: lru_abs_def dest: lru_okD(1) [OF assms])
  then show ?thesis using None by (simp add: map_of_eq_None_iff)
next
  case (Some e)
  then obtain v where v: "lru_entries c e = Some (k, v)" using lru_okD(3) [OF assms] by blast
  have "inj_on (\<lambda>e. fst (the (lru_entries c e))) (set (evictList c))"
  proof (rule inj_onI)
    fix e1 e2 assume "e1 \<in> set (evictList c)" "e2 \<in> set (evictList c)"
      "fst (the (lru_entries c e1)) = fst (the (lru_entries c e2))"
    then show "e1 = e2" using lru_okD(1) [OF assms, of e1] lru_okD(1) [OF assms, of e2] by auto
  qed
  then have "distinct (map fst (lru_abs c))"
    using lru_okD(5) [OF assms] by (simp add: distinct_map lru_abs_def comp_def)
  moreover have "(k, v) \<in> set (lru_abs c)"
    using v lru_okD(2) [OF assms Some] by (force simp: lru_abs_def)
  ultimately show ?thesis using Some v by simp
qed

lemma lru_abs_without:
  assumes "lru_ok c" "items c k = Some e"
  shows "map (\<lambda>e. the (lru_entries c e)) (remove1 e (evictList c)) = drop_key k (lru_abs c)"
proof -
  have "remove1 e (evictList c) = filter (\<lambda>e'. e' \<noteq> e) (evictList c)"
    using lru_okD(5) [OF assms(1)] by (auto simp: distinct_remove1_removeAll removeAll_filter_not_eq intro: filter_cong)
  also have "\<dots> = filter (\<lambda>e'. fst (the (lru_entries c e')) \<noteq> k) (evictList c)"
    using key_of_elem [OF assms] by (intro filter_cong) auto
  finally show ?thesis
    by (simp add: drop_key_def lru_abs_def filter_map comp_def case_prod_beta)
qed

lemma lru_ok_touch:
  assumes "lru_ok c" "items c k = Some e"
  shows "lru_ok (MoveToFront e c)"
  using assms lru_okD(2) [OF assms]
  by (auto simp: lru_ok_def MoveToFront_def length_remove1 dest: lru_okD(1,3))

lemma lru_abs_touch:
  assumes "lru_ok c" "items c k = Some e" "lru_entries c e = Some (k, v)"
  shows "lru_abs (MoveToFront e c) = (k, v) # drop_key k (lru_abs c)"
  using lru_abs_without [OF assms(1,2)] assms(3) by (simp add: lru_abs_def MoveToFront_def)

lemma lru_Get_ok:
  assumes "lru_ok c" "lru_Get k c = (r, c')"
  shows "lru_ok c' \<and> r = map_of (lru_abs c) k \<and> lru_abs c' = spec_touch k (lru_abs c)"
proof (cases "items c k")
  case None
  then show ?thesis using assms map_of_lru_abs [OF assms(1), of k] by (auto simp: lru_Get_def spec_touch_def)
next
  case (Some e)
  then obtain v where v: "lru_entries c e = Some (k, v)" using lru_okD(3) [OF assms(1)] by blast
  then have "map_of (lru_abs c) k = Some v" using Some map_of_lru_abs [OF assms(1), of k] by simp
  moreover have "r = Some v" "c' = MoveToFront e c" using assms(2) Some v by (auto simp: lru_Get_def)
  ultimately show ?thesis
    using Some v lru_ok_touch [OF assms(1) Some] lru_abs_touch [OF assms(1) Some]
    by (simp add: spec_touch_def)
qed

lemma remove1_last: "distinct xs \<Longrightarrow> xs \<noteq> [] \<Longrightarrow> remove1 (last xs) xs = butlast xs"
  by (induction xs rule: rev_induct) (auto simp: remove1_append)

lemma lru_ok_shrink:
  assumes "lru_ok c" "items c k = Some e"
  shows "lru_ok (c\<lparr>items := (items c)(k := None), evictList := remove1 e (evictList c)\<rparr>)"
proof -
  let ?l = "remove1 e (evictList c)"
  have l: "set ?l = set (evictList c) - {e}" "distinct ?l" "length ?l \<le> lru_capacity c"
    using lru_okD(5,7) [OF assms(1)] by (auto simp: set_remove1_eq length_remove1)
  have A: "\<forall>e'\<in>set ?l. e' < lru_fresh c \<and>
      (\<exists>k' v. lru_entries c e' = Some (k', v) \<and> ((items c)(k := None)) k' = Some e')"
  proof
    fix e' assume e': "e' \<in> set ?l"
    then obtain k' v where "lru_entries c e' = Some (k', v)" "items c k' = Some e'" "e' \<noteq> e"
      using lru_okD(1) [OF assms(1), of e'] l(1) by auto
    moreover from this have "k' \<noteq> k" using assms(2) by auto
    ultimately show "e' < lru_fresh c \<and>
        (\<exists>k' v. lru_entries c e' = Some (k', v) \<and> ((items c)(k := None)) k' = Some e')"
      using lru_okD(4) [OF assms(1), of e'] e' l(1) by auto
  qed
  have B: "e' \<in> set ?l \<and> (\<exists>v. lru_entries c e' = Some (k', v))"
    if k': "((items c)(k := None)) k' = Some e'" for k' e'
  proof -
    have i: "items c k' = Some e'" "k' \<noteq> k" using k' by (auto split: if_splits)
    obtain v w where "lru_entries c e' = Some (k', v)" "lru_entries c e = Some (k, w)"
      using lru_okD(3) [OF assms(1) i(1)] lru_okD(3) [OF assms] by blast
    moreover from this i(2) have "e' \<noteq> e" by auto
    ultimately show ?thesis using lru_okD(2) [OF assms(1) i(1)] l(1) by simp
  qed
  show ?thesis
    unfolding lru_ok_def using A B l lru_okD(6) [OF assms(1)] by (simp del: fun_upd_apply)
qed

lemma lru_evict_ok:
  assumes "lru_ok c" "items c k = None"
  shows "\<exists>c'. lru_evict c = Some c' \<and> lru_ok c' \<and> items c' k = None \<and> lru_capacity c' = lru_capacity c \<and>
    length (evictList c') < lru_capacity c \<and> lru_abs c' = take (lru_capacity c - 1) (lru_abs c)"
proof (cases "length (evictList c) < lru_capacity c")
  case True
  then show ?thesis using assms by (subst lru_evict.simps) (simp add: lru_abs_def)
next
  case False
  define e where "e = last (evictList c)"
  have len: "length (evictList c) = lru_capacity c" "evictList c \<noteq> []" "0 < lru_capacity c"
    using False lru_okD(6,7) [OF assms(1)] by auto
  have e: "e \<in> set (evictList c)" "remove1 e (evictList c) = butlast (evictList c)"
    using len(2) lru_okD(5) [OF assms(1)] remove1_last by (auto simp: e_def)
  obtain k' v where kv: "lru_entries c e = Some (k', v)" "items c k' = Some e"
    using lru_okD(1) [OF assms(1) e(1)] by blast
  let ?c = "c\<lparr>items := (items c)(k' := None), evictList := butlast (evictList c)\<rparr>"
  have "lru_evict c = lru_evict ?c"
    using len kv e by (subst lru_evict.simps) (simp add: e_def [symmetric] Let_def)
  also have "\<dots> = Some ?c" using len by (subst lru_evict.simps) simp
  finally have "lru_evict c = Some ?c" .
  moreover have "lru_ok ?c" using lru_ok_shrink [OF assms(1) kv(2)] e(2) by simp
  ultimately show ?thesis
    using len assms(2) by (auto simp: lru_abs_def butlast_conv_take take_map)
qed

lemma lru_ok_grow:
  assumes "lru_ok c" "items c k = None" "length (evictList c) < lru_capacity c"
  shows "lru_ok (c\<lparr>lru_entries := (lru_entries c)(lru_fresh c \<mapsto> (k, v)), lru_fresh := lru_fresh c + 1,
      evictList := lru_fresh c # evictList c, items := (items c)(k \<mapsto> lru_fresh c)\<rparr>)"
proof -
  let ?n = "lru_fresh c"
  have "\<exists>k' w. lru_entries c e = Some (k', w) \<and> k' \<noteq> k \<and> items c k' = Some e \<and> e < ?n"
    if "e \<in> set (evictList c)" for e
    using lru_okD(1,4) [OF assms(1) that] assms(2) by force
  then have A: "\<forall>e\<in>set (?n # evictList c). e < ?n + 1 \<and>
      (\<exists>k' w. ((lru_entries c)(?n \<mapsto> (k, v))) e = Some (k', w) \<and> ((items c)(k \<mapsto> ?n)) k' = Some e)"
    by fastforce
  have B: "e \<in> set (?n # evictList c) \<and> (\<exists>w. ((lru_entries c)(?n \<mapsto> (k, v))) e = Some (k', w))"
    if "((items c)(k \<mapsto> ?n)) k' = Some e" for k' e
  proof (cases "k' = k")
    case False
    then have "items c k' = Some e" using that by simp
    from lru_okD(2,3) [OF assms(1) this] lru_ok_fresh [OF assms(1)] show ?thesis by auto
  qed (use that in auto)
  show ?thesis
    unfolding lru_ok_def using A B assms(3) lru_ok_fresh [OF assms(1)] lru_okD(5,6) [OF assms(1)]
    by (simp del: fun_upd_apply)
qed

lemma lru_ok_update:
  assumes "lru_ok c" "items c k = Some e"
  shows "lru_ok (c\<lparr>lru_entries := (lru_entries c)(e \<mapsto> (k, v))\<rparr>)"
proof -
  have A: "\<forall>e'\<in>set (evictList c). e' < lru_fresh c \<and>
      (\<exists>k' w. ((lru_entries c)(e \<mapsto> (k, v))) e' = Some (k', w) \<and> items c k' = Some e')"
    using lru_okD(1,4) [OF assms(1)] assms(2) by auto
  have B: "e' \<in> set (evictList c) \<and> (\<exists>w. ((lru_entries c)(e \<mapsto> (k, v))) e' = Some (k', w))"
    if "items c k' = Some e'" for k' e'
    using lru_okD(2,3) [OF assms(1) that] lru_okD(3) [OF assms] by auto
  show ?thesis
    unfolding lru_ok_def using A B lru_okD(5-7) [OF assms(1)] by (simp del: fun_upd_apply)
qed

lemma lru_Add_ok:
  assumes "lru_ok c"
  shows "\<exists>c'. lru_Add k v c = Some c' \<and> lru_ok c' \<and> lru_abs c' = spec_add (lru_capacity c) k v (lru_abs c)"
proof (cases "items c k")
  case None
  then obtain c1 where c1: "lru_evict c = Some c1" "lru_ok c1" "items c1 k = None"
    "lru_capacity c1 = lru_capacity c" "length (evictList c1) < lru_capacity c"
    "lru_abs c1 = take (lru_capacity c - 1) (lru_abs c)"
    using lru_evict_ok [OF assms] by blast
  let ?c = "c1\<lparr>lru_entries := (lru_entries c1)(lru_fresh c1 \<mapsto> (k, v)), lru_fresh := lru_fresh c1 + 1,
      evictList := lru_fresh c1 # evictList c1, items := (items c1)(k \<mapsto> lru_fresh c1)\<rparr>"
  have f: "lru_fresh c1 \<notin> set (evictList c1)" by (rule lru_ok_fresh [OF c1(2)])
  then have "lru_abs ?c = (k, v) # lru_abs c1" by (auto simp: lru_abs_def)
  moreover have "lru_ok ?c"
    using lru_ok_grow [OF c1(2,3), of v] c1(4,5) by simp
  ultimately show ?thesis
    using None c1 map_of_lru_abs [OF assms, of k] by (simp add: lru_Add_def spec_add_def)
next
  case (Some e)
  then obtain w where w: "lru_entries c e = Some (k, w)" using lru_okD(3) [OF assms] by blast
  then have m: "map_of (lru_abs c) k = Some w" using Some map_of_lru_abs [OF assms, of k] by simp
  let ?c = "(MoveToFront e c)\<lparr>lru_entries := (lru_entries c)(e \<mapsto> (k, v))\<rparr>"
  have "lru_ok ?c"
    using lru_ok_update [OF lru_ok_touch [OF assms Some], of k e v] Some by (simp add: MoveToFront_def)
  moreover have "map (\<lambda>e'. the (((lru_entries c)(e \<mapsto> (k, v))) e')) (remove1 e (evictList c)) =
      map (\<lambda>e'. the (lru_entries c e')) (remove1 e (evictList c))"
    using lru_okD(5) [OF assms] by (intro map_cong) auto
  then have "lru_abs ?c = (k, v) # drop_key k (lru_abs c)"
    using lru_abs_without [OF assms Some] by (simp add: lru_abs_def MoveToFront_def fun_upd_same del: fun_upd_apply)
  ultimately show ?thesis
    using Some w m by (simp add: lru_Add_def spec_add_def Let_def MoveToFront_def)
qed

lemma lru_Remove_ok:
  assumes "lru_ok c"
  shows "lru_ok (lru_Remove k c) \<and> lru_abs (lru_Remove k c) = drop_key k (lru_abs c)"
proof (cases "items c k")
  case None
  then have "k \<notin> fst ` set (lru_abs c)"
    using map_of_lru_abs [OF assms, of k] by (simp add: map_of_eq_None_iff)
  then have "drop_key k (lru_abs c) = lru_abs c"
    unfolding drop_key_def by (intro filter_True) force
  then show ?thesis using None assms by (simp add: lru_Remove_def)
next
  case (Some e)
  then show ?thesis
    using lru_ok_shrink [OF assms Some] lru_abs_without [OF assms Some]
    by (simp add: lru_Remove_def lru_abs_def)
qed

text \<open>The cache satisfies the memoisation contract.\<close>

lemma map_of_drop_key: "map_of (drop_key k xs) = (map_of xs)(k := None)"
  by (induction xs) (auto simp: drop_key_def fun_eq_iff)

lemma map_of_spec_touch: "map_of (spec_touch k xs) = map_of xs"
  by (auto simp: spec_touch_def map_of_drop_key fun_eq_iff split: option.splits)

lemma map_of_take: "map_of (take n xs) k = map_of xs k \<or> map_of (take n xs) k = None"
proof (induction xs arbitrary: n)
  case (Cons x xs)
  then show ?case by (cases n) auto
qed simp

interpretation lru: memo_cache lru_Get lru_Add lru_Remove "\<lambda>c. map_of (lru_abs c)" lru_ok
proof (unfold_locales, goal_cases)
  case (1 c k r c')
  then show ?case using lru_Get_ok [OF 1] by (simp add: map_of_spec_touch)
next
  case (2 c k v)
  obtain c' where c': "lru_Add k v c = Some c'" "lru_ok c'"
    "lru_abs c' = spec_add (lru_capacity c) k v (lru_abs c)" using lru_Add_ok [OF 2] by blast
  moreover have "map_of (lru_abs c') k = Some v"
    by (simp add: c'(3) spec_add_def split: option.splits)
  moreover have "map_of (lru_abs c') k' = map_of (lru_abs c) k' \<or> map_of (lru_abs c') k' = None" if "k' \<noteq> k" for k'
    using that map_of_take [of "lru_capacity c - 1" "lru_abs c" k'] by (auto simp: c'(3) spec_add_def map_of_drop_key split: option.splits)
  ultimately show ?case by blast
next
  case (3 c k)
  then show ?case using lru_Remove_ok [OF 3, of k] by (simp add: map_of_drop_key)
qed

subsection \<open>Properties\<close>

text \<open>
  C13: The cache implements least-recently-used replacement. Seen as the list of its entries, most
  recent first, \<open>Get\<close> returns the entry of the key and moves it to the front, \<open>Add\<close>
  terminates and replaces or prepends the entry, giving up the oldest ones beyond the
  capacity, \<open>Remove\<close> deletes the entry, \<open>Clear\<close> deletes all; the structure stays well formed
  and never exceeds its capacity.
\<close>

theorem lru_refines_spec:
  assumes "lru_ok c"
  shows "(\<forall>r c'. lru_Get k c = (r, c') \<longrightarrow>
      r = map_of (lru_abs c) k \<and> lru_abs c' = spec_touch k (lru_abs c) \<and> lru_ok c') \<and>
    (\<exists>c'. lru_Add k v c = Some c' \<and> lru_abs c' = spec_add (lru_capacity c) k v (lru_abs c) \<and> lru_ok c') \<and>
    (lru_abs (lru_Remove k c) = drop_key k (lru_abs c) \<and> lru_ok (lru_Remove k c)) \<and>
    (lru_abs (lru_Clear c) = [] \<and> lru_ok (lru_Clear c)) \<and>
    lru_Len c = length (lru_abs c) \<and> lru_Len c \<le> lru_capacity c"
proof (intro conjI)
  show "\<forall>r c'. lru_Get k c = (r, c') \<longrightarrow>
      r = map_of (lru_abs c) k \<and> lru_abs c' = spec_touch k (lru_abs c) \<and> lru_ok c'"
    using lru_Get_ok [OF assms] by blast
  show "\<exists>c'. lru_Add k v c = Some c' \<and> lru_abs c' = spec_add (lru_capacity c) k v (lru_abs c) \<and> lru_ok c'"
    using lru_Add_ok [OF assms] by blast
  show "lru_abs (lru_Remove k c) = drop_key k (lru_abs c)" "lru_ok (lru_Remove k c)"
    using lru_Remove_ok [OF assms] by simp_all
  show "lru_abs (lru_Clear c) = []" "lru_ok (lru_Clear c)"
    using lru_okD(6) [OF assms] by (simp_all add: lru_Clear_def lru_abs_def lru_ok_def)
  show "lru_Len c = length (lru_abs c)" "lru_Len c \<le> lru_capacity c"
    using lru_okD(7) [OF assms] by (simp_all add: lru_Len_def lru_abs_def)
qed

theorem lru_refines_spec_witness:
  "\<exists>c c'. lru_Add ''a'' (1 :: nat) (NewIndexLRUCache 1) = Some c \<and> lru_Add ''b'' 2 c = Some c' \<and>
     lru_abs c' = [(''b'', 2)]"
proof -
  have ok: "lru_ok (NewIndexLRUCache 1 :: nat lru)" by (simp add: lru_ok_def NewIndexLRUCache_def)
  have abs: "lru_abs (NewIndexLRUCache 1 :: nat lru) = []" "lru_capacity (NewIndexLRUCache 1 :: nat lru) = 1"
    by (simp_all add: lru_abs_def NewIndexLRUCache_def)
  obtain c where c: "lru_Add ''a'' (1 :: nat) (NewIndexLRUCache 1) = Some c" "lru_ok c"
    "lru_abs c = [(''a'', 1)]"
    using lru_refines_spec [OF ok, of "''a''" 1] abs by (auto simp: spec_add_def)
  have "lru_capacity c = 1"
    using c(1) by (auto simp: lru_Add_def NewIndexLRUCache_def lru_evict.simps)
  with lru_refines_spec [OF c(2), of "''b''" 2] c show ?thesis by (auto simp: spec_add_def)
qed

end
