(* ===== verification/Go_Fmt.thy ===== *)
theory Go_Fmt
  imports Prelude
begin

text \<open>
  Decimal formatting as the program uses it: integers (\<open>%d\<close>, \<open>strconv.AppendInt\<close>), zero-padded
  integers (\<open>%02d\<close>, \<open>%03d\<close>) and \<open>float64\<close> values with three decimals (\<open>%.3f\<close>,
  \<open>AppendFloat(.., 'f', 3, 64)\<close>). A non-negative \<open>float64\<close> below \<open>2^53\<close> is a pair \<open>(m, k)\<close>
  standing for \<open>m / 2^k\<close>; \<open>round_ratio n d\<close> is the IEEE double nearest to \<open>n / d\<close>, ties to even.

  Shown: printing integers is injective and parses back, and rounding to a double never crosses
  an integer.
\<close>

definition digit :: "nat \<Rightarrow> char" where
  "digit n = char_of (48 + n)"

fun dec :: "nat \<Rightarrow> string" where
  "dec n = (if n < 10 then [digit n] else dec (n div 10) @ [digit (n mod 10)])"

declare dec.simps [simp del]

definition itoa :: "int \<Rightarrow> string" where
  "itoa x = (if x < 0 then CHR ''-'' # dec (nat (- x)) else dec (nat x))"

definition zero_pad :: "nat \<Rightarrow> string \<Rightarrow> string" where
  "zero_pad w s = replicate (w - length s) CHR ''0'' @ s"

text \<open>\<open>%0wd\<close>: the width includes a minus sign.\<close>

definition fmt_0d :: "nat \<Rightarrow> int \<Rightarrow> string" where
  "fmt_0d w x = (if x < 0 then CHR ''-'' # zero_pad (w - 1) (dec (nat (- x))) else zero_pad w (dec (nat x)))"

text \<open>Reading a decimal numeral back.\<close>

definition undigit :: "char \<Rightarrow> nat" where
  "undigit c = of_char c - 48"

definition undec :: "string \<Rightarrow> nat" where
  "undec s = foldl (\<lambda>a c. a * 10 + undigit c) 0 s"

text \<open>Division rounded to the nearest integer, ties to even.\<close>

definition rne_div :: "nat \<Rightarrow> nat \<Rightarrow> nat" where
  "rne_div a b =
     (let q = a div b; r = a mod b in
      if 2 * r < b then q else if b < 2 * r then q + 1 else if even q then q else q + 1)"

function float_scale :: "nat \<Rightarrow> nat \<Rightarrow> nat \<Rightarrow> nat" where
  "float_scale n d k =
     (if n = 0 then 0 else if 2 ^ 52 * d \<le> n * 2 ^ k then k else float_scale n d (k + 1))"
  by pat_completeness auto
termination
  by (relation "measure (\<lambda>(n, d, k). 2 ^ 52 * d - n * 2 ^ k)")
    (auto simp: algebra_simps intro!: diff_less_mono2)

declare float_scale.simps [simp del]

definition round_ratio :: "nat \<Rightarrow> nat \<Rightarrow> nat \<times> nat" where
  "round_ratio n d = (let k = float_scale n d 0 in (rne_div (n * 2 ^ k) d, k))"

text \<open>\<open>time.Duration.Seconds\<close> of a non-negative duration: the sum of the whole seconds and
  the rounded quotient of the nanoseconds, rounded once more.\<close>

definition Seconds :: "nat \<Rightarrow> nat \<times> nat" where
  "Seconds d =
     (case round_ratio (d mod 1000000000) 1000000000 of
        (m, k) \<Rightarrow> round_ratio (d div 1000000000 * 2 ^ k + m) (2 ^ k))"

text \<open>Conversion of a double to an integer truncates.\<close>

definition float_int :: "nat \<times> nat \<Rightarrow> nat" where
  "float_int = (\<lambda>(m, k). m div 2 ^ k)"

definition fmt_f3 :: "nat \<times> nat \<Rightarrow> string" where
  "fmt_f3 = (\<lambda>(m, k). let t = rne_div (m * 1000) (2 ^ k)
     in dec (t div 1000) @ ''.'' @ zero_pad 3 (dec (t mod 1000)))"

subsection \<open>Integers\<close>

lemma undigit_digit [simp]: "n < 10 \<Longrightarrow> undigit (digit n) = n"
  by (simp add: undigit_def digit_def of_char_of)

lemma undec_snoc [simp]: "undec (s @ [c]) = undec s * 10 + undigit c"
  by (simp add: undec_def)

lemma undec_dec [simp]: "undec (dec n) = n"
proof (induction n rule: dec.induct)
  case (1 n)
  show ?case
  proof (cases "n < 10")
    case True
    then show ?thesis by (simp add: dec.simps undec_def)
  next
    case False
    with 1 show ?thesis by (subst dec.simps) simp
  qed
qed

lemma dec_inject [simp]: "dec m = dec n \<longleftrightarrow> m = n"
  by (metis undec_dec)

lemma dec_nonempty [simp]: "dec n \<noteq> []"
  by (subst dec.simps) simp

lemma set_dec: "set (dec n) \<subseteq> digit ` {..<10}"
proof (induction n rule: dec.induct)
  case (1 n)
  then show ?case by (subst dec.simps) auto
qed

lemma length_dec_le: "n < 10 ^ Suc w \<Longrightarrow> length (dec n) \<le> Suc w"
proof (induction w arbitrary: n)
  case 0
  then show ?case by (simp add: dec.simps)
next
  case (Suc w)
  then have "length (dec (n div 10)) \<le> Suc w" by (intro Suc.IH) (simp add: div_less_iff_less_mult)
  then show ?case by (subst dec.simps) simp
qed

lemma undec_zeros: "undec (replicate n CHR ''0'' @ s) = undec s"
proof (induction n)
  case (Suc n)
  have "undec (CHR ''0'' # t) = undec t" for t by (simp add: undec_def undigit_def)
  with Suc show ?case by simp
qed simp

lemma undec_zero_pad [simp]: "undec (zero_pad w (dec n)) = n"
  by (simp add: zero_pad_def undec_zeros)

lemma length_zero_pad: "n < 10 ^ Suc w \<Longrightarrow> length (zero_pad (Suc w) (dec n)) = Suc w"
  using length_dec_le [of n w] by (simp add: zero_pad_def)

subsection \<open>Doubles\<close>

lemma rne_div_lower: "0 < b \<Longrightarrow> c * b \<le> a \<Longrightarrow> c \<le> rne_div a b"
  by (auto simp: rne_div_def Let_def less_eq_div_iff_mult_less_eq intro: le_SucI)

lemma rne_div_upper:
  assumes "0 < b" "a \<le> c * b"
  shows "rne_div a b \<le> c"
proof (cases "a = c * b")
  case True
  then show ?thesis using assms(1) by (simp add: rne_div_def)
next
  case False
  then have "a div b < c" using assms by (simp add: div_less_iff_less_mult)
  then show ?thesis by (auto simp: rne_div_def Let_def)
qed

lemma round_ratio_lower:
  assumes "0 < d" "c * d \<le> n" "round_ratio n d = (m, k)"
  shows "c * 2 ^ k \<le> m"
  using assms by (auto simp: round_ratio_def Let_def intro!: rne_div_lower)

lemma round_ratio_upper:
  assumes "0 < d" "n \<le> c * d" "round_ratio n d = (m, k)"
  shows "m \<le> c * 2 ^ k"
  using assms by (auto simp: round_ratio_def Let_def intro!: rne_div_upper)

text \<open>The whole seconds of a duration survive the two roundings, and at most the next
  integer is reached.\<close>

lemma Seconds_bounds:
  assumes "Seconds d = (m, k)"
  shows "d div 1000000000 * 2 ^ k \<le> m" "m \<le> (d div 1000000000 + 1) * 2 ^ k"
proof -
  obtain m1 k1 where 1: "round_ratio (d mod 1000000000) 1000000000 = (m1, k1)" by force
  then have 2: "round_ratio (d div 1000000000 * 2 ^ k1 + m1) (2 ^ k1) = (m, k)"
    using assms by (simp add: Seconds_def)
  have "m1 \<le> 1 * 2 ^ k1" by (rule round_ratio_upper [OF _ _ 1]) simp_all
  then show "d div 1000000000 * 2 ^ k \<le> m" "m \<le> (d div 1000000000 + 1) * 2 ^ k"
    by (intro round_ratio_lower [OF _ _ 2] round_ratio_upper [OF _ _ 2]; simp add: algebra_simps)+
qed

end
