(* ===== verification/Go_Path.thy ===== *)
theory Go_Path
  imports Prelude
begin

text \<open>
  The string and path functions of the Go library that the components use, on Unix:
  \<open>strings.HasPrefix/HasSuffix/TrimSuffix/Contains/Split\<close> and \<open>filepath.Clean/Join/Rel/Ext\<close>. A path
  is cleaned by folding over its slash-separated elements with a stack, as
  \<open>filepath.Clean\<close> does. Shown: cleaning yields elements without empty, dot, or (after a
  proper element) dot-dot components, and rendering such elements parses back to them.
\<close>

subsection \<open>Strings\<close>

definition HasPrefix :: "string \<Rightarrow> string \<Rightarrow> bool" where
  "HasPrefix s p \<longleftrightarrow> take (length p) s = p"

definition HasSuffix :: "string \<Rightarrow> string \<Rightarrow> bool" where
  "HasSuffix s p \<longleftrightarrow> length p \<le> length s \<and> drop (length s - length p) s = p"

definition TrimSuffix :: "string \<Rightarrow> string \<Rightarrow> string" where
  "TrimSuffix s p = (if HasSuffix s p then take (length s - length p) s else s)"

fun strings_Contains :: "string \<Rightarrow> string \<Rightarrow> bool" where
  "strings_Contains [] p = (p = [])"
| "strings_Contains (x # xs) p = (HasPrefix (x # xs) p \<or> strings_Contains xs p)"

text \<open>\<open>strings.Split\<close> with a non-empty separator: \<open>cur\<close> collects the current piece in reverse.\<close>

function split_from :: "string \<Rightarrow> string \<Rightarrow> string \<Rightarrow> string list" where
  "split_from sep cur [] = [rev cur]"
| "split_from sep cur (x # xs) =
     (if sep \<noteq> [] \<and> HasPrefix (x # xs) sep
      then rev cur # split_from sep [] (drop (length sep) (x # xs))
      else split_from sep (x # cur) xs)"
  by pat_completeness auto
termination
  by (relation "measure (\<lambda>(sep, cur, s). length s)") auto

definition strings_Split :: "string \<Rightarrow> string \<Rightarrow> string list" where
  "strings_Split s sep = split_from sep [] s"

subsection \<open>Paths\<close>

abbreviation slash :: char where "slash \<equiv> CHR ''/''"

fun split_slash :: "string \<Rightarrow> string list" where
  "split_slash [] = [[]]"
| "split_slash (x # xs) =
     (if x = slash then [] # split_slash xs
      else (case split_slash xs of e # es \<Rightarrow> (x # e) # es | [] \<Rightarrow> [[x]]))"

fun join_slash :: "string list \<Rightarrow> string" where
  "join_slash [] = []"
| "join_slash [e] = e"
| "join_slash (e # es) = e @ slash # join_slash es"

definition rooted :: "string \<Rightarrow> bool" where
  "rooted p \<longleftrightarrow> p \<noteq> [] \<and> hd p = slash"

definition clean_step :: "bool \<Rightarrow> string \<Rightarrow> string list \<Rightarrow> string list" where
  "clean_step r e out =
     (if e = [] \<or> e = ''.'' then out
      else if e = ''..'' then
        (if out \<noteq> [] \<and> last out \<noteq> ''..'' then butlast out
         else if r then out else out @ [''..''])
      else out @ [e])"

definition elements :: "string \<Rightarrow> string list" where
  "elements p = fold (clean_step (rooted p)) (split_slash p) []"

definition render :: "bool \<Rightarrow> string list \<Rightarrow> string" where
  "render r es = (if r then slash # join_slash es else if es = [] then ''.'' else join_slash es)"

definition filepath_Clean :: "string \<Rightarrow> string" where
  "filepath_Clean p = render (rooted p) (elements p)"

definition filepath_Join :: "string list \<Rightarrow> string" where
  "filepath_Join ps =
     (case dropWhile (\<lambda>p. p = []) ps of [] \<Rightarrow> [] | qs \<Rightarrow> filepath_Clean (join_slash qs))"

text \<open>\<open>filepath.Rel\<close>: climb out of what is left of the base after the common prefix.\<close>

fun strip_common :: "'a list \<Rightarrow> 'a list \<Rightarrow> 'a list \<times> 'a list" where
  "strip_common (x # xs) (y # ys) = (if x = y then strip_common xs ys else (x # xs, y # ys))"
| "strip_common xs ys = (xs, ys)"

definition filepath_Rel :: "string \<Rightarrow> string \<Rightarrow> string option" where
  "filepath_Rel base targ =
     (if rooted (filepath_Clean base) \<noteq> rooted (filepath_Clean targ) then None
      else (case strip_common (elements base) (elements targ) of
              (b, t) \<Rightarrow>
                if b \<noteq> [] \<and> hd b = ''..'' then None
                else Some (render False (replicate (length b) ''..'' @ t))))"

text \<open>\<open>filepath.Ext\<close>: from the last dot after the last slash.\<close>

definition filepath_Ext :: "string \<Rightarrow> string" where
  "filepath_Ext p =
     (let b = last (split_slash p) in
      if CHR ''.'' \<in> set b then CHR ''.'' # rev (takeWhile (\<lambda>c. c \<noteq> CHR ''.'') (rev b)) else [])"

text \<open>\<open>filepath.Dir\<close> and \<open>filepath.Base\<close>.\<close>

definition filepath_Dir :: "string \<Rightarrow> string" where
  "filepath_Dir p = filepath_Clean (rev (dropWhile (\<lambda>c. c \<noteq> slash) (rev p)))"

definition filepath_Base :: "string \<Rightarrow> string" where
  "filepath_Base p =
     (if p = [] then ''.''
      else let q = rev (dropWhile (\<lambda>c. c = slash) (rev p)) in if q = [] then ''/'' else last (split_slash q))"

text \<open>Elements that cleaning leaves alone.\<close>

definition plain :: "string \<Rightarrow> bool" where
  "plain e \<longleftrightarrow> e \<noteq> [] \<and> e \<noteq> ''.'' \<and> slash \<notin> set e"

text \<open>A name of a directory entry.\<close>

definition proper_name :: "string \<Rightarrow> bool" where
  "proper_name n \<longleftrightarrow> plain n \<and> n \<noteq> ''..''"

definition clean_elems :: "bool \<Rightarrow> string list \<Rightarrow> bool" where
  "clean_elems r es \<longleftrightarrow> (\<forall>e\<in>set es. plain e) \<and>
     (\<exists>n us. es = replicate n ''..'' @ us \<and> ''..'' \<notin> set us \<and> (r \<longrightarrow> n = 0))"

subsection \<open>Splitting and joining\<close>

lemma split_slash_nonempty [simp]: "split_slash s \<noteq> []"
  by (cases s) (auto split: list.splits)

lemma split_slash_append:
  "split_slash (a @ slash # b) = split_slash a @ split_slash b"
  by (induction a) (auto split: list.splits)

lemma split_slash_noslash: "slash \<notin> set e \<Longrightarrow> split_slash e = [e]"
  by (induction e) auto

lemma split_join: "\<forall>e\<in>set es. slash \<notin> set e \<Longrightarrow> es \<noteq> [] \<Longrightarrow> split_slash (join_slash es) = es"
proof (induction es rule: join_slash.induct)
  case (2 e)
  then show ?case by (simp add: split_slash_noslash)
next
  case (3 e e' es)
  then show ?case by (simp add: split_slash_append split_slash_noslash)
qed simp

lemma split_slash_parts: "e \<in> set (split_slash s) \<Longrightarrow> slash \<notin> set e"
  by (induction s arbitrary: e) (auto split: if_splits list.splits)

lemma HasPrefix_append [simp]: "HasPrefix (p @ s) p"
  by (simp add: HasPrefix_def)

lemma HasSuffix_append [simp]: "HasSuffix (s @ p) p"
  by (simp add: HasSuffix_def)

lemma TrimSuffix_append [simp]: "TrimSuffix (s @ p) p = s"
  by (simp add: TrimSuffix_def)

lemma HasSuffix_iff: "HasSuffix s p \<longleftrightarrow> (\<exists>t. s = t @ p)"
  by (auto simp: HasSuffix_def intro: exI [of _ "take (length s - length p) s"]) (metis append_take_drop_id)

subsection \<open>Cleaning\<close>

lemma clean_elems_Nil [simp]: "clean_elems r []"
  by (auto simp: clean_elems_def)

lemma replicate_dotdot_last:
  "''..'' \<notin> set us \<Longrightarrow> us \<noteq> [] \<Longrightarrow> last (replicate n ''..'' @ us) \<noteq> ''..''"
  by (metis last_appendR last_in_set)

lemma clean_step_clean:
  assumes "clean_elems r out" "slash \<notin> set e"
  shows "clean_elems r (clean_step r e out)"
proof -
  obtain n us where out: "out = replicate n ''..'' @ us" "''..'' \<notin> set us" "r \<longrightarrow> n = 0" "\<forall>e\<in>set out. plain e"
    using assms(1) by (auto simp: clean_elems_def)
  consider "e = [] \<or> e = ''.''" | "e = ''..''" "us \<noteq> []" | "e = ''..''" "us = []" | "e \<noteq> ''..''" "e \<noteq> []" "e \<noteq> ''.''"
    by blast
  then show ?thesis
  proof cases
    case 1
    then show ?thesis using assms(1) by (auto simp: clean_step_def)
  next
    case 2
    then have "clean_step r e out = replicate n ''..'' @ butlast us"
      using out replicate_dotdot_last [OF out(2)] by (simp add: clean_step_def butlast_append)
    moreover have "''..'' \<notin> set (butlast us)" using out(2) by (meson in_set_butlastD)
    moreover have "\<forall>e\<in>set (replicate n ''..'' @ butlast us). plain e"
      using out(1,4) by (auto dest: in_set_butlastD)
    ultimately show ?thesis using out(3) unfolding clean_elems_def by metis
  next
    case 3
    then have "clean_step r e out = replicate (if r then n else Suc n) ''..'' @ []"
      using out by (auto simp: clean_step_def replicate_append_same)
    moreover have "\<forall>e\<in>set (replicate (if r then n else Suc n) ''..''). plain e"
      by (auto simp: plain_def)
    ultimately show ?thesis using out(3) unfolding clean_elems_def
      by (intro conjI exI [of _ "if r then n else Suc n"] exI [of _ "[]"]) auto
  next
    case 4
    then have "clean_step r e out = replicate n ''..'' @ (us @ [e])" using out(1) by (simp add: clean_step_def)
    with 4 assms(2) out show ?thesis unfolding clean_elems_def
      by (intro conjI exI [of _ n] exI [of _ "us @ [e]"]) (auto simp: plain_def)
  qed
qed

lemma clean_fold: "clean_elems r out \<Longrightarrow> \<forall>e\<in>set es. slash \<notin> set e \<Longrightarrow> clean_elems r (fold (clean_step r) es out)"
  by (induction es arbitrary: out) (simp_all add: clean_step_clean)

lemma elements_clean: "clean_elems (rooted p) (elements p)"
  unfolding elements_def by (intro clean_fold) (auto dest: split_slash_parts)

text \<open>Clean elements pass through the stack unchanged.\<close>

lemma fold_clean_id:
  assumes "clean_elems r (out @ es)"
  shows "fold (clean_step r) es out = out @ es"
  using assms
proof (induction es arbitrary: out)
  case (Cons e es)
  obtain n us where s: "out @ e # es = replicate n ''..'' @ us" "''..'' \<notin> set us" "r \<longrightarrow> n = 0" "plain e"
    using Cons.prems by (auto simp: clean_elems_def)
  have "clean_step r e out = out @ [e]"
  proof (cases "e = ''..''")
    case True
    obtain zs where "out @ zs = replicate n ''..''" "e # es = zs @ us"
      using s(1,2) True by (auto simp: append_eq_append_conv2)
    moreover from this have "set out \<subseteq> set (replicate n ''..'')" by (metis Un_upper1 set_append)
    ultimately have out: "\<forall>x\<in>set out. x = ''..''" and "zs \<noteq> []" using s(2) True by auto
    then have "\<not> r" using s(3) \<open>out @ zs = replicate n ''..''\<close> by auto
    then show ?thesis using True out last_in_set [of out] by (auto simp: clean_step_def)
  qed (use s(4) in \<open>simp add: clean_step_def plain_def\<close>)
  then show ?case using Cons by simp
qed simp

lemma plain_hd: "plain e \<Longrightarrow> e \<noteq> [] \<and> hd e \<noteq> slash"
  by (cases e) (auto simp: plain_def)

lemma join_slash_hd: "plain e \<Longrightarrow> join_slash (e # es) \<noteq> [] \<and> hd (join_slash (e # es)) = hd e"
  by (cases es) (auto dest: plain_hd)

lemma rooted_render: "clean_elems r es \<Longrightarrow> rooted (render r es) = r"
  using join_slash_hd plain_hd by (cases es) (auto simp: render_def rooted_def clean_elems_def)

lemma elements_render:
  assumes "clean_elems r es"
  shows "elements (render r es) = es"
proof -
  have ns: "\<forall>e\<in>set es. slash \<notin> set e" using assms by (auto simp: clean_elems_def plain_def)
  have "fold (clean_step r) es [] = es" using fold_clean_id [of r "[]" es] assms by simp
  then show ?thesis
    using split_join [OF ns] rooted_render [OF assms]
    by (cases "es = []") (auto simp: elements_def render_def clean_step_def)
qed

lemma rooted_Clean [simp]: "rooted (filepath_Clean p) = rooted p"
  by (simp add: filepath_Clean_def rooted_render elements_clean)

lemma elements_Clean [simp]: "elements (filepath_Clean p) = elements p"
  by (simp add: filepath_Clean_def elements_render elements_clean)

lemma Clean_nonempty [simp]: "filepath_Clean p \<noteq> []"
  using join_slash_hd elements_clean [of p]
  by (cases "elements p") (auto simp: filepath_Clean_def render_def clean_elems_def)

lemma Clean_idem [simp]: "filepath_Clean (filepath_Clean p) = filepath_Clean p"
  by (simp add: filepath_Clean_def [of "filepath_Clean p"]) (simp add: filepath_Clean_def)

lemma elements_append:
  "a \<noteq> [] \<Longrightarrow> elements (a @ slash # b) = fold (clean_step (rooted a)) (split_slash b) (elements a)"
  by (simp add: elements_def split_slash_append rooted_def)

lemma rooted_append: "a \<noteq> [] \<Longrightarrow> rooted (a @ b) = rooted a"
  by (simp add: rooted_def)

lemma strip_common_base: "strip_common xs ys = ([], t) \<Longrightarrow> ys = xs @ t"
  by (induction xs ys rule: strip_common.induct) (auto split: if_splits)

lemma clean_elems_tail:
  assumes "clean_elems r (xs @ t)" "t \<noteq> []" "hd t \<noteq> ''..''"
  shows "''..'' \<notin> set t"
proof -
  obtain n us where s: "xs @ t = replicate n ''..'' @ us" "''..'' \<notin> set us"
    using assms(1) by (auto simp: clean_elems_def)
  have "n \<le> length xs"
  proof (rule ccontr)
    assume "\<not> n \<le> length xs"
    then have "(replicate n ''..'' @ us) ! length xs = ''..''" by (simp add: nth_append)
    then have "(xs @ t) ! length xs = ''..''" using s(1) by simp
    then show False using assms(2,3) by (simp add: nth_append hd_conv_nth)
  qed
  then have "t = drop (length xs - n) us"
    using arg_cong [OF s(1), of "drop (length xs)"] by simp
  then show ?thesis using s(2) by (meson in_set_dropD)
qed

text \<open>Different files have different paths.\<close>

lemma elements_Join:
  assumes "a \<noteq> []" "proper_name n" shows "elements (filepath_Join [a, n]) = elements a @ [n]" "filepath_Join [a, n] \<noteq> []"
proof -
  have j: "filepath_Join [a, n] = filepath_Clean (a @ slash # n)" using assms(1) by (simp add: filepath_Join_def)
  show "filepath_Join [a, n] \<noteq> []" unfolding j by simp
  have "split_slash n = [n]" using assms(2) by (intro split_slash_noslash) (simp add: proper_name_def plain_def)
  then show "elements (filepath_Join [a, n]) = elements a @ [n]"
    unfolding j elements_Clean elements_append [OF assms(1)] using assms(2) by (simp add: clean_step_def proper_name_def plain_def)
qed

lemma path_inject:
  assumes "r \<noteq> []" "proper_name d" "proper_name n" "proper_name d'" "proper_name n'"
    and "filepath_Join [filepath_Join [r, d], n] = filepath_Join [filepath_Join [r, d'], n']"
  shows "d = d' \<and> n = n'"
proof -
  have e: "elements (filepath_Join [filepath_Join [r, x], y]) = elements r @ [x, y]" if "proper_name x" "proper_name y" for x y
    using elements_Join [OF assms(1) that(1)] elements_Join(1) [OF elements_Join(2) [OF assms(1) that(1)] that(2)] by simp
  have "elements r @ [d, n] = elements r @ [d', n']" unfolding e [OF assms(2,3), symmetric] e [OF assms(4,5), symmetric] assms(6) ..
  then show ?thesis by simp
qed

lemma join_slash_snoc: "es \<noteq> [] \<Longrightarrow> join_slash (es @ [n]) = join_slash es @ slash # n"
  by (induction es rule: join_slash.induct) auto

lemma Clean_trailing:
  assumes "clean_elems r es" shows "filepath_Clean (render r es @ [slash]) = render r es"
proof -
  have ne: "render r es \<noteq> []"
    using join_slash_hd assms by (cases es) (auto simp: render_def clean_elems_def)
  have "elements (render r es @ slash # []) = es"
    unfolding elements_append [OF ne] by (simp add: clean_step_def elements_render [OF assms])
  moreover have "rooted (render r es @ [slash]) = r" using rooted_append [OF ne] rooted_render [OF assms] by simp
  ultimately show ?thesis by (simp add: filepath_Clean_def)
qed

text \<open>The directory and the name of a file are those it was joined from.\<close>

lemma Dir_Base_Join:
  assumes "a \<noteq> []" "proper_name n"
  shows "filepath_Dir (filepath_Join [a, n]) = filepath_Clean a" "filepath_Base (filepath_Join [a, n]) = n"
proof -
  let ?r = "rooted a" and ?es = "elements a"
  have n: "n \<noteq> []" "slash \<notin> set n" using assms(2) by (auto simp: proper_name_def plain_def)
  have ce: "clean_elems ?r ?es" by (rule elements_clean)
  have eq: "filepath_Join [a, n] = render ?r (?es @ [n])"
  proof -
    have "filepath_Join [a, n] = filepath_Clean (a @ slash # n)" using assms(1) by (simp add: filepath_Join_def)
    then show ?thesis
      using elements_Join(1) [OF assms] rooted_append [OF assms(1)] by (metis Clean_idem filepath_Clean_def rooted_Clean)
  qed
  obtain pre where pre: "filepath_Join [a, n] = pre @ n" "pre = [] \<and> ?es = [] \<and> \<not> ?r \<or> pre = [slash] \<and> ?es = [] \<and> ?r \<or>
      pre = render ?r ?es @ [slash]"
    unfolding eq by (cases "?es = []"; cases ?r) (auto simp: render_def join_slash_snoc)
  have last: "pre = [] \<or> last pre = slash" using pre(2) by auto
  then have "dropWhile (\<lambda>c. c \<noteq> slash) (rev (pre @ n)) = rev pre"
    using n(2) by (cases pre rule: rev_cases) (auto simp: dropWhile_append)
  then have "filepath_Dir (filepath_Join [a, n]) = filepath_Clean pre"
    unfolding filepath_Dir_def pre(1) by simp
  also have "\<dots> = filepath_Clean a"
    using pre(2) Clean_trailing [OF ce] by (auto simp: filepath_Clean_def) (simp_all add: elements_def rooted_def clean_step_def)
  finally show "filepath_Dir (filepath_Join [a, n]) = filepath_Clean a" .
  have "dropWhile (\<lambda>c. c = slash) (rev (pre @ n)) = rev (pre @ n)"
    using n by (cases n rule: rev_cases) auto
  moreover have "last (split_slash (pre @ n)) = n"
  proof (cases pre rule: rev_cases)
    case Nil then show ?thesis using split_slash_noslash [OF n(2)] by simp
  next
    case (snoc q c)
    then show ?thesis using last split_slash_append [of q n] split_slash_noslash [OF n(2)] by simp
  qed
  ultimately show "filepath_Base (filepath_Join [a, n]) = n"
    unfolding filepath_Base_def pre(1) using n by (simp add: Let_def)
qed

lemma Join_Clean: "a \<noteq> [] \<Longrightarrow> filepath_Join [filepath_Clean a, n] = filepath_Join [a, n]"
  by (simp add: filepath_Join_def filepath_Clean_def [of "_ @ _"] elements_append rooted_append)

end
