(* ===== verification/Mpegts.thy ===== *)
theory Mpegts
  imports Prelude
begin

text \<open>
  The interface of the MPEG-TS writer (\<open>github.com/bluenviron/mediacommon/pkg/formats/mpegts\<close>,
  not part of the repository) as a parameter: creating a writer for a codec, writing one access
  unit with its timestamps, and the bytes written so far.
\<close>

datatype ts_codec = TsH264 | TsH265

record 'w mpegts_ops =
  ts_new :: "ts_codec \<Rightarrow> 'w"
  ts_write :: "'w \<Rightarrow> int \<Rightarrow> int \<Rightarrow> bool \<Rightarrow> bytes list \<Rightarrow> 'w \<times> bool"
  ts_bytes :: "'w \<Rightarrow> bytes"

end
