(* ===== verification/Archive.thy ===== *)
theory Archive
  imports FMP4 LruCache Go_Fmt Go_Path Mpegts
begin

text \<open>
  \<open>internal/archive/hls.go\<close> and \<open>export.go\<close>: indexing of recorded fMP4 files with the index
  cache, VOD playlists, MPEG-TS segments transcoded on demand, and clip export. The blob
  store is a map from paths to contents. Code outside the repository is a parameter:
  \<open>um\<close> parses a fragment (\<open>fmp4.Parts.Unmarshal\<close>), \<open>im\<close> an initialisation section
  (\<open>fmp4.Init.Unmarshal\<close>), \<open>gh\<close> a sample's payload (\<open>GetH26x\<close>), and the record \<open>mpegts_ops\<close>
  is the MPEG-TS writer.

  Shown: indexing a well-formed recording finds exactly its initialisation section and its
  fragments, both scans terminate on every file, the cache stays coherent with the files, an
  exported clip is the initialisation section followed by the selected fragments and is
  itself a valid recording, and the playlist's target duration bounds every segment.
\<close>

subsection \<open>Data\<close>

record PartInfo =
  Offset :: nat
  pi_Duration :: nat

record FileIndex =
  InitOffset :: nat
  InitSize :: nat
  Parts :: "PartInfo list"

record fmp4_sample =
  s_Duration :: nat
  IsNonSyncSample :: bool
  s_Payload :: bytes

record fmp4_track =
  BaseTime :: nat
  Samples :: "fmp4_sample list"

type_synonym fmp4_part = "fmp4_track list"

datatype fmp4_codec = CodecH264 bytes bytes | CodecH265 bytes bytes bytes | CodecOther

datatype archive_error =
    FileNotFound | NoParts | OutOfBounds | InitUnmarshal | NoInitTracks | BadMoof | BadMdat
  | PartUnmarshal | NoPartTracks | UnsupportedCodec | ShortCopy

abbreviation minBoxHeaderSize :: nat where "minBoxHeaderSize \<equiv> 8"
abbreviation maxBoxSize :: nat where "maxBoxSize \<equiv> 67108864"

type_synonym index_cache = "FileIndex lru"

subsection \<open>Indexing\<close>

text \<open>The first loop: the total size of the boxes before the first \<open>moof\<close>.\<close>

function scan_init :: "file_rd \<Rightarrow> nat \<Rightarrow> nat" where
  "scan_init f initSize =
     (case readBoxHeader f of
        (Inl e, _) \<Rightarrow> initSize
      | (Inr (ty, sz), f') \<Rightarrow>
          if sz < minBoxHeaderSize \<or> maxBoxSize < sz then initSize
          else if ty = moof_type then initSize
          else scan_init (f'\<lparr>fr_pos := fr_pos f' + (sz - minBoxHeaderSize)\<rparr>) (initSize + sz))"
  by pat_completeness auto
termination
  by (relation "measure (\<lambda>(f, n). length (fr_data f) - fr_pos f)")
    (auto dest!: readBoxHeader_pos [OF sym])

definition part_duration :: "(bytes \<Rightarrow> fmp4_part list option) \<Rightarrow> bytes \<Rightarrow> nat" where
  "part_duration um combined =
     (case um combined of
        Some (part # _) \<Rightarrow>
          let parsedDur = (case part of
                [] \<Rightarrow> 0
              | t # _ \<Rightarrow> fold (\<lambda>s d. u32 (d + s_Duration s)) (Samples t) 0)
          in if 0 < parsedDur then parsedDur else 90000
      | _ \<Rightarrow> 90000)"

text \<open>The second loop: one entry per \<open>moof\<close> that a plausible \<open>mdat\<close> follows.\<close>

function scan_parts :: "(bytes \<Rightarrow> fmp4_part list option) \<Rightarrow> file_rd \<Rightarrow> PartInfo list \<Rightarrow> PartInfo list" where
  "scan_parts um f acc =
     (case readBoxHeader f of
        (Inl e, _) \<Rightarrow> acc
      | (Inr (ty, sz), f1) \<Rightarrow>
          if sz < minBoxHeaderSize \<or> maxBoxSize < sz then acc
          else if ty = moof_type then
            (case io_ReadFull sz (seek_start (fr_pos f) f1) of
               (Inl e, _) \<Rightarrow> acc
             | (Inr moofData, f2) \<Rightarrow>
                 (case readBoxHeader f2 of
                    (Inl e, f3) \<Rightarrow> scan_parts um f3 acc
                  | (Inr (ty2, sz2), f3) \<Rightarrow>
                      if ty2 = mdat_type \<and> minBoxHeaderSize \<le> sz2 \<and> sz2 \<le> maxBoxSize then
                        (case io_ReadFull sz2 (seek_start (fr_pos f2) f3) of
                           (Inl e, _) \<Rightarrow> acc
                         | (Inr mdatData, f4) \<Rightarrow>
                             scan_parts um f4 (acc @ [\<lparr>Offset = fr_pos f,
                               pi_Duration = part_duration um (moofData @ mdatData)\<rparr>]))
                      else scan_parts um f3 acc))
          else scan_parts um (seek_start (fr_pos f + sz) f1) acc)"
  by pat_completeness auto
termination
proof (relation "measure (\<lambda>(um, f, acc). length (fr_data f) - fr_pos f)", goal_cases)
  case (2 um f acc r f1 h ty sz rm f2 moof rd f3 e)
  then show ?case
    using readBoxHeader_pos [of f _ f1] io_ReadFull_pos [of sz "seek_start (fr_pos f) f1" _ f2]
      readBoxHeader_pos_any [of f2 _ f3]
    by (auto simp: seek_start_def reader_eq_sym)
next
  case (3 um f acc r f1 h ty sz rm f2 moof rd f3 h2 ty2 sz2 rm2 f4 mdat)
  then show ?case
    using readBoxHeader_pos [of f _ f1] io_ReadFull_pos [of sz "seek_start (fr_pos f) f1" _ f2]
      readBoxHeader_pos_any [of f2 _ f3] io_ReadFull_pos [of sz2 "seek_start (fr_pos f2) f3" _ f4]
    by (auto simp: seek_start_def reader_eq_sym)
next
  case (4 um f acc r f1 h ty sz rm f2 moof rd f3 h2 ty2 sz2)
  then show ?case
    using readBoxHeader_pos [of f _ f1] io_ReadFull_pos [of sz "seek_start (fr_pos f) f1" _ f2]
      readBoxHeader_pos_any [of f2 _ f3]
    by (auto simp: seek_start_def reader_eq_sym)
next
  case (5 um f acc r f1 h ty sz)
  then show ?case using readBoxHeader_pos [of f _ f1] by (auto simp: seek_start_def reader_eq_sym)
qed simp

declare scan_init.simps [simp del] scan_parts.simps [simp del]

definition parse_index :: "(bytes \<Rightarrow> fmp4_part list option) \<Rightarrow> bytes \<Rightarrow> FileIndex" where
  "parse_index um content =
     (let initSize = scan_init \<lparr>fr_data = content, fr_pos = 0\<rparr> 0 in
      \<lparr>InitOffset = 0, InitSize = initSize,
       Parts = scan_parts um \<lparr>fr_data = content, fr_pos = initSize\<rparr> []\<rparr>)"

text \<open>\<open>None\<close> stands for a call that never returns (the cache's eviction loop).\<close>

definition getFileIndex ::
  "(bytes \<Rightarrow> fmp4_part list option) \<Rightarrow> (string \<rightharpoonup> bytes) \<Rightarrow> string \<Rightarrow> index_cache \<Rightarrow>
     ((archive_error + FileIndex) \<times> index_cache) option" where
  "getFileIndex um store path cache =
     (case lru_Get path cache of
        (Some idx, c) \<Rightarrow> Some (Inr idx, c)
      | (None, c) \<Rightarrow>
          (case store path of
             None \<Rightarrow> Some (Inl FileNotFound, c)
           | Some content \<Rightarrow>
               let idx = parse_index um content
               in map_option (Pair (Inr idx)) (lru_Add path idx c)))"

definition InvalidateFileIndex :: "string \<Rightarrow> index_cache \<Rightarrow> index_cache" where
  "InvalidateFileIndex path cache = lru_Remove path cache"

definition ClearIndexCache :: "index_cache \<Rightarrow> index_cache" where
  "ClearIndexCache cache = lru_Clear cache"

subsection \<open>Playlists\<close>

definition widen_target :: "PartInfo \<Rightarrow> nat \<Rightarrow> nat" where
  "widen_target p maxDurSec =
     (let dur = pi_Duration p div 90000 + 1 in if maxDurSec < dur then dur else maxDurSec)"

definition vod_target :: "PartInfo list \<Rightarrow> nat" where
  "vod_target ps = fold widen_target ps 2"

definition vod_entry :: "string \<Rightarrow> nat \<times> PartInfo \<Rightarrow> string" where
  "vod_entry filename = (\<lambda>(i, p).
     ''#EXTINF:'' @ fmt_f3 (round_ratio (pi_Duration p) 90000) @ '',\<newline>'' @
     ''segment.ts?file='' @ filename @ ''&seq='' @ dec i @ ''\<newline>'')"

definition vod_playlist :: "string \<Rightarrow> FileIndex \<Rightarrow> string" where
  "vod_playlist filename idx =
     ''#EXTM3U\<newline>#EXT-X-VERSION:3\<newline>#EXT-X-PLAYLIST-TYPE:VOD\<newline>'' @
     ''#EXT-X-TARGETDURATION:'' @ dec (vod_target (Parts idx)) @ ''\<newline>'' @
     ''#EXT-X-MEDIA-SEQUENCE:0\<newline>'' @
     concat (map (vod_entry filename) (enumerate 0 (Parts idx))) @
     ''#EXT-X-ENDLIST\<newline>''"

definition GenerateHLSPlaylist ::
  "(bytes \<Rightarrow> fmp4_part list option) \<Rightarrow> (string \<rightharpoonup> bytes) \<Rightarrow> string \<Rightarrow> string \<Rightarrow> string \<Rightarrow> index_cache \<Rightarrow>
     ((archive_error + string) \<times> index_cache) option" where
  "GenerateHLSPlaylist um store recordDir cameraID filename cache =
     (let path = filepath_Join [recordDir, cameraID, filename] in
      map_option (\<lambda>(r, c). (and_then r (\<lambda>idx. Inr (vod_playlist filename idx)), c))
        (getFileIndex um store path cache))"

subsection \<open>Segments\<close>

text \<open>The loop over the samples: writer state and running timestamp.\<close>

fun mux_samples ::
  "'w mpegts_ops \<Rightarrow> (fmp4_sample \<Rightarrow> bytes list option) \<Rightarrow> bytes list \<Rightarrow> fmp4_sample list \<Rightarrow> int \<Rightarrow> 'w \<Rightarrow> 'w" where
  "mux_samples ops gh params [] pts w = w"
| "mux_samples ops gh params (s # ss) pts w =
     (case gh s of
        None \<Rightarrow> mux_samples ops gh params ss pts w
      | Some nalus \<Rightarrow>
          let isKeyFrame = \<not> IsNonSyncSample s;
              out = (if isKeyFrame then params @ nalus else nalus)
          in mux_samples ops gh params ss (s64 (pts + int (s_Duration s)))
               (fst (ts_write ops w pts pts isKeyFrame out)))"

definition codec_setup :: "fmp4_codec \<Rightarrow> (ts_codec \<times> bytes list) option" where
  "codec_setup c =
     (case c of
        CodecH264 sps pps \<Rightarrow> Some (TsH264, [sps, pps])
      | CodecH265 vps sps pps \<Rightarrow> Some (TsH265, [vps, sps, pps])
      | CodecOther \<Rightarrow> None)"

text \<open>Steps 3 and 4: transcoding one parsed fragment.\<close>

definition transcode_part ::
  "'w mpegts_ops \<Rightarrow> (fmp4_sample \<Rightarrow> bytes list option) \<Rightarrow> fmp4_codec \<Rightarrow> fmp4_track \<Rightarrow> archive_error + bytes" where
  "transcode_part ops gh codec track =
     (case codec_setup codec of
        None \<Rightarrow> Inl UnsupportedCodec
      | Some (c, params) \<Rightarrow>
          Inr (ts_bytes ops (mux_samples ops gh params (Samples track) (s64 (int (BaseTime track))) (ts_new ops c))))"

text \<open>Reading one complete box at a position, as steps 1 and 2 do for \<open>moof\<close> and \<open>mdat\<close>.\<close>

definition read_box_at :: "archive_error \<Rightarrow> nat \<Rightarrow> file_rd \<Rightarrow> archive_error + bytes \<times> file_rd" where
  "read_box_at err off f =
     (case readBoxHeader (seek_start off f) of
        (Inl e, _) \<Rightarrow> Inl err
      | (Inr (_, sz), f1) \<Rightarrow>
          if sz < minBoxHeaderSize \<or> maxBoxSize < sz then Inl err
          else (case io_ReadFull sz (seek_start off f1) of
                  (Inl e, _) \<Rightarrow> Inl err
                | (Inr bs, f2) \<Rightarrow> Inr (bs, f2)))"

definition segment_of_index ::
  "(bytes \<Rightarrow> fmp4_part list option) \<Rightarrow> (bytes \<Rightarrow> fmp4_codec list option) \<Rightarrow> 'w mpegts_ops \<Rightarrow>
     (fmp4_sample \<Rightarrow> bytes list option) \<Rightarrow> bytes \<Rightarrow> FileIndex \<Rightarrow> int \<Rightarrow> archive_error + bytes" where
  "segment_of_index um im ops gh content idx seq =
     (if seq < 0 \<or> int (length (Parts idx)) \<le> seq then Inl OutOfBounds
      else
        let off = Offset (Parts idx ! nat seq); f = \<lparr>fr_data = content, fr_pos = 0\<rparr> in
        (case im (drop (InitOffset idx) content) of
           None \<Rightarrow> Inl InitUnmarshal
         | Some [] \<Rightarrow> Inl NoInitTracks
         | Some (codec # _) \<Rightarrow>
             and_then (read_box_at BadMoof off f) (\<lambda>(moofData, f1).
             and_then (read_box_at BadMdat (off + length moofData) f1) (\<lambda>(mdatData, f2).
               (case um (moofData @ mdatData) of
                  None \<Rightarrow> Inl PartUnmarshal
                | Some [] \<Rightarrow> Inl PartUnmarshal
                | Some ([] # _) \<Rightarrow> Inl NoPartTracks
                | Some ((track # _) # _) \<Rightarrow> transcode_part ops gh codec track)))))"

definition GenerateHLSSegment ::
  "(bytes \<Rightarrow> fmp4_part list option) \<Rightarrow> (bytes \<Rightarrow> fmp4_codec list option) \<Rightarrow> 'w mpegts_ops \<Rightarrow>
     (fmp4_sample \<Rightarrow> bytes list option) \<Rightarrow> (string \<rightharpoonup> bytes) \<Rightarrow> string \<Rightarrow> string \<Rightarrow> string \<Rightarrow> int \<Rightarrow> index_cache \<Rightarrow>
     ((archive_error + bytes) \<times> index_cache) option" where
  "GenerateHLSSegment um im ops gh store recordDir cameraID filename seq cache =
     (let path = filepath_Join [recordDir, cameraID, filename] in
      map_option (\<lambda>(r, c). (and_then r (\<lambda>idx.
          if seq < 0 \<or> int (length (Parts idx)) \<le> seq then Inl OutOfBounds
          else (case store path of
                  None \<Rightarrow> Inl FileNotFound
                | Some content \<Rightarrow> segment_of_index um im ops gh content idx seq)), c))
        (getFileIndex um store path cache))"

subsection \<open>Export\<close>

text \<open>\<open>io.CopyN\<close> from a position of the file.\<close>

definition copy_n :: "bytes \<Rightarrow> nat \<Rightarrow> nat \<Rightarrow> archive_error + bytes" where
  "copy_n content off n =
     (let chunk = take n (drop off content) in if length chunk < n then Inl ShortCopy else Inr chunk)"

definition part_size :: "bytes \<Rightarrow> PartInfo list \<Rightarrow> nat \<Rightarrow> nat" where
  "part_size content ps i =
     (if i < length ps - 1 then Offset (ps ! (i + 1)) - Offset (ps ! i)
      else length content - Offset (ps ! i))"

definition clamp_range :: "nat \<Rightarrow> int \<Rightarrow> int \<Rightarrow> nat \<times> nat" where
  "clamp_range n startSeq endSeq =
     (let s = (if startSeq < 0 then 0 else startSeq);
          e = (if int n \<le> endSeq \<or> endSeq < 0 then int n - 1 else endSeq);
          s' = (if e < s then e else s)
      in (nat s', nat e))"

definition export_index :: "bytes \<Rightarrow> FileIndex \<Rightarrow> int \<Rightarrow> int \<Rightarrow> archive_error + bytes" where
  "export_index content idx startSeq endSeq =
     (if Parts idx = [] then Inl NoParts
      else (case clamp_range (length (Parts idx)) startSeq endSeq of
        (s, e) \<Rightarrow>
          and_then (copy_n content (InitOffset idx) (InitSize idx)) (\<lambda>out.
            for_each (\<lambda>i w. and_then (copy_n content (Offset (Parts idx ! i)) (part_size content (Parts idx) i))
                (\<lambda>chunk. Inr (w @ chunk))) [s..<e + 1] out)))"

definition ExportMP4 ::
  "(bytes \<Rightarrow> fmp4_part list option) \<Rightarrow> (string \<rightharpoonup> bytes) \<Rightarrow> string \<Rightarrow> string \<Rightarrow> string \<Rightarrow> int \<Rightarrow> int \<Rightarrow> index_cache \<Rightarrow>
     ((archive_error + bytes) \<times> index_cache) option" where
  "ExportMP4 um store recordDir cameraID filename startSeq endSeq cache =
     (let path = filepath_Join [recordDir, cameraID, filename] in
      map_option (\<lambda>(r, c). (and_then r (\<lambda>idx.
          if Parts idx = [] then Inl NoParts
          else (case store path of
                  None \<Rightarrow> Inl FileNotFound
                | Some content \<Rightarrow> export_index content idx startSeq endSeq)), c))
        (getFileIndex um store path cache))"

subsection \<open>Well-formed recordings\<close>

text \<open>A fragment is its \<open>moof\<close> and \<open>mdat\<close> payload; a recording is its initialisation boxes
  followed by fragments.\<close>

type_synonym frag = "bytes \<times> bytes"

definition frag_bytes :: "frag \<Rightarrow> bytes" where
  "frag_bytes = (\<lambda>(m, d). box_bytes (moof_type, m) @ box_bytes (mdat_type, d))"

definition small_payload :: "bytes \<Rightarrow> bool" where
  "small_payload p \<longleftrightarrow> length p + 8 \<le> maxBoxSize"

definition recording_ok :: "box list \<Rightarrow> frag list \<Rightarrow> bool" where
  "recording_ok init frags \<longleftrightarrow>
     (\<forall>(t, p)\<in>set init. length t = 4 \<and> t \<noteq> moof_type \<and> small_payload p) \<and>
     (\<forall>(m, d)\<in>set frags. small_payload m \<and> small_payload d)"

definition recording_bytes :: "box list \<Rightarrow> frag list \<Rightarrow> bytes" where
  "recording_bytes init frags = boxes_bytes init @ concat (map frag_bytes frags)"

fun frag_parts :: "(bytes \<Rightarrow> fmp4_part list option) \<Rightarrow> nat \<Rightarrow> frag list \<Rightarrow> PartInfo list" where
  "frag_parts um base [] = []"
| "frag_parts um base (fr # frs) =
     \<lparr>Offset = base, pi_Duration = part_duration um (frag_bytes fr)\<rparr> #
     frag_parts um (base + length (frag_bytes fr)) frs"

text \<open>Every cached index is the index of the file as it is stored now.\<close>

definition cache_coherent ::
  "(bytes \<Rightarrow> fmp4_part list option) \<Rightarrow> (string \<rightharpoonup> bytes) \<Rightarrow> index_cache \<Rightarrow> bool" where
  "cache_coherent um store c \<longleftrightarrow> (\<forall>path idx. map_of (lru_abs c) path = Some idx \<longrightarrow>
     (\<exists>content. store path = Some content \<and> idx = parse_index um content))"

text \<open>What indexing a stored file yields without the cache.\<close>

definition index_of ::
  "(bytes \<Rightarrow> fmp4_part list option) \<Rightarrow> (string \<rightharpoonup> bytes) \<Rightarrow> string \<Rightarrow> archive_error + FileIndex" where
  "index_of um store path =
     (case store path of None \<Rightarrow> Inl FileNotFound | Some content \<Rightarrow> Inr (parse_index um content))"

definition frags_between :: "nat \<Rightarrow> nat \<Rightarrow> 'a list \<Rightarrow> 'a list" where
  "frags_between s e xs = take (e + 1 - s) (drop s xs)"

subsection \<open>Indexing well-formed recordings\<close>

lemma small_box_ok: "length t = 4 \<Longrightarrow> small_payload p \<Longrightarrow> box_ok (t, p)"
  by (simp add: box_ok_def small_payload_def)

lemma scan_init_boxes:
  assumes "fr_data f = pre @ boxes_bytes init @ post" "fr_pos f = length pre"
    and "\<forall>(t, p)\<in>set init. length t = 4 \<and> t \<noteq> moof_type \<and> small_payload p"
    and "post = [] \<or> (\<exists>m rest. post = box_bytes (moof_type, m) @ rest \<and> small_payload m)"
  shows "scan_init f n = n + length (boxes_bytes init)"
  using assms
proof (induction init arbitrary: f pre n)
  case Nil
  from Nil.prems(4) show ?case
  proof (elim disjE exE conjE)
    assume "post = []"
    then have "fst (readBoxHeader f) = Inl io_EOF" using Nil.prems by (intro readBoxHeader_end) simp
    then show ?thesis by (subst scan_init.simps) (auto split: prod.splits)
  next
    fix m rest assume "post = box_bytes (moof_type, m) @ rest" "small_payload m"
    then have "readBoxHeader f = (Inr (moof_type, length m + 8), f\<lparr>fr_pos := length pre + 8\<rparr>)"
      using Nil.prems by (intro readBoxHeader_box) (auto simp: small_box_ok)
    then show ?thesis by (subst scan_init.simps) simp
  qed
next
  case (Cons x init)
  obtain t p where x: "x = (t, p)" by force
  have tp: "length t = 4" "t \<noteq> moof_type" "small_payload p" using Cons.prems(3) x by auto
  have "readBoxHeader f = (Inr (t, length p + 8), f\<lparr>fr_pos := length pre + 8\<rparr>)"
    using Cons.prems x tp by (intro readBoxHeader_box) (auto simp: small_box_ok)
  then have "scan_init f n = scan_init (f\<lparr>fr_pos := length pre + (length p + 8)\<rparr>) (n + (length p + 8))"
    using tp by (subst scan_init.simps) (simp add: small_payload_def add.assoc add.commute [of 8])
  also have "\<dots> = n + (length p + 8) + length (boxes_bytes init)"
    using Cons.prems x tp by (intro Cons.IH [of _ "pre @ box_bytes x"]) (auto simp: length_box_bytes)
  finally show ?case using x tp by (simp add: length_box_bytes)
qed

lemma read_whole_box:
  assumes "fr_data f = pre @ box_bytes (t, p) @ post" "box_ok (t, p)"
  shows "io_ReadFull (length p + 8) (f\<lparr>fr_pos := length pre\<rparr>) =
    (Inr (box_bytes (t, p)), f\<lparr>fr_pos := length pre + (length p + 8)\<rparr>)"
proof -
  have "length (box_bytes (t, p)) = length p + 8" using assms(2) by (simp add: length_box_bytes box_ok_def)
  then show ?thesis
    using io_ReadFull_ahead(1) [of "f\<lparr>fr_pos := length pre\<rparr>" pre "box_bytes (t, p) @ post" "length p + 8"] assms(1)
    by simp
qed

lemma scan_parts_frags:
  assumes "fr_data f = pre @ concat (map frag_bytes frags)" "fr_pos f = length pre"
    and "\<forall>(m, d)\<in>set frags. small_payload m \<and> small_payload d"
  shows "scan_parts um f acc = acc @ frag_parts um (length pre) frags"
  using assms
proof (induction frags arbitrary: f pre acc)
  case Nil
  then have "fst (readBoxHeader f) = Inl io_EOF" by (intro readBoxHeader_end) simp
  then show ?case by (subst scan_parts.simps) (auto split: prod.splits)
next
  case (Cons fr frags)
  obtain m d where fr: "fr = (m, d)" by force
  have ok: "box_ok (moof_type, m)" "box_ok (mdat_type, d)" and small: "small_payload m" "small_payload d"
    using Cons.prems(3) fr by (auto simp: small_box_ok)
  let ?rest = "concat (map frag_bytes frags)"
  have d1: "fr_data f = pre @ box_bytes (moof_type, m) @ box_bytes (mdat_type, d) @ ?rest"
    and d2: "fr_data f = (pre @ box_bytes (moof_type, m)) @ box_bytes (mdat_type, d) @ ?rest"
    using Cons.prems(1) fr by (simp_all add: frag_bytes_def)
  have len: "length (box_bytes (moof_type, m)) = length m + 8" "length (box_bytes (mdat_type, d)) = length d + 8"
    by (simp_all add: length_box_bytes)
  let ?f1 = "f\<lparr>fr_pos := length pre + 8\<rparr>" and ?f2 = "f\<lparr>fr_pos := length pre + (length m + 8)\<rparr>"
  have r1: "readBoxHeader f = (Inr (moof_type, length m + 8), ?f1)"
    using readBoxHeader_box [OF d1 Cons.prems(2) ok(1)] .
  have r2: "io_ReadFull (length m + 8) (seek_start (fr_pos f) ?f1) = (Inr (box_bytes (moof_type, m)), ?f2)"
    using read_whole_box [OF d1 ok(1)] Cons.prems(2) by (simp add: seek_start_def)
  have r3: "readBoxHeader ?f2 = (Inr (mdat_type, length d + 8), f\<lparr>fr_pos := length pre + (length m + 8) + 8\<rparr>)"
    using readBoxHeader_box [of ?f2 _ _ _ ?rest, OF _ _ ok(2)] d2 len by simp
  have r4: "io_ReadFull (length d + 8) (seek_start (fr_pos ?f2) (f\<lparr>fr_pos := length pre + (length m + 8) + 8\<rparr>)) =
      (Inr (box_bytes (mdat_type, d)), f\<lparr>fr_pos := length pre + (length m + 8) + (length d + 8)\<rparr>)"
    using read_whole_box [OF d2 ok(2)] len by (simp add: seek_start_def)
  have "scan_parts um f acc = scan_parts um (f\<lparr>fr_pos := length pre + (length m + 8) + (length d + 8)\<rparr>)
      (acc @ [\<lparr>Offset = length pre, pi_Duration = part_duration um (frag_bytes fr)\<rparr>])"
    using small r1 r2 r3 r4 Cons.prems(2) fr
    by (subst scan_parts.simps) (simp add: small_payload_def frag_bytes_def)
  also have "\<dots> = (acc @ [\<lparr>Offset = length pre, pi_Duration = part_duration um (frag_bytes fr)\<rparr>]) @
      frag_parts um (length (pre @ frag_bytes fr)) frags"
    using Cons.prems fr len by (intro Cons.IH) (auto simp: frag_bytes_def)
  finally show ?case by simp
qed

lemma parse_index_recording:
  assumes "recording_ok init frags"
  shows "parse_index um (recording_bytes init frags) =
    \<lparr>InitOffset = 0, InitSize = length (boxes_bytes init),
     Parts = frag_parts um (length (boxes_bytes init)) frags\<rparr>"
proof -
  let ?rest = "concat (map frag_bytes frags)"
  have "?rest = [] \<or> (\<exists>m rest. ?rest = box_bytes (moof_type, m) @ rest \<and> small_payload m)"
  proof (cases frags)
    case (Cons fr frs)
    obtain m d where "fr = (m, d)" by force
    then have "?rest = box_bytes (moof_type, m) @ box_bytes (mdat_type, d) @ concat (map frag_bytes frs)"
      "small_payload m" using Cons assms by (auto simp: frag_bytes_def recording_ok_def)
    then show ?thesis by blast
  qed simp
  then have "scan_init \<lparr>fr_data = recording_bytes init frags, fr_pos = 0\<rparr> 0 = length (boxes_bytes init)"
    using assms scan_init_boxes [of "\<lparr>fr_data = recording_bytes init frags, fr_pos = 0\<rparr>" "[]" init ?rest 0]
    by (simp add: recording_bytes_def recording_ok_def)
  moreover have "scan_parts um \<lparr>fr_data = recording_bytes init frags, fr_pos = length (boxes_bytes init)\<rparr> [] =
      frag_parts um (length (boxes_bytes init)) frags"
    using assms by (subst scan_parts_frags [of _ "boxes_bytes init" frags])
      (auto simp: recording_bytes_def recording_ok_def)
  ultimately show ?thesis by (simp add: parse_index_def Let_def)
qed

subsection \<open>Exporting well-formed recordings\<close>

lemma length_frag_parts [simp]: "length (frag_parts um base frags) = length frags"
  by (induction frags arbitrary: base) auto

lemma Offset_frag_parts:
  "i < length frags \<Longrightarrow>
     Offset (frag_parts um base frags ! i) = base + length (concat (map frag_bytes (take i frags)))"
proof (induction frags arbitrary: base i)
  case (Cons fr frags)
  then show ?case by (cases i) simp_all
qed simp

lemma part_size_recording:
  assumes "i < length frags"
  shows "part_size (recording_bytes init frags) (frag_parts um (length (boxes_bytes init)) frags) i =
    length (frag_bytes (frags ! i))"
proof -
  let ?off = "\<lambda>i. length (boxes_bytes init) + length (concat (map frag_bytes (take i frags)))"
  have step: "?off (i + 1) = ?off i + length (frag_bytes (frags ! i))"
    using assms by (simp add: take_Suc_conv_app_nth)
  show ?thesis
  proof (cases "i < length frags - 1")
    case True
    with assms step show ?thesis by (simp add: part_size_def Offset_frag_parts)
  next
    case False
    then have "length (recording_bytes init frags) = ?off (i + 1)"
      using assms by (simp add: recording_bytes_def)
    with False assms step show ?thesis by (simp add: part_size_def Offset_frag_parts)
  qed
qed

lemma copy_part_recording:
  assumes "i < length frags"
  shows "copy_n (recording_bytes init frags) (Offset (frag_parts um (length (boxes_bytes init)) frags ! i))
      (length (frag_bytes (frags ! i))) = Inr (frag_bytes (frags ! i))"
proof -
  have "concat (map frag_bytes frags) = concat (map frag_bytes (take i frags)) @ frag_bytes (frags ! i) @
      concat (map frag_bytes (drop (Suc i) frags))"
    using arg_cong [OF id_take_nth_drop [OF assms], of "\<lambda>xs. concat (map frag_bytes xs)"] by simp
  then have "recording_bytes init frags =
      (boxes_bytes init @ concat (map frag_bytes (take i frags))) @ frag_bytes (frags ! i) @
      concat (map frag_bytes (drop (Suc i) frags))"
    by (simp add: recording_bytes_def)
  then show ?thesis using assms by (simp add: copy_n_def Offset_frag_parts)
qed

lemma copy_parts_recording:
  fixes init frags um
  defines "content \<equiv> recording_bytes init frags"
    and "ps \<equiv> frag_parts um (length (boxes_bytes init)) frags"
  assumes "\<forall>i\<in>set is. i < length frags"
  shows "for_each (\<lambda>i w. and_then (copy_n content (Offset (ps ! i)) (part_size content ps i)) (\<lambda>chunk. Inr (w @ chunk))) is out =
    Inr (out @ concat (map (\<lambda>i. frag_bytes (frags ! i)) is))"
  using assms(3)
proof (induction "is" arbitrary: out)
  case (Cons i "is")
  then show ?case
    using part_size_recording [of i frags init um] copy_part_recording [of i frags init um]
    by (simp add: content_def ps_def)
qed simp

lemma set_frags_between: "set (frags_between s e xs) \<subseteq> set xs"
  by (auto simp: frags_between_def dest: in_set_takeD in_set_dropD)

lemma frags_between_nth:
  "e < length frags \<Longrightarrow> map ((!) frags) [s..<e + 1] = frags_between s e frags"
  by (auto simp: frags_between_def list_eq_iff_nth_eq simp del: upt_Suc)

lemma clamp_range_bounds:
  "0 < n \<Longrightarrow> clamp_range n startSeq endSeq = (s, e) \<Longrightarrow> s \<le> e \<and> e < n"
  by (auto simp: clamp_range_def Let_def split: if_splits)

lemma export_recording:
  assumes "recording_ok init frags" "frags \<noteq> []" "clamp_range (length frags) startSeq endSeq = (s, e)"
  shows "export_index (recording_bytes init frags) (parse_index um (recording_bytes init frags)) startSeq endSeq =
    Inr (recording_bytes init (frags_between s e frags))"
proof -
  let ?ps = "frag_parts um (length (boxes_bytes init)) frags"
  have se: "s \<le> e" "e < length frags" using clamp_range_bounds [OF _ assms(3)] assms(2) by auto
  have "?ps \<noteq> []" using assms(2) by (metis length_0_conv length_frag_parts)
  moreover have "copy_n (recording_bytes init frags) 0 (length (boxes_bytes init)) = Inr (boxes_bytes init)"
    by (simp add: copy_n_def recording_bytes_def)
  moreover have "map (\<lambda>i. frag_bytes (frags ! i)) [s..<e + 1] = map frag_bytes (frags_between s e frags)"
    by (simp add: frags_between_nth [OF se(2), symmetric] comp_def del: upt_Suc)
  ultimately show ?thesis
    using se assms(3) copy_parts_recording [of "[s..<e + 1]" frags init um "boxes_bytes init"]
    unfolding export_index_def parse_index_recording [OF assms(1)]
    by (simp add: recording_bytes_def [of init "frags_between s e frags"] del: upt_Suc)
qed

lemma recording_boxes:
  "recording_bytes init frags =
     boxes_bytes (init @ concat (map (\<lambda>(m, d). [(moof_type, m), (mdat_type, d)]) frags))"
  by (induction frags) (auto simp: recording_bytes_def frag_bytes_def)

lemma recording_valid:
  assumes "recording_ok init frags" "frags \<noteq> []" "has_type moov_type init"
    and "32 \<le> length (recording_bytes init frags)"
  shows "ValidateFMP4File [path \<mapsto> recording_bytes init frags] path = Inr ()"
proof -
  let ?bs = "init @ concat (map (\<lambda>(m, d). [(moof_type, m), (mdat_type, d)]) frags)"
  have "\<forall>x\<in>set ?bs. box_ok x"
    using assms(1) by (auto simp: recording_ok_def small_box_ok)
  moreover have "has_type moov_type ?bs" using assms(3) by (auto simp: has_type_def)
  moreover obtain m d where "(m, d) \<in> set frags" using assms(2) by (cases frags) auto
  then have "has_type moof_type ?bs" "has_type mdat_type ?bs" by (force simp: has_type_def)+
  ultimately show ?thesis
    using assms(4) ValidateFMP4File_ok [of ?bs "[path \<mapsto> recording_bytes init frags]" path]
    by (simp add: recording_boxes)
qed

subsection \<open>The index cache\<close>

lemma index_of_eq_Inr:
  "index_of um store path = Inr idx \<longleftrightarrow> (\<exists>content. store path = Some content \<and> idx = parse_index um content)"
  by (auto simp: index_of_def split: option.splits)

lemma coherent_iff: "lru.coherent (index_of um store) c \<longleftrightarrow> cache_coherent um store c"
  by (simp add: lru.coherent_def cache_coherent_def index_of_eq_Inr)

lemma getFileIndex_spec:
  assumes "lru_ok c" "cache_coherent um store c"
  shows "\<exists>c'. getFileIndex um store path c = Some (index_of um store path, c') \<and> lru_ok c' \<and>
    cache_coherent um store c'"
proof -
  note co = assms(2) [folded coherent_iff]
  obtain r c1 where g: "lru_Get path c = (r, c1)" by force
  have c1: "lru_ok c1" "lru.coherent (index_of um store) c1"
    using lru_Get_ok [OF assms(1) g] lru.coherent_get [OF assms(1) co g] by simp_all
  show ?thesis
  proof (cases r)
    case (Some idx)
    with lru.coherent_hit [OF assms(1) co] g c1 show ?thesis
      by (simp add: getFileIndex_def coherent_iff)
  next
    case None
    show ?thesis
    proof (cases "store path")
      case None': None
      with None g c1 show ?thesis by (simp add: getFileIndex_def coherent_iff index_of_def)
    next
      case (Some content)
      then have "index_of um store path = Inr (parse_index um content)" by (simp add: index_of_def)
      with lru.coherent_add [OF c1 this] None Some g show ?thesis
        by (auto simp: getFileIndex_def coherent_iff Let_def)
    qed
  qed
qed

lemma widen_target_ge: "m \<le> fold widen_target ps m"
proof (induction ps arbitrary: m)
  case (Cons p ps)
  have "m \<le> widen_target p m" by (simp add: widen_target_def Let_def)
  also note Cons.IH
  finally show ?case by simp
qed simp

lemma widen_target_bound: "p \<in> set ps \<Longrightarrow> pi_Duration p div 90000 + 1 \<le> fold widen_target ps m"
proof (induction ps arbitrary: m)
  case (Cons q ps)
  show ?case
  proof (cases "p = q")
    case True
    have "pi_Duration p div 90000 + 1 \<le> widen_target q m" using True by (simp add: widen_target_def Let_def)
    also note widen_target_ge
    finally show ?thesis by simp
  qed (use Cons in simp)
qed simp

lemma read_box_at_ok:
  assumes "fr_data f = pre @ box_bytes (t, p) @ post" "length t = 4" "small_payload p"
  shows "read_box_at err (length pre) f =
    Inr (box_bytes (t, p), f\<lparr>fr_pos := length pre + (length p + 8)\<rparr>)"
proof -
  note ok = small_box_ok [OF assms(2,3)]
  have "readBoxHeader (seek_start (length pre) f) = (Inr (t, length p + 8), f\<lparr>fr_pos := length pre + 8\<rparr>)"
    using readBoxHeader_box [of "seek_start (length pre) f", OF _ _ ok] assms(1) by (simp add: seek_start_def)
  with read_whole_box [OF assms(1) ok] assms(3) show ?thesis
    by (simp add: read_box_at_def seek_start_def small_payload_def)
qed

lemma segment_recording:
  assumes "recording_ok init frags" "i < length frags"
  shows "segment_of_index um im ops gh (recording_bytes init frags)
      (parse_index um (recording_bytes init frags)) (int i) =
    (case im (recording_bytes init frags) of
       None \<Rightarrow> Inl InitUnmarshal
     | Some [] \<Rightarrow> Inl NoInitTracks
     | Some (codec # _) \<Rightarrow>
         (case um (frag_bytes (frags ! i)) of
            None \<Rightarrow> Inl PartUnmarshal
          | Some [] \<Rightarrow> Inl PartUnmarshal
          | Some ([] # _) \<Rightarrow> Inl NoPartTracks
          | Some ((track # _) # _) \<Rightarrow> transcode_part ops gh codec track))"
proof -
  obtain m d where md: "frags ! i = (m, d)" by force
  then have small: "small_payload m" "small_payload d"
    using assms nth_mem [OF assms(2)] by (auto simp: recording_ok_def)
  define pre where "pre = boxes_bytes init @ concat (map frag_bytes (take i frags))"
  define post where "post = concat (map frag_bytes (drop (Suc i) frags))"
  have content: "recording_bytes init frags =
      pre @ box_bytes (moof_type, m) @ box_bytes (mdat_type, d) @ post"
    using arg_cong [OF id_take_nth_drop [OF assms(2)], of "\<lambda>xs. concat (map frag_bytes xs)"] md
    by (simp add: recording_bytes_def pre_def post_def frag_bytes_def)
  let ?f = "\<lparr>fr_data = recording_bytes init frags, fr_pos = 0\<rparr>"
  have off: "Offset (Parts (parse_index um (recording_bytes init frags)) ! i) = length pre"
    using assms by (simp add: parse_index_recording Offset_frag_parts pre_def)
  have "read_box_at BadMoof (length pre) ?f =
      Inr (box_bytes (moof_type, m), ?f\<lparr>fr_pos := length pre + (length m + 8)\<rparr>)"
    using content small by (intro read_box_at_ok [of _ pre _ _ "box_bytes (mdat_type, d) @ post"]) auto
  moreover have "read_box_at BadMdat (length pre + length (box_bytes (moof_type, m)))
      (?f\<lparr>fr_pos := length pre + (length m + 8)\<rparr>) = Inr (box_bytes (mdat_type, d),
        ?f\<lparr>fr_pos := length (pre @ box_bytes (moof_type, m)) + (length d + 8)\<rparr>)"
    using content small read_box_at_ok [of "?f\<lparr>fr_pos := length pre + (length m + 8)\<rparr>"
        "pre @ box_bytes (moof_type, m)" mdat_type d post] by simp
  moreover have "frag_bytes (frags ! i) = box_bytes (moof_type, m) @ box_bytes (mdat_type, d)"
    by (simp add: md frag_bytes_def)
  moreover have "length (Parts (parse_index um (recording_bytes init frags))) = length frags"
    "InitOffset (parse_index um (recording_bytes init frags)) = 0"
    by (simp_all add: parse_index_recording [OF assms(1)])
  ultimately show ?thesis
    using off assms(2) unfolding segment_of_index_def
    by (cases "im (recording_bytes init frags)") (simp_all add: Let_def split: list.split)
qed

subsection \<open>Properties\<close>

text \<open>
  Requesting the index of a stored well-formed recording returns, whatever is cached as
  long as it is coherent, exactly its structure: the size of its initialisation section and
  one entry per fragment with the fragment's byte offset and duration.
\<close>

theorem archive_index_exact:
  assumes "lru_ok c" "cache_coherent um store c"
    and "store path = Some (recording_bytes init frags)" "recording_ok init frags"
  shows "\<exists>c'. getFileIndex um store path c =
    Some (Inr \<lparr>InitOffset = 0, InitSize = length (boxes_bytes init),
                Parts = frag_parts um (length (boxes_bytes init)) frags\<rparr>, c')"
  using getFileIndex_spec [OF assms(1,2), of path] parse_index_recording [OF assms(4)] assms(3)
  by (auto simp: index_of_def)

theorem archive_index_exact_witness:
  "\<exists>c' ps. getFileIndex (\<lambda>_. None) [''f'' \<mapsto> recording_bytes [(moov_type, [1])] [([2], [3]), ([4], [5])]] ''f''
       (NewIndexLRUCache 0) = Some (Inr \<lparr>InitOffset = 0, InitSize = 9, Parts = ps\<rparr>, c') \<and>
     map Offset ps = [9, 27]"
proof -
  let ?i = "[(moov_type, [1])] :: box list" and ?fr = "[([2], [3]), ([4], [5])] :: frag list"
  have "lru_ok (NewIndexLRUCache 0 :: index_cache)" by (simp add: lru_ok_def NewIndexLRUCache_def)
  moreover have "cache_coherent (\<lambda>_. None) [''f'' \<mapsto> recording_bytes ?i ?fr] (NewIndexLRUCache 0)"
    by (simp add: cache_coherent_def lru_abs_def NewIndexLRUCache_def)
  moreover have "recording_ok ?i ?fr" by (simp add: recording_ok_def small_payload_def)
  ultimately show ?thesis
    using archive_index_exact [of "NewIndexLRUCache 0" "\<lambda>_. None" "[''f'' \<mapsto> recording_bytes ?i ?fr]" "''f''" ?i ?fr]
    by (auto simp: length_box_bytes frag_bytes_def)
qed



text \<open>
  C10: An exported clip is a valid recording. For a stored well-formed recording with fragments,
  \<open>ExportMP4\<close> writes the initialisation section followed by exactly the selected fragments
  (sequence numbers clamped to the existing ones), and the clip passes the recording
  validator.
\<close>

theorem export_clip_valid:
  assumes "lru_ok c" "cache_coherent um store c"
    and "store (filepath_Join [dir, cam, file]) = Some (recording_bytes init frags)"
    and "recording_ok init frags" "frags \<noteq> []" "has_type moov_type init" "16 \<le> length (boxes_bytes init)"
    and "clamp_range (length frags) startSeq endSeq = (s, e)"
  shows "\<exists>c'. ExportMP4 um store dir cam file startSeq endSeq c =
      Some (Inr (recording_bytes init (frags_between s e frags)), c') \<and>
    ValidateFMP4File [clip \<mapsto> recording_bytes init (frags_between s e frags)] clip = Inr ()"
proof -
  let ?clip = "frags_between s e frags"
  have se: "s \<le> e" "e < length frags" using clamp_range_bounds [OF _ assms(8)] assms(5) by auto
  obtain c' where g: "getFileIndex um store (filepath_Join [dir, cam, file]) c =
      Some (Inr (parse_index um (recording_bytes init frags)), c')"
    using getFileIndex_spec [OF assms(1,2), of "filepath_Join [dir, cam, file]"] assms(3) by (auto simp: index_of_def)
  have "Parts (parse_index um (recording_bytes init frags)) \<noteq> []"
    using assms(5) by (simp add: parse_index_recording [OF assms(4)]) (metis length_0_conv length_frag_parts)
  with g export_recording [OF assms(4,5,8), of um] assms(3)
  have "ExportMP4 um store dir cam file startSeq endSeq c = Some (Inr (recording_bytes init ?clip), c')"
    by (simp add: ExportMP4_def)
  moreover have ne: "?clip \<noteq> []" using se by (auto simp: frags_between_def)
  moreover have "recording_ok init ?clip"
    using assms(4) set_frags_between [of s e frags] unfolding recording_ok_def by blast
  moreover have "16 \<le> length (concat (map frag_bytes ?clip))"
    using ne by (cases ?clip) (auto simp: frag_bytes_def length_box_bytes)
  ultimately show ?thesis
    using recording_valid [of init ?clip clip] assms(6,7) by (simp add: recording_bytes_def)
qed

theorem export_clip_valid_witness:
  "\<exists>c'. ExportMP4 (\<lambda>_. None) [''r/c/f'' \<mapsto> recording_bytes [(moov_type, [1, 2, 3, 4, 5, 6, 7, 8])] [([2], [3]), ([4], [5])]]
      ''r'' ''c'' ''f'' 1 (- 1) (NewIndexLRUCache 0) =
    Some (Inr (recording_bytes [(moov_type, [1, 2, 3, 4, 5, 6, 7, 8])] [([4], [5])]), c')"
proof -
  let ?i = "[(moov_type, [1, 2, 3, 4, 5, 6, 7, 8])] :: box list" and ?fr = "[([2], [3]), ([4], [5])] :: frag list"
  let ?st = "[''r/c/f'' \<mapsto> recording_bytes ?i ?fr]"
  have "lru_ok (NewIndexLRUCache 0 :: index_cache)" "cache_coherent (\<lambda>_. None) ?st (NewIndexLRUCache 0)"
    "recording_ok ?i ?fr" "has_type moov_type ?i" "16 \<le> length (boxes_bytes ?i)"
    by (simp_all add: lru_ok_def NewIndexLRUCache_def cache_coherent_def lru_abs_def recording_ok_def
        small_payload_def has_type_def length_box_bytes)
  moreover have "filepath_Join [''r'', ''c'', ''f''] = ''r/c/f''"
    by (simp add: filepath_Join_def filepath_Clean_def elements_def rooted_def clean_step_def render_def)
  moreover have "clamp_range (length ?fr) 1 (- 1) = (1, 1)" by (simp add: clamp_range_def)
  ultimately show ?thesis
    using export_clip_valid [of "NewIndexLRUCache 0" "\<lambda>_. None" ?st "''r''" "''c''" "''f''" ?i ?fr 1 "- 1" 1 1]
    by (auto simp: frags_between_def)
qed

text \<open>
  The VOD playlist is playable: its target duration is at least two seconds and exceeds the
  duration of every listed part, and for a well-formed recording the segment requested by
  a listed sequence number is transcoded from exactly that fragment's bytes.
\<close>

theorem vod_playlist_playable:
  assumes "recording_ok init frags" "i < length frags"
  defines "content \<equiv> recording_bytes init frags"
  shows "(\<forall>p\<in>set (Parts (parse_index um content)).
      pi_Duration p < vod_target (Parts (parse_index um content)) * 90000) \<and>
    2 \<le> vod_target (Parts (parse_index um content)) \<and>
    length (Parts (parse_index um content)) = length frags \<and>
    segment_of_index um im ops gh content (parse_index um content) (int i) =
      (case im content of
         None \<Rightarrow> Inl InitUnmarshal
       | Some [] \<Rightarrow> Inl NoInitTracks
       | Some (codec # _) \<Rightarrow>
           (case um (frag_bytes (frags ! i)) of
              None \<Rightarrow> Inl PartUnmarshal
            | Some [] \<Rightarrow> Inl PartUnmarshal
            | Some ([] # _) \<Rightarrow> Inl NoPartTracks
            | Some ((track # _) # _) \<Rightarrow> transcode_part ops gh codec track))"
proof (intro conjI ballI)
  fix p assume "p \<in> set (Parts (parse_index um content))"
  from widen_target_bound [OF this, of 2]
  have "pi_Duration p div 90000 < vod_target (Parts (parse_index um content))" by (simp add: vod_target_def)
  then show "pi_Duration p < vod_target (Parts (parse_index um content)) * 90000"
    by (simp add: div_less_iff_less_mult)
next
  show "2 \<le> vod_target (Parts (parse_index um content))" by (simp add: vod_target_def widen_target_ge)
next
  show "length (Parts (parse_index um content)) = length frags"
    by (simp add: content_def parse_index_recording [OF assms(1)])
qed (simp only: content_def segment_recording [OF assms(1,2)])

theorem vod_playlist_playable_witness:
  "segment_of_index (\<lambda>_. Some [[\<lparr>BaseTime = 0, Samples = [\<lparr>s_Duration = 3000, IsNonSyncSample = False, s_Payload = []\<rparr>]\<rparr>]])
     (\<lambda>_. Some [CodecH264 [9] [8]])
     \<lparr>ts_new = (\<lambda>_. []), ts_write = (\<lambda>w _ _ _ n. (w @ concat n, True)), ts_bytes = (\<lambda>w. w)\<rparr>
     (\<lambda>_. Some [[7]]) (recording_bytes [(moov_type, [1])] [([2], [3])])
     (parse_index (\<lambda>_. Some [[\<lparr>BaseTime = 0, Samples = [\<lparr>s_Duration = 3000, IsNonSyncSample = False, s_Payload = []\<rparr>]\<rparr>]])
        (recording_bytes [(moov_type, [1])] [([2], [3])])) (int 0) = Inr [9, 8, 7]"
proof -
  have "recording_ok [(moov_type, [1])] [([2], [3])]" by (simp add: recording_ok_def small_payload_def)
  from vod_playlist_playable [OF this, where i = 0 and im = "\<lambda>_. Some [CodecH264 [9] [8]]" and gh = "\<lambda>_. Some [[7]]"
      and um = "\<lambda>_. Some [[\<lparr>BaseTime = 0, Samples = [\<lparr>s_Duration = 3000, IsNonSyncSample = False, s_Payload = []\<rparr>]\<rparr>]]"
      and ops = "\<lparr>ts_new = (\<lambda>_. []), ts_write = (\<lambda>w _ _ _ n. (w @ concat n, True)), ts_bytes = (\<lambda>w. w)\<rparr>"]
  show ?thesis by (simp add: transcode_part_def codec_setup_def)
qed

end
