(* ===== verification/LocalFS.thy ===== *)
theory LocalFS
  imports Go_Path
begin

text \<open>
  \<open>pkg/storage/localfs\<close>: the blob store on the local file system. \<open>fullPath\<close> maps a blob
  path into the base directory; every operation goes through it. The operating system's
  files are a map from cleaned paths to contents, directories a set of paths; permission
  bits and I/O failures other than a missing file are left out. \<open>FileWrapper\<close> is the
  write path of recordings with its chunked write-back, as the sequence of system calls it
  issues.

  Shown: whatever the blob path, an accepted target lies in the base directory; blobs read
  back as written; the write-back ranges tile the file.
\<close>

datatype path_error = NullByte | InvalidPath | DriveLetter | AbsolutePath | EscapesBase

definition is_letter :: "char \<Rightarrow> bool" where
  "is_letter c \<longleftrightarrow> (of_char c :: nat) \<in> {65..90} \<or> (of_char c :: nat) \<in> {97..122}"

text \<open>On Unix \<open>filepath.IsAbs\<close> is a leading slash and \<open>filepath.VolumeName\<close> is empty.\<close>

definition fullPath :: "string \<Rightarrow> string \<Rightarrow> path_error + string" where
  "fullPath baseDir p =
     (if CHR 0x00 \<in> set p then Inl NullByte
      else
        let cleanPath = filepath_Clean p in
        if baseDir = [] then
          (if HasPrefix cleanPath ''..'' then Inl InvalidPath else Inr cleanPath)
        else if 2 \<le> length cleanPath \<and> cleanPath ! 1 = CHR '':'' \<and> is_letter (cleanPath ! 0)
        then Inl DriveLetter
        else if HasPrefix cleanPath ''/'' \<or> HasPrefix cleanPath [CHR 0x5C] then Inl AbsolutePath
        else
          let cleanBase = filepath_Clean baseDir;
              target = filepath_Join [cleanBase, cleanPath]
          in (case filepath_Rel cleanBase target of
                None \<Rightarrow> Inl EscapesBase
              | Some rel \<Rightarrow>
                  if HasPrefix rel ''..'' \<or> rel = ''..'' then Inl EscapesBase else Inr target))"

subsection \<open>Operations\<close>

datatype fs_error = BadPath path_error | NotExist

text \<open>The files of the operating system, by cleaned path.\<close>

type_synonym os_files = "string \<rightharpoonup> bytes"

definition with_path :: "string \<Rightarrow> string \<Rightarrow> (string \<Rightarrow> fs_error + 'a) \<Rightarrow> fs_error + 'a" where
  "with_path baseDir p k = (case fullPath baseDir p of Inl e \<Rightarrow> Inl (BadPath e) | Inr fp \<Rightarrow> k fp)"

definition fs_Write :: "string \<Rightarrow> string \<Rightarrow> bytes \<Rightarrow> os_files \<Rightarrow> fs_error + os_files" where
  "fs_Write baseDir path data files = with_path baseDir path (\<lambda>fp. Inr (files(fp \<mapsto> data)))"

definition fs_Read :: "string \<Rightarrow> string \<Rightarrow> os_files \<Rightarrow> fs_error + bytes" where
  "fs_Read baseDir path files =
     with_path baseDir path (\<lambda>fp. case files fp of None \<Rightarrow> Inl NotExist | Some d \<Rightarrow> Inr d)"

definition fs_Delete :: "string \<Rightarrow> string \<Rightarrow> os_files \<Rightarrow> fs_error + os_files" where
  "fs_Delete baseDir path files =
     with_path baseDir path (\<lambda>fp. if files fp = None then Inl NotExist else Inr (files(fp := None)))"

definition fs_Stat_size :: "string \<Rightarrow> string \<Rightarrow> os_files \<Rightarrow> fs_error + nat" where
  "fs_Stat_size baseDir path files =
     with_path baseDir path (\<lambda>fp. case files fp of None \<Rightarrow> Inl NotExist | Some d \<Rightarrow> Inr (length d))"

definition fs_Create :: "string \<Rightarrow> string \<Rightarrow> os_files \<Rightarrow> fs_error + os_files" where
  "fs_Create baseDir path files = with_path baseDir path (\<lambda>fp. Inr (files(fp \<mapsto> [])))"

definition fs_Open :: "string \<Rightarrow> string \<Rightarrow> os_files \<Rightarrow> fs_error + bytes" where
  "fs_Open baseDir path files =
     with_path baseDir path (\<lambda>fp. case files fp of None \<Rightarrow> Inl NotExist | Some d \<Rightarrow> Inr d)"

definition fs_Rename :: "string \<Rightarrow> string \<Rightarrow> string \<Rightarrow> os_files \<Rightarrow> fs_error + os_files" where
  "fs_Rename baseDir oldPath newPath files =
     with_path baseDir oldPath (\<lambda>oldFp. with_path baseDir newPath (\<lambda>newFp.
       case files oldFp of
         None \<Rightarrow> Inl NotExist
       | Some d \<Rightarrow> Inr ((files(oldFp := None))(newFp \<mapsto> d))))"

subsection \<open>The file wrapper\<close>

text \<open>The system calls on a range of the file.\<close>

datatype sys_call = SyncWait nat nat | StartWriteout nat nat | DropPages nat nat | Fsync | CloseFd

record FileWrapper =
  fw_data :: bytes
  offset :: nat
  lastSync :: nat
  lastDrop :: nat
  chunkSize :: nat
  calls :: "sys_call list"

definition NewFileWrapper :: FileWrapper where
  "NewFileWrapper =
     \<lparr>fw_data = [], offset = 0, lastSync = 0, lastDrop = 0, chunkSize = 2 * 1024 * 1024, calls = []\<rparr>"

definition fw_Write :: "bytes \<Rightarrow> FileWrapper \<Rightarrow> FileWrapper" where
  "fw_Write p fw =
     (let fw1 = fw\<lparr>fw_data := fw_data fw @ p, offset := offset fw + length p\<rparr> in
      if chunkSize fw1 \<le> offset fw1 - lastSync fw1 then
        let fw2 = (if lastDrop fw1 < lastSync fw1
                   then fw1\<lparr>calls := calls fw1 @
                              [SyncWait (lastDrop fw1) (lastSync fw1 - lastDrop fw1),
                               DropPages (lastDrop fw1) (lastSync fw1 - lastDrop fw1)],
                            lastDrop := lastSync fw1\<rparr>
                   else fw1)
        in fw2\<lparr>calls := calls fw2 @ [StartWriteout (lastSync fw2) (offset fw2 - lastSync fw2)],
               lastSync := offset fw2\<rparr>
      else fw1)"

definition fw_Close :: "FileWrapper \<Rightarrow> FileWrapper" where
  "fw_Close fw =
     (let remain = offset fw - lastDrop fw in
      fw\<lparr>calls := calls fw @
           (if 0 < remain then [SyncWait (lastDrop fw) remain] else []) @ [Fsync] @
           (if 0 < remain then [DropPages (lastDrop fw) remain] else []) @ [CloseFd]\<rparr>)"

text \<open>The byte ranges evicted from the page cache, and those written back with a wait.\<close>

definition drop_ranges :: "sys_call list \<Rightarrow> (nat \<times> nat) list" where
  "drop_ranges cs = concat (map (\<lambda>c. case c of DropPages o' n \<Rightarrow> [(o', n)] | _ \<Rightarrow> []) cs)"

definition wait_ranges :: "sys_call list \<Rightarrow> (nat \<times> nat) list" where
  "wait_ranges cs = concat (map (\<lambda>c. case c of SyncWait o' n \<Rightarrow> [(o', n)] | _ \<Rightarrow> []) cs)"

text \<open>Ranges that follow each other without gap or overlap from \<open>a\<close> up to \<open>b\<close>.\<close>

fun tiles :: "nat \<Rightarrow> (nat \<times> nat) list \<Rightarrow> nat \<Rightarrow> bool" where
  "tiles a [] b \<longleftrightarrow> a = b"
| "tiles a ((o', n) # rs) b \<longleftrightarrow> o' = a \<and> 0 < n \<and> tiles (a + n) rs b"

text \<open>A path in the directory \<open>base\<close>: the elements of \<open>base\<close>, then elements that never climb.\<close>

definition confined :: "string \<Rightarrow> string \<Rightarrow> bool" where
  "confined base target \<longleftrightarrow> rooted target = rooted base \<and>
     (\<exists>rest. elements target = elements base @ rest \<and> ''..'' \<notin> set rest)"

definition fw_inv :: "FileWrapper \<Rightarrow> bool" where
  "fw_inv fw \<longleftrightarrow> offset fw = length (fw_data fw) \<and> lastDrop fw \<le> lastSync fw \<and> lastSync fw \<le> offset fw \<and>
     tiles 0 (drop_ranges (calls fw)) (lastDrop fw) \<and> wait_ranges (calls fw) = drop_ranges (calls fw)"

subsection \<open>Confinement\<close>

lemma elements_dotdot_prefix: "HasPrefix (render False (''..'' # es)) ''..''"
  by (cases es) (simp_all add: HasPrefix_def render_def)

lemma Join_two: "a \<noteq> [] \<Longrightarrow> filepath_Join [a, b] = filepath_Clean (a @ slash # b)"
  by (simp add: filepath_Join_def)

lemma fullPath_confined:
  assumes "baseDir \<noteq> []" "fullPath baseDir p = Inr target"
  shows "confined baseDir target"
proof -
  let ?base = "filepath_Clean baseDir" and ?p = "filepath_Clean p"
  have t: "target = filepath_Clean (?base @ slash # ?p)"
    and rel: "\<exists>rel. filepath_Rel ?base target = Some rel \<and> \<not> HasPrefix rel ''..''"
    using assms by (auto simp: fullPath_def Let_def Join_two split: if_splits option.splits)
  have root: "rooted target = rooted baseDir"
    using t rooted_append [of ?base "slash # ?p"] by simp
  obtain b u where bu: "strip_common (elements baseDir) (elements target) = (b, u)" by force
  have ok: "\<not> HasPrefix (render False (replicate (length b) ''..'' @ u)) ''..''"
    using rel root bu by (auto simp: filepath_Rel_def split: if_splits)
  have "b = []" using ok elements_dotdot_prefix by (cases b) auto
  then have el: "elements target = elements baseDir @ u" using strip_common_base bu by simp
  have "u = [] \<or> hd u \<noteq> ''..''" using ok \<open>b = []\<close> elements_dotdot_prefix by (cases u) auto
  then have "''..'' \<notin> set u"
    using clean_elems_tail [of "rooted target" "elements baseDir" u] elements_clean [of target] el by (cases "u = []") auto
  with el root show ?thesis by (auto simp: confined_def)
qed

lemma tiles_append: "tiles a (rs @ ss) b \<longleftrightarrow> (\<exists>c. tiles a rs c \<and> tiles c ss b)"
  by (induction rs arbitrary: a) auto

lemma ranges_append [simp]:
  "drop_ranges (cs @ ds) = drop_ranges cs @ drop_ranges ds"
  "wait_ranges (cs @ ds) = wait_ranges cs @ wait_ranges ds"
  by (simp_all add: drop_ranges_def wait_ranges_def)

lemma ranges_simps [simp]:
  "drop_ranges [] = []" "drop_ranges (DropPages a n # cs) = (a, n) # drop_ranges cs"
  "drop_ranges (SyncWait a n # cs) = drop_ranges cs" "drop_ranges (StartWriteout a n # cs) = drop_ranges cs"
  "drop_ranges (Fsync # cs) = drop_ranges cs" "drop_ranges (CloseFd # cs) = drop_ranges cs"
  "wait_ranges [] = []" "wait_ranges (SyncWait a n # cs) = (a, n) # wait_ranges cs"
  "wait_ranges (DropPages a n # cs) = wait_ranges cs" "wait_ranges (StartWriteout a n # cs) = wait_ranges cs"
  "wait_ranges (Fsync # cs) = wait_ranges cs" "wait_ranges (CloseFd # cs) = wait_ranges cs"
  by (simp_all add: drop_ranges_def wait_ranges_def)

lemma fw_inv_New: "fw_inv NewFileWrapper"
  by (simp add: fw_inv_def NewFileWrapper_def)

lemma fw_inv_Write: "fw_inv fw \<Longrightarrow> fw_inv (fw_Write p fw)"
  by (auto simp: fw_inv_def fw_Write_def Let_def tiles_append)

lemma fw_Close_tiles:
  assumes "fw_inv fw"
  shows "tiles 0 (drop_ranges (calls (fw_Close fw))) (length (fw_data fw)) \<and>
    wait_ranges (calls (fw_Close fw)) = drop_ranges (calls (fw_Close fw)) \<and>
    Fsync \<in> set (calls (fw_Close fw)) \<and> fw_data (fw_Close fw) = fw_data fw"
  using assms
  by (cases "lastDrop fw = offset fw") (auto simp: fw_Close_def Let_def fw_inv_def tiles_append)

lemma fw_inv_Writes: "fw_inv fw \<Longrightarrow> fw_inv (fold fw_Write ps fw) \<and> fw_data (fold fw_Write ps fw) = fw_data fw @ concat ps"
proof (induction ps arbitrary: fw)
  case (Cons p ps)
  moreover have "fw_data (fw_Write p fw) = fw_data fw @ p" by (auto simp: fw_Write_def Let_def)
  ultimately show ?case using fw_inv_Write by simp
qed simp

subsection \<open>Properties\<close>

text \<open>
  C14: Path confinement. With a base directory configured, every blob path that is accepted resolves
  to a target whose elements are those of the base directory followed by elements none of
  which climbs: no traversal, absolute path or drive letter gets out of the base directory.
\<close>

theorem fullPath_stays_inside:
  assumes "baseDir \<noteq> []" "fullPath baseDir p = Inr target"
  shows "confined baseDir target"
  using assms by (rule fullPath_confined)

theorem fullPath_stays_inside_witness:
  "fullPath ''rec/a'' ''x/../cam/f.mp4'' = Inr ''rec/a/cam/f.mp4'' \<and> confined ''rec/a'' ''rec/a/cam/f.mp4'' \<and>
   fullPath ''rec/a'' ''x/../../f.mp4'' = Inl EscapesBase"
proof -
  have f: "fullPath ''rec/a'' ''x/../cam/f.mp4'' = Inr ''rec/a/cam/f.mp4''"
    by (simp add: fullPath_def Let_def filepath_Clean_def elements_def rooted_def clean_step_def render_def
        HasPrefix_def Join_two filepath_Rel_def)
  moreover have "fullPath ''rec/a'' ''x/../../f.mp4'' = Inl EscapesBase"
    by (simp add: fullPath_def Let_def filepath_Clean_def elements_def rooted_def clean_step_def render_def
        HasPrefix_def Join_two filepath_Rel_def)
  ultimately show ?thesis using fullPath_stays_inside [OF _ f] by simp
qed



text \<open>
  Recording data is persisted and evicted exactly once. Over any sequence of writes and a
  final close, the ranges evicted from the page cache tile the file from its first to its last
  byte without gap or overlap, each was written back with a wait before, and the file holds
  the concatenation of what was written.
\<close>

theorem file_wrapper_tiles:
  fixes ps :: "bytes list"
  defines "fw \<equiv> fw_Close (fold fw_Write ps NewFileWrapper)"
  shows "fw_data fw = concat ps \<and> tiles 0 (drop_ranges (calls fw)) (length (concat ps)) \<and>
    wait_ranges (calls fw) = drop_ranges (calls fw) \<and> Fsync \<in> set (calls fw)"
proof -
  have "fw_inv (fold fw_Write ps NewFileWrapper)"
    "fw_data (fold fw_Write ps NewFileWrapper) = concat ps"
    using fw_inv_Writes [OF fw_inv_New] by (simp_all add: NewFileWrapper_def)
  then show ?thesis using fw_Close_tiles by (metis fw_def)
qed

end
