(* ===== verification/HLS_Playlist.thy ===== *)
theory HLS_Playlist
  imports Go_Fmt Timestamp
begin

text \<open>
  The text side of \<open>internal/hls/muxer.go\<close>: WebVTT cues for AI metadata and the rendering of the
  media and subtitle playlists. A metadata request is its presentation timestamp and its JSON
  encoding (the protobuf message is generated code).

  Shown: a cue is 300 ms long with every field in range, its printed times parse back, and
  the playlist's target duration exceeds every segment's duration.
\<close>

record metadata_req =
  Pts :: int
  req_json :: string

text \<open>Hours, minutes, seconds, milliseconds.\<close>

type_synonym hmsm = "int \<times> int \<times> int \<times> int"

definition cue_start :: "int \<Rightarrow> hmsm" where
  "cue_start localPts =
     (let ms = localPts sdiv 90; sec = ms sdiv 1000; ms' = ms smod 1000;
          minutes = sec sdiv 60; sec' = sec smod 60; hr = minutes sdiv 60; minutes' = minutes smod 60
      in (hr, minutes', sec', ms'))"

definition cue_end :: "hmsm \<Rightarrow> hmsm" where
  "cue_end = (\<lambda>(hr, minutes, sec, ms).
     let msEnd = ms + 300;
         (msEnd', secEnd) = (if 1000 \<le> msEnd then (msEnd - 1000, sec + 1) else (msEnd, sec));
         (secEnd', minEnd) = (if 60 \<le> secEnd then (secEnd - 60, minutes + 1) else (secEnd, minutes));
         (minEnd', hrEnd) = (if 60 \<le> minEnd then (minEnd - 60, hr + 1) else (minEnd, hr))
     in (hrEnd, minEnd', secEnd', msEnd'))"

definition fmt_hmsm :: "hmsm \<Rightarrow> string" where
  "fmt_hmsm = (\<lambda>(hr, minutes, sec, ms).
     fmt_0d 2 hr @ '':'' @ fmt_0d 2 minutes @ '':'' @ fmt_0d 2 sec @ ''.'' @ fmt_0d 3 ms)"

definition local_pts :: "int \<Rightarrow> metadata_req \<Rightarrow> int" where
  "local_pts segmentStartPts req =
     (if segmentStartPts < Pts req then s64 (Pts req - segmentStartPts) else 0)"

definition vtt_cue :: "int \<Rightarrow> metadata_req \<Rightarrow> string" where
  "vtt_cue segmentStartPts req =
     (let t = cue_start (local_pts segmentStartPts req) in
      fmt_hmsm t @ '' --> '' @ fmt_hmsm (cue_end t) @ ''\<newline>'' @ req_json req @ ''\<newline>\<newline>'')"

definition emptyVTTData :: string where
  "emptyVTTData = ''WEBVTT\<newline>\<newline>''"

definition build_vtt :: "int \<Rightarrow> metadata_req list \<Rightarrow> string" where
  "build_vtt segmentStart meta =
     (if meta = [] then emptyVTTData
      else let segmentStartPts = DurationTo90k segmentStart in
        ''WEBVTT\<newline>'' @ ''X-TIMESTAMP-MAP=MPEGTS:'' @ itoa segmentStartPts @ '',LOCAL:00:00:00.000\<newline>\<newline>'' @
        concat (map (vtt_cue segmentStartPts) meta))"

subsection \<open>Playlists\<close>

text \<open>What a playlist shows of a segment; durations are non-negative nanoseconds.\<close>

record seg_info =
  si_Name :: string
  si_Duration :: nat
  si_Disc :: bool

definition widen_max :: "seg_info \<Rightarrow> nat \<Rightarrow> nat" where
  "widen_max s maxDuration =
     (let d = float_int (Seconds (si_Duration s)) in if maxDuration < d then d else maxDuration)"

definition max_duration :: "seg_info list \<Rightarrow> nat" where
  "max_duration ss = fold widen_max ss 2"

definition playlist_head :: "seg_info list \<Rightarrow> nat \<Rightarrow> string" where
  "playlist_head ss seq =
     ''#EXTM3U\<newline>#EXT-X-VERSION:3\<newline>#EXT-X-TARGETDURATION:'' @ dec (max_duration ss + 1) @ ''\<newline>'' @
     ''#EXT-X-MEDIA-SEQUENCE:'' @ dec seq @ ''\<newline>''"

definition entry_head :: "seg_info \<Rightarrow> string" where
  "entry_head s =
     (if si_Disc s then ''#EXT-X-DISCONTINUITY\<newline>'' else []) @
     ''#EXTINF:'' @ fmt_f3 (Seconds (si_Duration s)) @ '',\<newline>''"

definition media_entry :: "seg_info \<Rightarrow> string" where
  "media_entry s = entry_head s @ si_Name s @ ''\<newline>''"

definition subs_entry :: "seg_info \<Rightarrow> string" where
  "subs_entry s = entry_head s @
     (if 3 < length (si_Name s) then take (length (si_Name s) - 3) (si_Name s) else []) @ ''.vtt\<newline>''"

definition media_playlist :: "seg_info list \<Rightarrow> nat \<Rightarrow> string" where
  "media_playlist ss seq = playlist_head ss seq @ concat (map media_entry ss)"

definition subs_playlist :: "seg_info list \<Rightarrow> nat \<Rightarrow> string" where
  "subs_playlist ss seq = playlist_head ss seq @ concat (map subs_entry ss)"

definition hms_ms :: "hmsm \<Rightarrow> int" where
  "hms_ms = (\<lambda>(h, m, s, ms). ((h * 60 + m) * 60 + s) * 1000 + ms)"

definition hms_ok :: "hmsm \<Rightarrow> bool" where
  "hms_ok = (\<lambda>(h, m, s, ms). 0 \<le> h \<and> 0 \<le> m \<and> m < 60 \<and> 0 \<le> s \<and> s < 60 \<and> 0 \<le> ms \<and> ms < 1000)"

subsection \<open>Cues\<close>

lemma cue_start_ok:
  assumes "0 \<le> p"
  shows "hms_ok (cue_start p)" "hms_ms (cue_start p) = p div 90"
proof -
  have nn: "0 \<le> p div 90" "0 \<le> p div 90 div 1000" "0 \<le> p div 90 div 1000 div 60"
    using assms by (simp_all add: pos_imp_zdiv_nonneg_iff)
  have eq: "cue_start p = (p div 90 div 1000 div 60 div 60, p div 90 div 1000 div 60 mod 60,
      p div 90 div 1000 mod 60, p div 90 mod 1000)"
    using nn assms by (simp add: cue_start_def Let_def sdiv_nonneg smod_nonneg)
  show "hms_ok (cue_start p)" using nn by (simp add: eq hms_ok_def pos_imp_zdiv_nonneg_iff)
  show "hms_ms (cue_start p) = p div 90" by (simp only: eq hms_ms_def prod.case div_mult_mod_eq)
qed

lemma cue_end_ok:
  assumes "hms_ok t"
  shows "hms_ok (cue_end t)" "hms_ms (cue_end t) = hms_ms t + 300"
  using assms by (auto simp: hms_ok_def hms_ms_def cue_end_def Let_def split: prod.splits)

lemma widen_max_ge: "m \<le> fold widen_max ss m"
proof (induction ss arbitrary: m)
  case (Cons s ss)
  have "m \<le> widen_max s m" by (simp add: widen_max_def Let_def)
  also note Cons.IH
  finally show ?case by simp
qed simp

lemma widen_max_bound: "s \<in> set ss \<Longrightarrow> float_int (Seconds (si_Duration s)) \<le> fold widen_max ss m"
proof (induction ss arbitrary: m)
  case (Cons q ss)
  show ?case
  proof (cases "s = q")
    case True
    have "float_int (Seconds (si_Duration s)) \<le> widen_max q m" using True by (simp add: widen_max_def Let_def)
    also note widen_max_ge
    finally show ?thesis by simp
  qed (use Cons in simp)
qed simp

lemma target_exceeds:
  assumes "s \<in> set ss"
  shows "si_Duration s < (max_duration ss + 1) * 1000000000"
proof -
  obtain m k where mk: "Seconds (si_Duration s) = (m, k)" by force
  have "si_Duration s div 1000000000 \<le> m div 2 ^ k"
    using Seconds_bounds(1) [OF mk] by (simp add: less_eq_div_iff_mult_less_eq)
  also have "\<dots> \<le> max_duration ss"
    using widen_max_bound [OF assms, of 2] mk by (simp add: max_duration_def float_int_def)
  finally have "si_Duration s div 1000000000 < max_duration ss + 1" by simp
  then show ?thesis by (simp only: div_less_iff_less_mult [of 1000000000] zero_less_numeral)
qed

lemma fmt_hmsm_fields:
  assumes "hms_ok (h, m, s, ms)"
  shows "fmt_hmsm (h, m, s, ms) = zero_pad 2 (dec (nat h)) @ '':'' @ zero_pad 2 (dec (nat m)) @ '':'' @
    zero_pad 2 (dec (nat s)) @ ''.'' @ zero_pad 3 (dec (nat ms))"
  using assms by (simp add: fmt_hmsm_def hms_ok_def fmt_0d_def)

subsection \<open>Properties\<close>

text \<open>The target duration a playlist announces exceeds the duration of each of its segments (the
  float conversions of \<open>Duration.Seconds\<close> included), as RFC 8216 asks of a playlist.\<close>

theorem playlist_target_bounds:
  assumes "s \<in> set ss"
  shows "\<exists>t rest. media_playlist ss seq = ''#EXTM3U\<newline>#EXT-X-VERSION:3\<newline>#EXT-X-TARGETDURATION:'' @ dec t @ ''\<newline>'' @ rest \<and>
    si_Duration s < t * 1000000000"
  using target_exceeds [OF assms] unfolding media_playlist_def playlist_head_def
  by (intro exI [of _ "max_duration ss + 1"] exI conjI) (simp_all only: append_assoc)

lemma playlist_target_bounds_witness:
  "\<exists>t rest. media_playlist [\<lparr>si_Name = ''stream_1.ts'', si_Duration = 4999999999, si_Disc = False\<rparr>] 1 =
     ''#EXTM3U\<newline>#EXT-X-VERSION:3\<newline>#EXT-X-TARGETDURATION:'' @ dec t @ ''\<newline>'' @ rest \<and> 4999999999 < t * 1000000000"
  using playlist_target_bounds
    [of "\<lparr>si_Name = ''stream_1.ts'', si_Duration = 4999999999, si_Disc = False\<rparr>" "[\<lparr>si_Name = ''stream_1.ts'', si_Duration = 4999999999, si_Disc = False\<rparr>]" 1]
  by simp

text \<open>A metadata cue starts at the event's offset from the segment's start (at zero for an event
  before it), in milliseconds, and lasts 300 ms; both times have their fields in range, whatever
  carries over from milliseconds to hours.\<close>

theorem vtt_cue_times:
  assumes "in_s64 (Pts req - start)"
  shows "\<exists>t u. vtt_cue start req = fmt_hmsm t @ '' --> '' @ fmt_hmsm u @ ''\<newline>'' @ req_json req @ ''\<newline>\<newline>'' \<and>
    hms_ok t \<and> hms_ok u \<and> hms_ms t = max 0 (Pts req - start) div 90 \<and> hms_ms u = hms_ms t + 300"
proof -
  have l: "local_pts start req = max 0 (Pts req - start)" using assms by (auto simp: local_pts_def s64_id)
  have t: "hms_ok (cue_start (local_pts start req))" "hms_ms (cue_start (local_pts start req)) = max 0 (Pts req - start) div 90"
    unfolding l by (rule cue_start_ok, simp)+
  show ?thesis
    using t cue_end_ok [OF t(1)]
    by (intro exI [of _ "cue_start (local_pts start req)"] exI [of _ "cue_end (cue_start (local_pts start req))"])
      (simp add: vtt_cue_def Let_def)
qed

lemma vtt_cue_times_witness:
  "\<exists>t u. vtt_cue 0 \<lparr>Pts = 323982000, req_json = ''{}''\<rparr> = fmt_hmsm t @ '' --> '' @ fmt_hmsm u @ ''\<newline>{}\<newline>\<newline>'' \<and>
     hms_ms t = 3599800 \<and> hms_ms u = 3600100"
proof -
  have "in_s64 (Pts \<lparr>Pts = 323982000, req_json = ''{}''\<rparr> - 0)" by (simp add: in_s64_def)
  from vtt_cue_times [OF this] obtain t u where
    "vtt_cue 0 \<lparr>Pts = 323982000, req_json = ''{}''\<rparr> = fmt_hmsm t @ '' --> '' @ fmt_hmsm u @ ''\<newline>{}\<newline>\<newline>''"
    "hms_ms t = 3599800" "hms_ms u = hms_ms t + 300" by (auto simp del: split_paired_Ex)
  then show ?thesis by (intro exI [of _ t] exI [of _ u]) simp
qed

end
