(* ===== verification/HLS_Muxer.thy ===== *)
theory HLS_Muxer
  imports HLS_Playlist RingBuffer Mpegts
begin

text \<open>
  The state machine of \<open>internal/hls/muxer.go\<close>. Segments and byte buffers are addresses in
  stores, because playlists, HTTP handlers and the buffer pool share them: a segment's data is
  an alias of the buffer it was muxed into (\<open>Alias\<close>), until the last reference is released and
  the buffer goes back to the pool for the next segment. The run loop's local variables are
  part of the state; one iteration of the loop, the watchdog, \<open>Stop\<close> and the handlers'
  \<open>AcquireSegment\<close> and \<open>Release\<close> are the steps. The MPEG-TS writer is a parameter. Choices of
  the run time (what the pool returns, the clock) are arguments.

  Shown: reference counting is exact, so a segment a handler holds keeps its bytes whatever
  the muxer does meanwhile and no buffer is ever used for two things at once; the playlist,
  the segment index and the media sequence always describe the same sliding window.
\<close>

type_synonym seg_id = nat
type_synonym buf_id = nat

datatype seg_data = NilData | Alias buf_id | Own bytes

record Segment =
  Name :: string
  Duration :: int
  Data :: seg_data
  seg_buf :: "buf_id option"
  refCount :: int
  IsDiscontinuity :: bool
  VTTData :: string

record 'w Muxer =
  targetDuration :: int
  maxSegments :: nat
  segments :: "seg_id list"
  segIndex :: "string \<rightharpoonup> seg_id"
  seqCount :: nat
  currentMeta :: "metadata_req list"
  lastFrameTime :: int
  needsDiscontinuity :: bool
  firstSegReady :: bool
  cachedPlaylist :: "string option"
  cachedSubsPlaylist :: "string option"
  segs :: "seg_id \<rightharpoonup> Segment"
  seg_fresh :: seg_id
  bufs :: "buf_id \<Rightarrow> bytes"
  bufferPool :: "buf_id list"
  buf_fresh :: buf_id
  currentBuf :: "buf_id option"
  tsWriter :: "'w option"
  segmentStart :: int
  m_vps :: "bytes option"
  m_sps :: "bytes option"
  m_pps :: "bytes option"
  frameCount :: nat

subsection \<open>Reference counting\<close>

definition Retain :: "seg_id \<Rightarrow> 'w Muxer \<Rightarrow> 'w Muxer" where
  "Retain i m = m\<lparr>segs := (segs m)(i := map_option (\<lambda>s. s\<lparr>refCount := refCount s + 1\<rparr>) (segs m i))\<rparr>"

definition Release :: "seg_id \<Rightarrow> 'w Muxer \<Rightarrow> 'w Muxer" where
  "Release i m =
     (case segs m i of
        None \<Rightarrow> m
      | Some s \<Rightarrow>
          let s1 = s\<lparr>refCount := refCount s - 1\<rparr> in
          if refCount s1 = 0 then
            (case seg_buf s1 of
               None \<Rightarrow> m\<lparr>segs := (segs m)(i \<mapsto> s1)\<rparr>
             | Some b \<Rightarrow> m\<lparr>bufs := (bufs m)(b := []), bufferPool := b # bufferPool m,
                 segs := (segs m)(i \<mapsto> s1\<lparr>seg_buf := None, Data := NilData\<rparr>)\<rparr>)
          else m\<lparr>segs := (segs m)(i \<mapsto> s1)\<rparr>)"

text \<open>The bytes a holder of the segment reads.\<close>

definition data_of :: "'w Muxer \<Rightarrow> Segment \<Rightarrow> bytes" where
  "data_of m s = (case Data s of NilData \<Rightarrow> [] | Alias b \<Rightarrow> bufs m b | Own bs \<Rightarrow> bs)"

subsection \<open>Construction\<close>

definition NewMuxer :: "int list \<Rightarrow> int \<Rightarrow> 'w Muxer" where
  "NewMuxer opts now =
     \<lparr>targetDuration = 2 * second,
      maxSegments = (case opts of n # _ \<Rightarrow> if 3 \<le> n then nat n else 3 | [] \<Rightarrow> 3),
      segments = [], segIndex = Map.empty, seqCount = 0, currentMeta = [], lastFrameTime = now,
      needsDiscontinuity = False, firstSegReady = False, cachedPlaylist = None, cachedSubsPlaylist = None,
      segs = Map.empty, seg_fresh = 0, bufs = (\<lambda>_. []), bufferPool = [], buf_fresh = 0,
      currentBuf = None, tsWriter = None, segmentStart = 0, m_vps = None, m_sps = None, m_pps = None,
      frameCount = 0\<rparr>"

subsection \<open>Playlists\<close>

definition info_of :: "Segment \<Rightarrow> seg_info" where
  "info_of s = \<lparr>si_Name = Name s, si_Duration = nat (Duration s), si_Disc = IsDiscontinuity s\<rparr>"

definition seg_list :: "'w Muxer \<Rightarrow> Segment list" where
  "seg_list m = map (\<lambda>i. the (segs m i)) (segments m)"

definition rebuildPlaylistsLocked :: "'w Muxer \<Rightarrow> 'w Muxer" where
  "rebuildPlaylistsLocked m =
     (if segments m = [] then m\<lparr>segIndex := Map.empty\<rparr>
      else
        let infos = map info_of (seg_list m);
            seq = u64 (seqCount m + 2 ^ 64 - length (segments m) + 1)
        in m\<lparr>segIndex := fold (\<lambda>i ix. ix(Name (the (segs m i)) \<mapsto> i)) (segments m) Map.empty,
             cachedPlaylist := Some (media_playlist infos seq),
             cachedSubsPlaylist := Some (subs_playlist infos seq)\<rparr>)"

subsection \<open>Adding segments\<close>

text \<open>Append, signal the first segment, keep the window, rebuild: shared by the run loop
  and the watchdog.\<close>

definition push_segment :: "Segment \<Rightarrow> 'w Muxer \<Rightarrow> 'w Muxer" where
  "push_segment seg m =
     (let m1 = m\<lparr>segs := (segs m)(seg_fresh m \<mapsto> seg), seg_fresh := seg_fresh m + 1,
                  segments := segments m @ [seg_fresh m], firstSegReady := True\<rparr>;
          m2 = (if maxSegments m1 < length (segments m1)
                then Release (hd (segments m1)) (m1\<lparr>segments := tl (segments m1)\<rparr>) else m1)
      in rebuildPlaylistsLocked m2)"

definition segment_name :: "nat \<Rightarrow> string" where
  "segment_name n = ''stream_'' @ dec n @ ''.ts''"

definition close_segment :: "int \<Rightarrow> buf_id \<Rightarrow> 'w Muxer \<Rightarrow> 'w Muxer" where
  "close_segment now_ts b m =
     (let vttData = build_vtt (segmentStart m) (currentMeta m);
          m1 = m\<lparr>currentMeta := [], seqCount := u64 (seqCount m + 1)\<rparr>;
          seg = \<lparr>Name = segment_name (seqCount m1), Duration = s64 (now_ts - segmentStart m1),
                 Data = Alias b, seg_buf = Some b, refCount = 1,
                 IsDiscontinuity = needsDiscontinuity m1, VTTData = vttData\<rparr>
      in (push_segment seg (m1\<lparr>needsDiscontinuity := False\<rparr>))\<lparr>currentBuf := None\<rparr>)"

text \<open>\<open>sync.Pool\<close>: \<open>Get\<close> may hand out any pooled buffer or a new one.\<close>

definition pool_get :: "buf_id option \<Rightarrow> 'w Muxer \<Rightarrow> buf_id \<times> 'w Muxer" where
  "pool_get pick m =
     (case pick of
        Some b \<Rightarrow> if b \<in> set (bufferPool m) then (b, m\<lparr>bufferPool := remove1 b (bufferPool m)\<rparr>)
                  else (buf_fresh m, m\<lparr>buf_fresh := buf_fresh m + 1\<rparr>)
      | None \<Rightarrow> (buf_fresh m, m\<lparr>buf_fresh := buf_fresh m + 1\<rparr>))"

definition open_segment :: "'w mpegts_ops \<Rightarrow> buf_id option \<Rightarrow> int \<Rightarrow> 'w Muxer \<Rightarrow> 'w Muxer" where
  "open_segment ops pick ts m =
     (case pool_get pick m of
        (b, m1) \<Rightarrow>
          let w = ts_new ops (if m_vps m1 \<noteq> None then TsH265 else TsH264)
          in m1\<lparr>currentBuf := Some b, tsWriter := Some w, bufs := (bufs m1)(b := ts_bytes ops w),
                segmentStart := ts\<rparr>)"

subsection \<open>One frame\<close>

definition nal_is_param :: "bool \<Rightarrow> bytes \<Rightarrow> bool" where
  "nal_is_param hevc n =
     (n \<noteq> [] \<and>
      (if hevc then let t = and (drop_bit 1 (hd n)) 0x3F in t = 32 \<or> t = 33 \<or> t = 34
       else let t = and (hd n) 0x1F in t = 7 \<or> t = 8))"

definition with_params :: "bool \<Rightarrow> bytes list \<Rightarrow> 'w Muxer \<Rightarrow> bytes list" where
  "with_params key nalus m =
     (case (m_sps m, m_pps m) of
        (Some sps, Some pps) \<Rightarrow>
          if key \<and> \<not> list_ex (nal_is_param (m_vps m \<noteq> None)) nalus
          then (case m_vps m of Some vps \<Rightarrow> [vps, sps, pps] | None \<Rightarrow> [sps, pps]) @ nalus
          else nalus
      | _ \<Rightarrow> nalus)"

definition write_frame :: "'w mpegts_ops \<Rightarrow> frame \<Rightarrow> 'w Muxer \<Rightarrow> 'w Muxer" where
  "write_frame ops f m =
     (case (currentBuf m, tsWriter m) of
        (Some b, Some w) \<Rightarrow>
          let pts = DurationTo90k (Timestamp f);
              w' = fst (ts_write ops w pts pts (IsKeyFrame f) (with_params (IsKeyFrame f) (NALUs f) m))
          in m\<lparr>tsWriter := Some w', bufs := (bufs m)(b := ts_bytes ops w')\<rparr>
      | _ \<Rightarrow> m)"

text \<open>The top of the loop: parameters are fetched while they are missing.\<close>

definition fetch_params :: "codec_params option \<Rightarrow> 'w Muxer \<Rightarrow> 'w Muxer" where
  "fetch_params p m =
     (if m_sps m = None \<or> m_pps m = None then
        (case p of Some q \<Rightarrow> m\<lparr>m_vps := VPS q, m_sps := SPS q, m_pps := PPS q\<rparr> | None \<Rightarrow> m)
      else m)"

text \<open>\<open>bytes.Equal\<close> does not distinguish nil from empty.\<close>

definition bytes_Equal :: "bytes option \<Rightarrow> bytes option \<Rightarrow> bool" where
  "bytes_Equal a b \<longleftrightarrow> (case a of None \<Rightarrow> [] | Some x \<Rightarrow> x) = (case b of None \<Rightarrow> [] | Some x \<Rightarrow> x)"

definition refresh_params :: "codec_params option \<Rightarrow> 'w Muxer \<Rightarrow> 'w Muxer" where
  "refresh_params p m =
     (case p of
        Some q \<Rightarrow>
          if SPS q \<noteq> None \<and>
             (\<not> bytes_Equal (m_sps m) (SPS q) \<or> \<not> bytes_Equal (m_pps m) (PPS q) \<or> \<not> bytes_Equal (m_vps m) (VPS q))
          then m\<lparr>m_vps := VPS q, m_sps := SPS q, m_pps := PPS q, needsDiscontinuity := True\<rparr>
          else m
      | None \<Rightarrow> m)"

definition touch_watchdog :: "int \<Rightarrow> frame \<Rightarrow> 'w Muxer \<Rightarrow> 'w Muxer" where
  "touch_watchdog now f m =
     (if IsKeyFrame f \<or> 25 \<le> frameCount m + 1 then m\<lparr>frameCount := 0, lastFrameTime := now\<rparr>
      else m\<lparr>frameCount := frameCount m + 1\<rparr>)"

text \<open>The three parts of an iteration: bookkeeping, cutting the finished segment, writing.\<close>

definition run_prep :: "codec_params option \<Rightarrow> codec_params option \<Rightarrow> int \<Rightarrow> frame \<Rightarrow> 'w Muxer \<Rightarrow> 'w Muxer" where
  "run_prep p0 p1 now f m =
     (let m1 = touch_watchdog now f (fetch_params p0 m) in if IsKeyFrame f then refresh_params p1 m1 else m1)"

definition run_cut :: "frame \<Rightarrow> 'w Muxer \<Rightarrow> 'w Muxer" where
  "run_cut f m =
     (case currentBuf m of
        Some b \<Rightarrow>
          if IsKeyFrame f \<and> targetDuration m \<le> s64 (Timestamp f - segmentStart m)
          then close_segment (Timestamp f) b m else m
      | None \<Rightarrow> m)"

definition run_write :: "'w mpegts_ops \<Rightarrow> buf_id option \<Rightarrow> frame \<Rightarrow> 'w Muxer \<Rightarrow> 'w Muxer" where
  "run_write ops pick f m =
     (if currentBuf m = None then
        if \<not> IsKeyFrame f then m else write_frame ops f (open_segment ops pick (Timestamp f) m)
      else write_frame ops f m)"

text \<open>One iteration of \<open>run\<close> that receives a frame. \<open>p0\<close> and \<open>p1\<close> are what \<open>GetCodecParams\<close>
  returns at its two calls.\<close>

definition run_frame ::
  "'w mpegts_ops \<Rightarrow> codec_params option \<Rightarrow> codec_params option \<Rightarrow> int \<Rightarrow> buf_id option \<Rightarrow> frame \<Rightarrow> 'w Muxer \<Rightarrow> 'w Muxer" where
  "run_frame ops p0 p1 now pick f m = run_write ops pick f (run_cut f (run_prep p0 p1 now f m))"

definition run_meta :: "codec_params option \<Rightarrow> metadata_req option \<Rightarrow> 'w Muxer \<Rightarrow> 'w Muxer" where
  "run_meta p0 req m =
     (let m1 = fetch_params p0 m in
      case req of Some r \<Rightarrow> m1\<lparr>currentMeta := currentMeta m1 @ [r]\<rparr> | None \<Rightarrow> m1)"

subsection \<open>Watchdog, stop and handlers\<close>

definition CheckWatchdog :: "int \<Rightarrow> 'w Muxer \<Rightarrow> 'w Muxer" where
  "CheckWatchdog now m =
     (if lastFrameTime m = 0 \<or> now - lastFrameTime m \<le> 5 * second then m
      else if 0 < lastFrameTime m \<and> segments m \<noteq> [] then
        let lastSeg = the (segs m (last (segments m)));
            m1 = m\<lparr>seqCount := u64 (seqCount m + 1)\<rparr>;
            seg = \<lparr>Name = segment_name (seqCount m1), Duration = Duration lastSeg,
                   Data = Own (data_of m lastSeg), seg_buf = None, refCount = 1,
                   IsDiscontinuity = True, VTTData = []\<rparr>
        in (push_segment seg m1)\<lparr>lastFrameTime := now, needsDiscontinuity := True\<rparr>
      else m)"

definition Muxer_Stop :: "'w Muxer \<Rightarrow> 'w Muxer" where
  "Muxer_Stop m = (fold Release (segments m) (m\<lparr>firstSegReady := True\<rparr>))\<lparr>segments := [], segIndex := Map.empty\<rparr>"

text \<open>What the awaiting part of \<open>GetPlaylist\<close> returns: \<open>None\<close> while neither the first segment
  nor a cancelled context wakes it.\<close>

definition GetPlaylist :: "bool \<Rightarrow> 'w Muxer \<Rightarrow> (string option \<times> 'w Muxer) option" where
  "GetPlaylist cancelled m =
     (case cachedPlaylist m of
        Some p \<Rightarrow> Some (Some p, m)
      | None \<Rightarrow>
          if segments m = [] \<and> \<not> firstSegReady m then
            (if cancelled then Some (None, m) else None)
          else if segments m = [] then Some (None, m)
          else let m1 = rebuildPlaylistsLocked m in Some (cachedPlaylist m1, m1))"

definition GetSubsPlaylist :: "'w Muxer \<Rightarrow> string \<times> 'w Muxer" where
  "GetSubsPlaylist m =
     (case cachedSubsPlaylist m of
        Some p \<Rightarrow> (p, m)
      | None \<Rightarrow>
          if segments m = [] then ([], m)
          else let m1 = rebuildPlaylistsLocked m in
            (case cachedSubsPlaylist m1 of Some p \<Rightarrow> (p, m1) | None \<Rightarrow> ([], m1)))"

definition AcquireSegment :: "string \<Rightarrow> 'w Muxer \<Rightarrow> (seg_id \<times> string) option \<times> 'w Muxer" where
  "AcquireSegment name m =
     (let isVTT = 4 < length name \<and> drop (length name - 4) name = ''.vtt'';
          tsName = (if isVTT then take (length name - 4) name @ ''.ts'' else name);
          seg = (case segIndex m tsName of
                   Some i \<Rightarrow> Some i
                 | None \<Rightarrow> find (\<lambda>i. Name (the (segs m i)) = tsName) (segments m))
      in case seg of
           None \<Rightarrow> (None, m)
         | Some i \<Rightarrow> (Some (i, if isVTT then ''text/vtt'' else ''video/mp2t''), Retain i m))"

text \<open>The deprecated copying variant: acquire, copy, release.\<close>

definition GetSegment :: "string \<Rightarrow> 'w Muxer \<Rightarrow> (bytes + string) option \<times> 'w Muxer" where
  "GetSegment name m =
     (case AcquireSegment name m of
        (None, m1) \<Rightarrow> (None, m1)
      | (Some (i, mime), m1) \<Rightarrow>
          let s = the (segs m1 i) in
          (Some (if mime = ''text/vtt'' then Inr (VTTData s) else Inl (data_of m1 s)), Release i m1))"

subsection \<open>Ownership and reference counts\<close>

text \<open>A segment with a buffer is referenced and its data is that buffer; without one its data
  is no alias.\<close>

definition seg_ok :: "Segment \<Rightarrow> bool" where
  "seg_ok s \<longleftrightarrow> (\<forall>b. seg_buf s = Some b \<longrightarrow> 0 < refCount s \<and> Data s = Alias b) \<and>
     (seg_buf s = None \<longrightarrow> (\<forall>b. Data s \<noteq> Alias b))"

definition live_buf :: "'w Muxer \<Rightarrow> buf_id \<Rightarrow> bool" where
  "live_buf m b \<longleftrightarrow> (\<exists>i s. segs m i = Some s \<and> seg_buf s = Some b)"

text \<open>\<open>c i\<close> is the number of references to segment \<open>i\<close>; a buffer belongs to at most one
  segment, to the segment being written, or to the pool.\<close>

definition arc_core :: "'w Muxer \<Rightarrow> (seg_id \<Rightarrow> nat) \<Rightarrow> bool" where
  "arc_core m c \<longleftrightarrow>
     (\<forall>i. segs m i = None \<longrightarrow> c i = 0) \<and>
     (\<forall>i s. segs m i = Some s \<longrightarrow> i < seg_fresh m \<and> refCount s = int (c i) \<and> seg_ok s) \<and>
     (\<forall>i j s t b. segs m i = Some s \<and> segs m j = Some t \<and> seg_buf s = Some b \<and> seg_buf t = Some b \<longrightarrow> i = j) \<and>
     distinct (bufferPool m) \<and>
     (\<forall>b\<in>set (bufferPool m). b < buf_fresh m \<and> \<not> live_buf m b \<and> currentBuf m \<noteq> Some b) \<and>
     (\<forall>b. live_buf m b \<longrightarrow> b < buf_fresh m \<and> currentBuf m \<noteq> Some b) \<and>
     (\<forall>b. currentBuf m = Some b \<longrightarrow> b < buf_fresh m)"

text \<open>The window holds one reference to each of its segments, handlers hold \<open>h\<close>.\<close>

definition refs :: "'w Muxer \<Rightarrow> (seg_id \<Rightarrow> nat) \<Rightarrow> seg_id \<Rightarrow> nat" where
  "refs m h i = h i + (if i \<in> set (segments m) then 1 else 0)"

definition arc_inv :: "'w Muxer \<Rightarrow> (seg_id \<Rightarrow> nat) \<Rightarrow> bool" where
  "arc_inv m h \<longleftrightarrow> distinct (segments m) \<and> arc_core m (refs m h)"

text \<open>What a holder of a segment observes is unchanged.\<close>

definition keeps :: "(seg_id \<Rightarrow> nat) \<Rightarrow> 'w Muxer \<Rightarrow> 'w Muxer \<Rightarrow> bool" where
  "keeps h m m' \<longleftrightarrow> (\<forall>i s. 0 < h i \<and> segs m i = Some s \<longrightarrow>
     (\<exists>s'. segs m' i = Some s' \<and> data_of m' s' = data_of m s \<and> Name s' = Name s \<and> VTTData s' = VTTData s))"

text \<open>The sliding window: consecutive numbers, an index of exactly its segments, and playlists
  rendered from them.\<close>

definition win_inv :: "'w Muxer \<Rightarrow> bool" where
  "win_inv m \<longleftrightarrow>
     3 \<le> maxSegments m \<and> length (segments m) \<le> maxSegments m \<and>
     length (segments m) \<le> seqCount m \<and> seqCount m < 2 ^ 64 \<and>
     map Name (seg_list m) = map segment_name [seqCount m + 1 - length (segments m)..<seqCount m + 1] \<and>
     (\<forall>n i. segIndex m n = Some i \<longleftrightarrow> i \<in> set (segments m) \<and> Name (the (segs m i)) = n) \<and>
     (segments m \<noteq> [] \<longrightarrow>
        cachedPlaylist m = Some (media_playlist (map info_of (seg_list m)) (seqCount m + 1 - length (segments m))) \<and>
        cachedSubsPlaylist m = Some (subs_playlist (map info_of (seg_list m)) (seqCount m + 1 - length (segments m))))"

text \<open>The muxer with its HTTP handlers: \<open>held\<close> counts the references they hold.\<close>

record 'w mux_sys =
  mx :: "'w Muxer"
  held :: "seg_id \<Rightarrow> nat"

inductive mux_step :: "'w mpegts_ops \<Rightarrow> 'w mux_sys \<Rightarrow> 'w mux_sys \<Rightarrow> bool" for ops where
  s_frame: "seqCount (mx s) + 1 < 2 ^ 64 \<Longrightarrow>
    mux_step ops s (s\<lparr>mx := run_frame ops p0 p1 now pick f (mx s)\<rparr>)"
| s_meta: "mux_step ops s (s\<lparr>mx := run_meta p0 req (mx s)\<rparr>)"
| s_watchdog: "seqCount (mx s) + 1 < 2 ^ 64 \<Longrightarrow> mux_step ops s (s\<lparr>mx := CheckWatchdog now (mx s)\<rparr>)"
| s_playlist: "GetPlaylist cancelled (mx s) = Some (r, m') \<Longrightarrow> mux_step ops s (s\<lparr>mx := m'\<rparr>)"
| s_subs: "GetSubsPlaylist (mx s) = (r, m') \<Longrightarrow> mux_step ops s (s\<lparr>mx := m'\<rparr>)"
| s_acquire: "AcquireSegment name (mx s) = (Some (i, mime), m') \<Longrightarrow>
    mux_step ops s (s\<lparr>mx := m', held := (held s)(i := held s i + 1)\<rparr>)"
| s_release: "0 < held s i \<Longrightarrow>
    mux_step ops s (s\<lparr>mx := Release i (mx s), held := (held s)(i := held s i - 1)\<rparr>)"
| s_stop: "mux_step ops s (s\<lparr>mx := Muxer_Stop (mx s)\<rparr>)"

inductive mux_reach :: "'w mpegts_ops \<Rightarrow> 'w mux_sys \<Rightarrow> bool" for ops where
  mux_start: "mux_reach ops \<lparr>mx = NewMuxer opts now, held = (\<lambda>_. 0)\<rparr>"
| mux_next: "mux_reach ops s \<Longrightarrow> mux_step ops s t \<Longrightarrow> mux_reach ops t"

text \<open>A concrete run: a writer that concatenates NAL units, keyframes two seconds apart.\<close>

definition demo_ops :: "bytes mpegts_ops" where
  "demo_ops = \<lparr>ts_new = (\<lambda>_. [0x47]), ts_write = (\<lambda>w _ _ _ us. (w @ concat us, True)), ts_bytes = (\<lambda>w. w)\<rparr>"

definition demo_frame :: "nat \<Rightarrow> frame" where
  "demo_frame k = \<lparr>Timestamp = int k * 2 * second, IsKeyFrame = True, NALUs = [[0x65, word_of_nat k]]\<rparr>"

definition demo_params :: codec_params where
  "demo_params = \<lparr>VPS = None, SPS = Some [0x67], PPS = Some [0x68]\<rparr>"

definition demo_mux :: "nat \<Rightarrow> bytes Muxer" where
  "demo_mux n = fold (\<lambda>k. run_frame demo_ops (Some demo_params) None 1 None (demo_frame k)) [0..<n] (NewMuxer [] 1)"

text \<open>What is needed of a new segment's buffer: nobody else has it.\<close>

definition fresh_seg :: "'w Muxer \<Rightarrow> Segment \<Rightarrow> bool" where
  "fresh_seg m seg \<longleftrightarrow> refCount seg = 1 \<and>
     (case seg_buf seg of
        Some b \<Rightarrow> Data seg = Alias b \<and> b < buf_fresh m \<and> \<not> live_buf m b \<and> b \<notin> set (bufferPool m) \<and> currentBuf m \<noteq> Some b
      | None \<Rightarrow> (\<forall>b. Data seg \<noteq> Alias b))"

definition added :: "Segment \<Rightarrow> 'w Muxer \<Rightarrow> 'w Muxer" where
  "added seg m = m\<lparr>segs := (segs m)(seg_fresh m \<mapsto> seg), seg_fresh := seg_fresh m + 1,
     segments := segments m @ [seg_fresh m], firstSegReady := True\<rparr>"

subsection \<open>Primitive steps\<close>

lemma arc_coreD:
  assumes "arc_core m c"
  shows "segs m i = None \<Longrightarrow> c i = 0"
    and "segs m i = Some s \<Longrightarrow> i < seg_fresh m" and "segs m i = Some s \<Longrightarrow> refCount s = int (c i)"
    and "segs m i = Some s \<Longrightarrow> seg_ok s"
    and "segs m i = Some s \<Longrightarrow> segs m j = Some t \<Longrightarrow> seg_buf s = Some b \<Longrightarrow> seg_buf t = Some b \<Longrightarrow> i = j"
    and "distinct (bufferPool m)"
    and "b \<in> set (bufferPool m) \<Longrightarrow> b < buf_fresh m \<and> \<not> live_buf m b \<and> currentBuf m \<noteq> Some b"
    and "live_buf m b \<Longrightarrow> b < buf_fresh m \<and> currentBuf m \<noteq> Some b"
    and "currentBuf m = Some b \<Longrightarrow> b < buf_fresh m"
  using assms unfolding arc_core_def by blast+

lemmas arc_core_dests = arc_coreD(1-5,7-9)

lemma arc_coreI:
  assumes "\<And>i. segs m i = None \<Longrightarrow> c i = 0"
    and "\<And>i s. segs m i = Some s \<Longrightarrow> i < seg_fresh m \<and> refCount s = int (c i) \<and> seg_ok s"
    and "\<And>i j s t b. segs m i = Some s \<Longrightarrow> segs m j = Some t \<Longrightarrow> seg_buf s = Some b \<Longrightarrow> seg_buf t = Some b \<Longrightarrow> i = j"
    and "distinct (bufferPool m)"
    and "\<And>b. b \<in> set (bufferPool m) \<Longrightarrow> b < buf_fresh m \<and> \<not> live_buf m b \<and> currentBuf m \<noteq> Some b"
    and "\<And>b. live_buf m b \<Longrightarrow> b < buf_fresh m \<and> currentBuf m \<noteq> Some b"
    and "\<And>b. currentBuf m = Some b \<Longrightarrow> b < buf_fresh m"
  shows "arc_core m c"
  using assms unfolding arc_core_def by blast

text \<open>Only the stores, the pool and the current buffer matter.\<close>

lemma arc_core_cong:
  assumes "segs m' = segs m" "seg_fresh m' = seg_fresh m" "bufferPool m' = bufferPool m"
    "buf_fresh m' = buf_fresh m" "currentBuf m' = currentBuf m"
  shows "arc_core m' c = arc_core m c"
  using assms by (simp add: arc_core_def live_buf_def)

lemma arc_core_new: "arc_core (NewMuxer opts now) (\<lambda>_. 0)"
  by (simp add: arc_core_def NewMuxer_def live_buf_def)

lemma live_buf_upd:
  assumes "segs m i = Some s" "seg_buf s' = seg_buf s"
  shows "live_buf (m\<lparr>segs := (segs m)(i \<mapsto> s')\<rparr>) b = live_buf m b"
proof
  assume "live_buf m b"
  then obtain j t where "segs m j = Some t" "seg_buf t = Some b" by (auto simp: live_buf_def)
  with assms show "live_buf (m\<lparr>segs := (segs m)(i \<mapsto> s')\<rparr>) b"
    unfolding live_buf_def by (cases "j = i") (intro exI [of _ j], auto)+
qed (use assms in \<open>auto simp: live_buf_def split: if_splits\<close>)

lemma arc_core_retain:
  assumes "arc_core m c" "segs m i \<noteq> None"
  shows "arc_core (Retain i m) (c(i := c i + 1))"
proof -
  obtain s where s: "segs m i = Some s" using assms(2) by blast
  let ?s = "s\<lparr>refCount := refCount s + 1\<rparr>"
  have "live_buf (Retain i m) b = live_buf m b" for b
    using live_buf_upd [OF s, of ?s b] s by (simp add: Retain_def)
  moreover have "seg_ok ?s" using arc_coreD(4) [OF assms(1) s] by (auto simp: seg_ok_def)
  ultimately show ?thesis
    using assms s by (auto simp: arc_core_def Retain_def split: if_splits)
qed

lemma Release_cases:
  assumes "arc_core m c" "0 < c i"
  obtains (free) s b where "segs m i = Some s" "c i = 1" "seg_buf s = Some b" "Data s = Alias b"
      "Release i m = m\<lparr>bufs := (bufs m)(b := []), bufferPool := b # bufferPool m,
         segs := (segs m)(i \<mapsto> s\<lparr>refCount := 0, seg_buf := None, Data := NilData\<rparr>)\<rparr>"
  | (keep) s where "segs m i = Some s" "c i = 1 \<longrightarrow> seg_buf s = None"
      "Release i m = m\<lparr>segs := (segs m)(i \<mapsto> s\<lparr>refCount := int (c i) - 1\<rparr>)\<rparr>"
proof -
  obtain s where s: "segs m i = Some s" using arc_coreD(1) [OF assms(1), of i] assms(2) by fastforce
  have rc: "refCount s = int (c i)" "seg_ok s" using arc_coreD(3,4) [OF assms(1) s] by simp_all
  show thesis
  proof (cases "c i = 1 \<and> seg_buf s \<noteq> None")
    case True
    then obtain b where "seg_buf s = Some b" by blast
    with True rc s show thesis
      by (intro free [of s b]) (auto simp: Release_def Let_def seg_ok_def)
  next
    case False
    with rc s show thesis
      by (intro keep [of s]) (auto simp: Release_def Let_def split: option.splits)
  qed
qed

lemma arc_core_release:
  assumes "arc_core m c" "0 < c i"
  shows "arc_core (Release i m) (c(i := c i - 1))"
  using assms
proof (cases rule: Release_cases)
  case (free s b)
  let ?m = "m\<lparr>bufs := (bufs m)(b := []), bufferPool := b # bufferPool m,
      segs := (segs m)(i \<mapsto> s\<lparr>refCount := 0, seg_buf := None, Data := NilData\<rparr>)\<rparr>"
  have lb: "live_buf m b" using free by (auto simp: live_buf_def)
  have live: "live_buf ?m b' \<longleftrightarrow> live_buf m b' \<and> b' \<noteq> b" for b'
  proof
    assume "live_buf ?m b'"
    then obtain j t where t: "j \<noteq> i" "segs m j = Some t" "seg_buf t = Some b'"
      by (auto simp: live_buf_def split: if_splits)
    then show "live_buf m b' \<and> b' \<noteq> b"
      using arc_coreD(5) [OF assms(1) free(1) t(2) free(3)] by (auto simp: live_buf_def)
  next
    assume "live_buf m b' \<and> b' \<noteq> b"
    then obtain j t where "segs m j = Some t" "seg_buf t = Some b'" "b' \<noteq> b"
      by (auto simp: live_buf_def)
    moreover from this have "j \<noteq> i" using free(1,3) by auto
    ultimately show "live_buf ?m b'" by (auto simp: live_buf_def)
  qed
  have "b \<notin> set (bufferPool m)" using arc_coreD(7) [OF assms(1)] lb by blast
  moreover have "seg_ok (s\<lparr>refCount := 0, seg_buf := None, Data := NilData\<rparr>)" by (simp add: seg_ok_def)
  ultimately have "arc_core ?m (c(i := c i - 1))"
    using assms free live lb
    by (intro arc_coreI) (auto dest: arc_core_dests [OF assms(1)] simp: arc_coreD(6) [OF assms(1)] split: if_splits)
  then show ?thesis using free by simp
next
  case (keep s)
  let ?s = "s\<lparr>refCount := int (c i) - 1\<rparr>"
  have "live_buf (m\<lparr>segs := (segs m)(i \<mapsto> ?s)\<rparr>) b = live_buf m b" for b
    using keep(1) by (intro live_buf_upd) simp_all
  moreover have "seg_ok ?s"
    using arc_coreD(4) [OF assms(1) keep(1)] keep(2) assms(2) by (auto simp: seg_ok_def)
  ultimately have "arc_core (m\<lparr>segs := (segs m)(i \<mapsto> ?s)\<rparr>) (c(i := c i - 1))"
    using assms keep
    by (intro arc_coreI) (auto dest: arc_core_dests [OF assms(1)] simp: arc_coreD(6) [OF assms(1)] split: if_splits)
  then show ?thesis using keep by simp
qed

lemma keeps_release:
  assumes "arc_core m c" "0 < c i" "\<And>j. 0 < h j \<Longrightarrow> 0 < (c(i := c i - 1)) j"
  shows "keeps h m (Release i m)"
  using assms(1,2)
proof (cases rule: Release_cases)
  case (free s b)
  have "data_of (Release i m) t = data_of m t" if "segs m j = Some t" "j \<noteq> i" for j t
  proof (cases "seg_buf t")
    case None
    then show ?thesis using free arc_coreD(4) [OF assms(1) that(1)]
      by (cases "Data t") (auto simp: data_of_def seg_ok_def)
  next
    case (Some b')
    then have "b' \<noteq> b" "Data t = Alias b'"
      using arc_coreD(5) [OF assms(1) free(1) that(1) free(3)] that(2) arc_coreD(4) [OF assms(1) that(1)]
      by (auto simp: seg_ok_def)
    then show ?thesis using free by (simp add: data_of_def)
  qed
  moreover have "h i = 0" using assms(3) [of i] free by (cases "h i") auto
  ultimately show ?thesis using free by (auto simp: keeps_def)
next
  case (keep s)
  then show ?thesis by (auto simp: keeps_def data_of_def split: seg_data.splits)
qed

lemma keeps_refl: "keeps h m m"
  by (auto simp: keeps_def)

lemma keeps_trans: "keeps h m m1 \<Longrightarrow> keeps h m1 m2 \<Longrightarrow> keeps h m m2"
  unfolding keeps_def by (metis (no_types, lifting))

lemma keeps_cong:
  assumes "segs m' = segs m" "bufs m' = bufs m"
  shows "keeps h m m'"
  using assms by (auto simp: keeps_def data_of_def split: seg_data.splits)

subsection \<open>Adding a segment\<close>

lemma rebuild_simps [simp]:
  "segs (rebuildPlaylistsLocked m) = segs m" "seg_fresh (rebuildPlaylistsLocked m) = seg_fresh m"
  "bufferPool (rebuildPlaylistsLocked m) = bufferPool m" "buf_fresh (rebuildPlaylistsLocked m) = buf_fresh m"
  "currentBuf (rebuildPlaylistsLocked m) = currentBuf m" "bufs (rebuildPlaylistsLocked m) = bufs m"
  "segments (rebuildPlaylistsLocked m) = segments m" "maxSegments (rebuildPlaylistsLocked m) = maxSegments m"
  "seqCount (rebuildPlaylistsLocked m) = seqCount m"
  by (simp_all add: rebuildPlaylistsLocked_def Let_def)

lemma Release_simps [simp]:
  "segments (Release i m) = segments m" "maxSegments (Release i m) = maxSegments m"
  "seqCount (Release i m) = seqCount m" "seg_fresh (Release i m) = seg_fresh m"
  "segIndex (Release i m) = segIndex m" "currentBuf (Release i m) = currentBuf m"
  "cachedPlaylist (Release i m) = cachedPlaylist m" "cachedSubsPlaylist (Release i m) = cachedSubsPlaylist m"
  by (auto simp: Release_def Let_def split: option.splits)

lemma seg_fresh_None: "arc_core m c \<Longrightarrow> segs m (seg_fresh m) = None"
  using arc_coreD(2) by (metis less_irrefl not_None_eq)

lemma arc_core_added:
  assumes "arc_core m c" "fresh_seg m seg"
  shows "arc_core (added seg m) (c(seg_fresh m := 1))"
proof -
  note n = seg_fresh_None [OF assms(1)]
  have live: "live_buf (added seg m) b \<longleftrightarrow> live_buf m b \<or> seg_buf seg = Some b" for b
  proof (cases "live_buf m b")
    case True
    then obtain i s where "segs m i = Some s" "seg_buf s = Some b" by (auto simp: live_buf_def)
    moreover from this n have "i \<noteq> seg_fresh m" by auto
    ultimately have "live_buf (added seg m) b" unfolding live_buf_def by (intro exI [of _ i]) (simp add: added_def)
    with True show ?thesis by simp
  qed (auto simp: live_buf_def added_def split: if_splits)
  have own: "\<not> live_buf m b" "b < buf_fresh m" "b \<notin> set (bufferPool m)" "currentBuf m \<noteq> Some b"
    if "seg_buf seg = Some b" for b using assms(2) that by (simp_all add: fresh_seg_def)
  have old: "segs m i = Some s \<and> i \<noteq> seg_fresh m \<or> i = seg_fresh m \<and> s = seg"
    if "segs (added seg m) i = Some s" for i s using that by (simp add: added_def split: if_splits)
  have seg: "refCount seg = 1" "seg_ok seg"
    using assms(2) by (auto simp: fresh_seg_def seg_ok_def split: option.splits)
  show ?thesis
  proof (rule arc_coreI)
    show "(c(seg_fresh m := 1)) i = 0" if "segs (added seg m) i = None" for i
      using that arc_coreD(1) [OF assms(1)] by (simp add: added_def split: if_splits)
    show "i < seg_fresh (added seg m) \<and> refCount s = int ((c(seg_fresh m := 1)) i) \<and> seg_ok s"
      if "segs (added seg m) i = Some s" for i s
      using old [OF that] arc_coreD(2-4) [OF assms(1), of i s] seg by (auto simp: added_def)
    show "i = j" if "segs (added seg m) i = Some s" "segs (added seg m) j = Some t"
      "seg_buf s = Some b" "seg_buf t = Some b" for i j s t b
      using old [OF that(1)] old [OF that(2)] that(3,4) own(1) [of b] arc_coreD(5) [OF assms(1), of i s j t b]
      unfolding live_buf_def by blast
    show "distinct (bufferPool (added seg m))" using arc_coreD(6) [OF assms(1)] by (simp add: added_def)
    show "b < buf_fresh (added seg m) \<and> \<not> live_buf (added seg m) b \<and> currentBuf (added seg m) \<noteq> Some b"
      if "b \<in> set (bufferPool (added seg m))" for b
      using that own(3) [of b] arc_core_dests [OF assms(1)] by (auto simp: live) (simp_all add: added_def)
    show "b < buf_fresh (added seg m) \<and> currentBuf (added seg m) \<noteq> Some b" if "live_buf (added seg m) b" for b
      using that own(2,4) [of b] arc_core_dests [OF assms(1)] by (auto simp: live) (simp_all add: added_def)
    show "b < buf_fresh (added seg m)" if "currentBuf (added seg m) = Some b" for b
      using that arc_core_dests [OF assms(1)] by (simp add: added_def)
  qed
qed

lemma keeps_added:
  assumes "arc_core m c" shows "keeps h m (added seg m)"
  using seg_fresh_None [OF assms] by (auto simp: keeps_def added_def data_of_def split: seg_data.splits)

lemma push_segment_eq:
  "push_segment seg m = rebuildPlaylistsLocked
     (if maxSegments m < length (segments m) + 1
      then Release (hd (segments (added seg m))) ((added seg m)\<lparr>segments := tl (segments (added seg m))\<rparr>)
      else added seg m)"
  by (simp add: push_segment_def added_def Let_def)

lemma refs_cong: "segments m' = segments m \<Longrightarrow> refs m' h = refs m h"
  by (simp add: refs_def fun_eq_iff)

lemma refs_added:
  assumes "arc_core m (refs m h)" shows "refs (added seg m) h = (refs m h)(seg_fresh m := 1)"
proof -
  have "h (seg_fresh m) = 0"
    using arc_coreD(1) [OF assms seg_fresh_None [OF assms]] by (simp add: refs_def)
  then show ?thesis by (auto simp: refs_def added_def fun_eq_iff)
qed

lemma refs_tl:
  assumes "distinct (segments m)" "segments m \<noteq> []"
  shows "refs (m\<lparr>segments := tl (segments m)\<rparr>) h = (refs m h)(hd (segments m) := refs m h (hd (segments m)) - 1)"
  using assms by (cases "segments m") (auto simp: refs_def fun_eq_iff)

lemma arc_inv_push:
  assumes "arc_inv m h" "fresh_seg m seg"
  shows "arc_inv (push_segment seg m) h \<and> keeps h m (push_segment seg m)"
proof -
  let ?m1 = "added seg m" and ?i = "hd (segments (added seg m))"
  have core: "arc_core m (refs m h)" and dist: "distinct (segments m)" using assms(1) by (simp_all add: arc_inv_def)
  have "seg_fresh m \<notin> set (segments m)"
    using arc_coreD(1) [OF core seg_fresh_None [OF core]] by (auto simp: refs_def split: if_splits)
  then have d1: "distinct (segments ?m1)" "segments ?m1 \<noteq> []" using dist by (simp_all add: added_def)
  have c1: "arc_core ?m1 (refs ?m1 h)" "keeps h m ?m1"
    using arc_core_added [OF core assms(2)] refs_added [OF core] keeps_added [OF core] by simp_all
  let ?m2 = "?m1\<lparr>segments := tl (segments ?m1)\<rparr>"
  have c2: "arc_core ?m2 (refs ?m1 h)" using c1(1) by (subst arc_core_cong [of ?m2 ?m1]) simp_all
  have pos: "0 < refs ?m1 h ?i" using d1(2) by (simp add: refs_def)
  have r: "arc_core (Release ?i ?m2) (refs (Release ?i ?m2) h)"
    using arc_core_release [OF c2 pos] refs_tl [OF d1, of h] refs_cong [of "Release ?i ?m2" ?m2 h] by simp
  have k: "keeps h ?m2 (Release ?i ?m2)"
    using d1(2) by (intro keeps_release [OF c2 pos]) (auto simp: refs_def)
  have "keeps h ?m1 ?m2" by (rule keeps_cong) simp_all
  then have k2: "keeps h m (Release ?i ?m2)" using c1(2) k keeps_trans by blast
  have fin: "arc_core (rebuildPlaylistsLocked m') (refs (rebuildPlaylistsLocked m') h) = arc_core m' (refs m' h)"
    "keeps h m m' \<Longrightarrow> keeps h m (rebuildPlaylistsLocked m')" for m' :: "'a Muxer"
    using keeps_trans [OF _ keeps_cong [of "rebuildPlaylistsLocked m'" m']] arc_core_cong [of "rebuildPlaylistsLocked m'" m']
      refs_cong [of "rebuildPlaylistsLocked m'" m' h] by simp_all
  show ?thesis
    using c1 r k2 d1 fin by (auto simp: push_segment_eq arc_inv_def distinct_tl)
qed

subsection \<open>The run loop keeps ownership exact\<close>

lemma Release_currentBuf: "(Release i m)\<lparr>currentBuf := x\<rparr> = Release i (m\<lparr>currentBuf := x\<rparr>)"
  by (cases "segs m i"; cases "seg_buf (the (segs m i))") (simp_all add: Release_def Let_def)

lemma rebuild_currentBuf:
  "(rebuildPlaylistsLocked m)\<lparr>currentBuf := x\<rparr> = rebuildPlaylistsLocked (m\<lparr>currentBuf := x\<rparr>)"
  by (simp add: rebuildPlaylistsLocked_def seg_list_def Let_def)

lemma added_currentBuf:
  "(added seg m)\<lparr>currentBuf := x\<rparr> = added seg (m\<lparr>currentBuf := x\<rparr>)"
  "(added seg m)\<lparr>segments := y, currentBuf := x\<rparr> = (added seg (m\<lparr>currentBuf := x\<rparr>))\<lparr>segments := y\<rparr>"
  "segments (added seg (m\<lparr>currentBuf := x\<rparr>)) = segments (added seg m)"
  by (simp_all add: added_def)

lemma push_segment_currentBuf:
  "(push_segment seg m)\<lparr>currentBuf := x\<rparr> = push_segment seg (m\<lparr>currentBuf := x\<rparr>)"
  unfolding push_segment_eq rebuild_currentBuf by (simp add: Release_currentBuf added_currentBuf)

lemma arc_inv_cong:
  assumes "segs m' = segs m" "seg_fresh m' = seg_fresh m" "bufferPool m' = bufferPool m"
    "buf_fresh m' = buf_fresh m" "currentBuf m' = currentBuf m" "segments m' = segments m"
  shows "arc_inv m' h = arc_inv m h"
  using arc_core_cong [OF assms(1-5)] refs_cong [OF assms(6)] assms(6) by (simp add: arc_inv_def)

lemma arc_inv_core: "arc_inv m h \<Longrightarrow> arc_core m (refs m h)"
  by (simp add: arc_inv_def)

lemma arc_inv_drop:
  assumes "arc_inv m h" shows "arc_inv (m\<lparr>currentBuf := None\<rparr>) h"
  using assms by (simp add: arc_inv_def arc_core_def live_buf_def refs_def [abs_def])

lemma close_segment_ok:
  assumes "arc_inv m h" "currentBuf m = Some b"
  shows "arc_inv (close_segment ts b m) h \<and> keeps h m (close_segment ts b m)"
proof -
  let ?m = "m\<lparr>currentMeta := [], seqCount := u64 (seqCount m + 1), needsDiscontinuity := False, currentBuf := None\<rparr>"
  obtain seg where eq: "close_segment ts b m = push_segment seg ?m"
    and seg: "Data seg = Alias b" "seg_buf seg = Some b" "refCount seg = 1"
    by (simp add: close_segment_def push_segment_currentBuf Let_def)
  note d = arc_core_dests [OF arc_inv_core [OF assms(1)]]
  have own: "b < buf_fresh m" "\<not> live_buf m b" "b \<notin> set (bufferPool m)"
    using d(8) [OF assms(2)] d(6,7) [of b] assms(2) by auto
  have "fresh_seg ?m seg" using own seg by (simp add: fresh_seg_def live_buf_def)
  moreover have "arc_inv ?m h"
    using arc_inv_drop [OF assms(1)] by (subst arc_inv_cong [of ?m "m\<lparr>currentBuf := None\<rparr>"]) simp_all
  ultimately have "arc_inv (push_segment seg ?m) h \<and> keeps h ?m (push_segment seg ?m)" by (intro arc_inv_push)
  then show ?thesis using eq keeps_trans [OF keeps_cong [of ?m m]] by simp
qed

lemma keeps_write:
  assumes "arc_core m c" "\<not> live_buf m b"
    "segs m' = segs m" "\<And>b'. b' \<noteq> b \<Longrightarrow> bufs m' b' = bufs m b'"
  shows "keeps h m m'"
proof -
  have "data_of m' s = data_of m s" if "segs m i = Some s" for i s
  proof (cases "Data s")
    case (Alias b')
    then have "seg_buf s = Some b'" using arc_coreD(4) [OF assms(1) that] by (cases "seg_buf s") (auto simp: seg_ok_def)
    then have "b' \<noteq> b" using assms(2) that by (auto simp: live_buf_def)
    then show ?thesis using Alias assms(4) by (simp add: data_of_def)
  qed (simp_all add: data_of_def)
  then show ?thesis using assms(3) by (auto simp: keeps_def)
qed

lemma open_segment_ok:
  assumes "arc_inv m h" "currentBuf m = None"
  shows "arc_inv (open_segment ops pick ts m) h \<and> keeps h m (open_segment ops pick ts m)"
proof -
  note core = arc_inv_core [OF assms(1)]
  obtain b m1 where p: "pool_get pick m = (b, m1)" by (cases "pool_get pick m")
  have m1: "m1 = m\<lparr>bufferPool := remove1 b (bufferPool m)\<rparr> \<and> b \<in> set (bufferPool m) \<or>
      m1 = m\<lparr>buf_fresh := buf_fresh m + 1\<rparr> \<and> b = buf_fresh m"
    using p by (auto simp: pool_get_def split: option.splits if_splits)
  have nl: "\<not> live_buf m b" using m1 arc_core_dests(6,7) [OF core, of b] by auto
  let ?m = "open_segment ops pick ts m"
  have eq: "segs ?m = segs m" "seg_fresh ?m = seg_fresh m" "bufferPool ?m = bufferPool m1" "buf_fresh ?m = buf_fresh m1"
    "currentBuf ?m = Some b" "segments ?m = segments m" "\<And>b'. b' \<noteq> b \<Longrightarrow> bufs ?m b' = bufs m b'"
    using p m1 by (auto simp: open_segment_def Let_def)
  have live: "live_buf ?m x = live_buf m x" for x by (simp add: live_buf_def eq(1))
  have "arc_core ?m (refs m h)"
    using core m1 nl unfolding arc_core_def live eq(1-5)
    by (auto simp: distinct_remove1 set_remove1_eq less_Suc_eq)
  then have "arc_inv ?m h" using assms(1) refs_cong [OF eq(6)] eq(6) by (simp add: arc_inv_def)
  then show ?thesis using keeps_write [OF core nl eq(1) eq(7)] by simp
qed

lemma write_frame_ok:
  assumes "arc_inv m h"
  shows "arc_inv (write_frame ops f m) h \<and> keeps h m (write_frame ops f m)"
proof (cases "\<exists>b w. currentBuf m = Some b \<and> tsWriter m = Some w")
  case True
  then obtain b w where bw: "currentBuf m = Some b" "tsWriter m = Some w" by blast
  let ?m = "write_frame ops f m"
  have eq: "segs ?m = segs m" "\<And>b'. b' \<noteq> b \<Longrightarrow> bufs ?m b' = bufs m b'"
    using bw by (simp_all add: write_frame_def Let_def)
  have "arc_inv ?m h" using assms bw by (subst arc_inv_cong [of _ m]) (simp_all add: write_frame_def Let_def)
  moreover have "\<not> live_buf m b" using arc_core_dests(7) [OF arc_inv_core [OF assms], of b] bw by auto
  ultimately show ?thesis using keeps_write [OF arc_inv_core [OF assms] _ eq] by blast
next
  case False
  then have "write_frame ops f m = m" by (auto simp: write_frame_def split: option.splits)
  then show ?thesis using assms keeps_refl by simp
qed

lemma touch_watchdog_simps [simp]:
  "segs (touch_watchdog now f m) = segs m" "bufs (touch_watchdog now f m) = bufs m"
  "seg_fresh (touch_watchdog now f m) = seg_fresh m" "bufferPool (touch_watchdog now f m) = bufferPool m"
  "buf_fresh (touch_watchdog now f m) = buf_fresh m" "currentBuf (touch_watchdog now f m) = currentBuf m"
  "segments (touch_watchdog now f m) = segments m" "segIndex (touch_watchdog now f m) = segIndex m"
  "seqCount (touch_watchdog now f m) = seqCount m" "maxSegments (touch_watchdog now f m) = maxSegments m"
  "cachedPlaylist (touch_watchdog now f m) = cachedPlaylist m" "cachedSubsPlaylist (touch_watchdog now f m) = cachedSubsPlaylist m"
  by (simp_all add: touch_watchdog_def)

lemma fetch_params_simps [simp]:
  "segs (fetch_params p m) = segs m" "bufs (fetch_params p m) = bufs m"
  "seg_fresh (fetch_params p m) = seg_fresh m" "bufferPool (fetch_params p m) = bufferPool m"
  "buf_fresh (fetch_params p m) = buf_fresh m" "currentBuf (fetch_params p m) = currentBuf m"
  "segments (fetch_params p m) = segments m" "segIndex (fetch_params p m) = segIndex m"
  "seqCount (fetch_params p m) = seqCount m" "maxSegments (fetch_params p m) = maxSegments m"
  "cachedPlaylist (fetch_params p m) = cachedPlaylist m" "cachedSubsPlaylist (fetch_params p m) = cachedSubsPlaylist m"
  by (simp_all add: fetch_params_def split: option.splits)

lemma refresh_params_simps [simp]:
  "segs (refresh_params p m) = segs m" "bufs (refresh_params p m) = bufs m"
  "seg_fresh (refresh_params p m) = seg_fresh m" "bufferPool (refresh_params p m) = bufferPool m"
  "buf_fresh (refresh_params p m) = buf_fresh m" "currentBuf (refresh_params p m) = currentBuf m"
  "segments (refresh_params p m) = segments m" "segIndex (refresh_params p m) = segIndex m"
  "seqCount (refresh_params p m) = seqCount m" "maxSegments (refresh_params p m) = maxSegments m"
  "cachedPlaylist (refresh_params p m) = cachedPlaylist m" "cachedSubsPlaylist (refresh_params p m) = cachedSubsPlaylist m"
  by (simp_all add: refresh_params_def split: option.splits)

lemma run_prep_simps [simp]:
  "segs (run_prep p0 p1 now f m) = segs m" "bufs (run_prep p0 p1 now f m) = bufs m"
  "seg_fresh (run_prep p0 p1 now f m) = seg_fresh m" "bufferPool (run_prep p0 p1 now f m) = bufferPool m"
  "buf_fresh (run_prep p0 p1 now f m) = buf_fresh m" "currentBuf (run_prep p0 p1 now f m) = currentBuf m"
  "segments (run_prep p0 p1 now f m) = segments m" "segIndex (run_prep p0 p1 now f m) = segIndex m"
  "seqCount (run_prep p0 p1 now f m) = seqCount m" "maxSegments (run_prep p0 p1 now f m) = maxSegments m"
  "cachedPlaylist (run_prep p0 p1 now f m) = cachedPlaylist m"
  "cachedSubsPlaylist (run_prep p0 p1 now f m) = cachedSubsPlaylist m"
  by (simp_all add: run_prep_def Let_def)

lemma run_cut_ok:
  assumes "arc_inv m h" shows "arc_inv (run_cut f m) h \<and> keeps h m (run_cut f m)"
  using close_segment_ok [OF assms] assms keeps_refl by (auto simp: run_cut_def split: option.splits)

lemma run_write_ok:
  assumes "arc_inv m h" shows "arc_inv (run_write ops pick f m) h \<and> keeps h m (run_write ops pick f m)"
proof (cases "currentBuf m = None \<and> IsKeyFrame f")
  case True
  let ?m = "open_segment ops pick (Timestamp f) m"
  have "arc_inv ?m h \<and> keeps h m ?m" using True open_segment_ok [OF assms] by blast
  then show ?thesis using True write_frame_ok [of ?m h ops f] keeps_trans [of h m ?m] by (simp add: run_write_def)
next
  case False
  then show ?thesis using assms write_frame_ok [OF assms] keeps_refl by (auto simp: run_write_def)
qed

lemma run_frame_ok:
  assumes "arc_inv m h"
  shows "arc_inv (run_frame ops p0 p1 now pick f m) h \<and> keeps h m (run_frame ops p0 p1 now pick f m)"
proof -
  let ?m1 = "run_prep p0 p1 now f m"
  have a1: "arc_inv ?m1 h" using assms by (subst arc_inv_cong [of _ m]) simp_all
  have k1: "keeps h m ?m1" by (rule keeps_cong) simp_all
  have a2: "arc_inv (run_cut f ?m1) h" "keeps h ?m1 (run_cut f ?m1)" using run_cut_ok [OF a1] by simp_all
  show ?thesis
    unfolding run_frame_def using run_write_ok [OF a2(1)] a2(2) k1 keeps_trans by blast
qed

subsection \<open>Watchdog, stop and handlers keep ownership exact\<close>

lemma CheckWatchdog_cases:
  obtains "CheckWatchdog now m = m"
  | seg where "segments m \<noteq> []" "refCount seg = 1" "seg_buf seg = None" "\<And>b. Data seg \<noteq> Alias b"
      "Name seg = segment_name (u64 (seqCount m + 1))"
      "CheckWatchdog now m = (push_segment seg (m\<lparr>seqCount := u64 (seqCount m + 1)\<rparr>))
         \<lparr>lastFrameTime := now, needsDiscontinuity := True\<rparr>"
proof (cases "lastFrameTime m = 0 \<or> now - lastFrameTime m \<le> 5 * second \<or> \<not> (0 < lastFrameTime m \<and> segments m \<noteq> [])")
  case True
  then show ?thesis by (intro that(1)) (auto simp: CheckWatchdog_def)
next
  case False
  define seg where "seg = \<lparr>Name = segment_name (u64 (seqCount m + 1)), Duration = Duration (the (segs m (last (segments m)))),
      Data = Own (data_of m (the (segs m (last (segments m))))), seg_buf = None, refCount = 1,
      IsDiscontinuity = True, VTTData = []\<rparr>"
  show ?thesis using False by (intro that(2) [of seg]) (auto simp: seg_def CheckWatchdog_def Let_def)
qed

lemma CheckWatchdog_ok:
  assumes "arc_inv m h" shows "arc_inv (CheckWatchdog now m) h \<and> keeps h m (CheckWatchdog now m)"
proof (cases rule: CheckWatchdog_cases [of now m])
  case 1
  then show ?thesis using assms keeps_refl by simp
next
  case (2 seg)
  let ?m = "m\<lparr>seqCount := u64 (seqCount m + 1)\<rparr>" and ?p = "push_segment seg (m\<lparr>seqCount := u64 (seqCount m + 1)\<rparr>)"
  have "arc_inv ?m h" using assms by (subst arc_inv_cong [of _ m]) simp_all
  moreover have "fresh_seg ?m seg" using 2 by (simp add: fresh_seg_def)
  ultimately have p: "arc_inv ?p h" "keeps h ?m ?p" using arc_inv_push by blast+
  have "arc_inv (CheckWatchdog now m) h" using p(1) 2(6) by (subst arc_inv_cong [of _ ?p]) simp_all
  moreover have "keeps h ?p (CheckWatchdog now m)" using 2(6) by (intro keeps_cong) simp_all
  moreover have "keeps h m ?m" by (rule keeps_cong) simp_all
  ultimately show ?thesis using p(2) keeps_trans by blast
qed

lemma release_all:
  assumes "arc_core m (\<lambda>i. h i + (if i \<in> set xs then 1 else 0))" "distinct xs"
  shows "arc_core (fold Release xs m) h \<and> keeps h m (fold Release xs m)"
  using assms
proof (induction xs arbitrary: m)
  case Nil
  then show ?case by (simp add: keeps_refl)
next
  case (Cons x xs)
  let ?c = "\<lambda>i. h i + (if i \<in> set (x # xs) then 1 else 0)"
  have "(\<lambda>i. h i + (if i \<in> set xs then 1 else 0)) = ?c(x := ?c x - 1)"
    using Cons.prems(2) by (auto simp: fun_eq_iff)
  then have "arc_core (Release x m) (\<lambda>i. h i + (if i \<in> set xs then 1 else 0))"
    using arc_core_release [OF Cons.prems(1), of x] by simp
  then have "arc_core (fold Release xs (Release x m)) h \<and> keeps h (Release x m) (fold Release xs (Release x m))"
    using Cons.IH Cons.prems(2) by simp
  moreover have "keeps h m (Release x m)" using Cons.prems(1) by (rule keeps_release) auto
  ultimately show ?case using keeps_trans by auto
qed

lemma Muxer_Stop_ok:
  assumes "arc_inv m h" shows "arc_inv (Muxer_Stop m) h \<and> keeps h m (Muxer_Stop m)"
proof -
  let ?m = "m\<lparr>firstSegReady := True\<rparr>" and ?f = "fold Release (segments m) (m\<lparr>firstSegReady := True\<rparr>)"
  have "arc_core ?m (\<lambda>i. h i + (if i \<in> set (segments m) then 1 else 0))" "distinct (segments m)"
    using assms by (simp_all add: arc_inv_def refs_def [abs_def] arc_core_cong [of ?m m])
  from release_all [OF this] have f: "arc_core ?f h" "keeps h ?m ?f" by simp_all
  have r: "refs (Muxer_Stop m) h = h" by (simp add: refs_def Muxer_Stop_def fun_eq_iff)
  have "arc_inv (Muxer_Stop m) h"
    using f(1) arc_core_cong [of "Muxer_Stop m" ?f h] unfolding arc_inv_def r by (simp add: Muxer_Stop_def)
  moreover have "keeps h ?f (Muxer_Stop m)" by (rule keeps_cong) (simp_all add: Muxer_Stop_def)
  moreover have "keeps h m ?m" by (rule keeps_cong) simp_all
  ultimately show ?thesis using f(2) keeps_trans by blast
qed

lemma Retain_ok:
  assumes "arc_inv m h" "i \<in> set (segments m)"
  shows "arc_inv (Retain i m) (h(i := h i + 1)) \<and> keeps h m (Retain i m)"
proof -
  have "segs m i \<noteq> None" using arc_coreD(1) [OF arc_inv_core [OF assms(1)], of i] assms(2) by (auto simp: refs_def)
  note r = arc_core_retain [OF arc_inv_core [OF assms(1)] this]
  have "(refs m h)(i := refs m h i + 1) = refs (Retain i m) (h(i := h i + 1))"
    using assms(2) by (auto simp: refs_def Retain_def fun_eq_iff)
  with r have "arc_inv (Retain i m) (h(i := h i + 1))" using assms(1) by (simp add: arc_inv_def Retain_def)
  moreover have "keeps h m (Retain i m)" by (auto simp: keeps_def Retain_def data_of_def split: seg_data.splits)
  ultimately show ?thesis by blast
qed

lemma Release_ok:
  assumes "arc_inv m h" "0 < h i"
  shows "arc_inv (Release i m) (h(i := h i - 1)) \<and> keeps (h(i := h i - 1)) m (Release i m)"
proof -
  have c: "arc_core m (refs m h)" "0 < refs m h i" using assms by (simp_all add: arc_inv_def refs_def)
  have e: "(refs m h)(i := refs m h i - 1) = refs (Release i m) (h(i := h i - 1))"
    using assms(2) by (auto simp: refs_def fun_eq_iff)
  have "arc_inv (Release i m) (h(i := h i - 1))"
    using arc_core_release [OF c] assms(1) unfolding e by (simp add: arc_inv_def)
  moreover have "keeps (h(i := h i - 1)) m (Release i m)"
    by (rule keeps_release [OF c]) (auto simp: refs_def split: if_splits)
  ultimately show ?thesis by blast
qed

subsection \<open>The sliding window\<close>

lemma fold_index:
  assumes "distinct (map f xs)"
  shows "fold (\<lambda>i ix. ix(f i \<mapsto> i)) xs ix0 n = Some i \<longleftrightarrow>
     i \<in> set xs \<and> f i = n \<or> n \<notin> f ` set xs \<and> ix0 n = Some i"
  using assms by (induction xs arbitrary: ix0) (auto split: if_splits)

lemma segment_name_inject [simp]: "segment_name a = segment_name b \<longleftrightarrow> a = b"
  by (simp add: segment_name_def)

lemma distinct_names: "distinct (map segment_name [a..<b])"
  by (simp add: distinct_map inj_on_def)

lemma rebuild_win:
  assumes "3 \<le> maxSegments m" "length (segments m) \<le> maxSegments m" "segments m \<noteq> []"
    "length (segments m) \<le> seqCount m" "seqCount m < 2 ^ 64"
    and names: "map Name (seg_list m) = map segment_name [seqCount m + 1 - length (segments m)..<seqCount m + 1]"
  shows "win_inv (rebuildPlaylistsLocked m)"
proof -
  let ?m = "rebuildPlaylistsLocked m" and ?f = "\<lambda>i. Name (the (segs m i))"
  have len: "1 \<le> length (segments m)" using assms(3) by (simp add: Suc_le_eq)
  have "seqCount m + 2 ^ 64 - length (segments m) + 1 = (seqCount m + 1 - length (segments m)) + 2 ^ 64"
    using assms(4) by simp
  moreover have "seqCount m + 1 - length (segments m) < 2 ^ 64" using assms(5) len by linarith
  ultimately have seq: "u64 (seqCount m + 2 ^ 64 - length (segments m) + 1) = seqCount m + 1 - length (segments m)"
    unfolding u64_def by (metis mod_add_self2 mod_less)
  have "map ?f (segments m) = map segment_name [seqCount m + 1 - length (segments m)..<seqCount m + 1]"
    using names by (simp add: seg_list_def comp_def)
  then have "distinct (map ?f (segments m))" using distinct_names by metis
  from fold_index [OF this, of Map.empty]
  have ix: "segIndex ?m n = Some i \<longleftrightarrow> i \<in> set (segments m) \<and> ?f i = n" for n i
    using assms(3) by (simp add: rebuildPlaylistsLocked_def Let_def)
  have sl: "seg_list ?m = seg_list m" by (simp add: seg_list_def)
  show ?thesis
    unfolding win_inv_def sl
    using assms ix seq by (simp add: rebuildPlaylistsLocked_def [of m] Let_def)
qed

lemma win_cong:
  assumes "win_inv m" "segments m' = segments m" "segIndex m' = segIndex m" "seqCount m' = seqCount m"
    "maxSegments m' = maxSegments m" "cachedPlaylist m' = cachedPlaylist m" "cachedSubsPlaylist m' = cachedSubsPlaylist m"
    and i: "\<And>i. info_of (the (segs m' i)) = info_of (the (segs m i))"
  shows "win_inv m'"
proof -
  have n: "Name (the (segs m' i)) = Name (the (segs m i))" for i
    using i [of i] by (simp add: info_of_def)
  have "map info_of (seg_list m') = map info_of (seg_list m)" "map Name (seg_list m') = map Name (seg_list m)"
    using i n assms(2) by (simp_all add: seg_list_def)
  then show ?thesis using assms(1-7) n unfolding win_inv_def by (simp del: map_map)
qed

lemma Release_info [simp]: "info_of (the (segs (Release i m) j)) = info_of (the (segs m j))"
  by (simp add: Release_def info_of_def Let_def split: option.split)

lemma Retain_simps [simp]:
  "segments (Retain i m) = segments m" "maxSegments (Retain i m) = maxSegments m"
  "seqCount (Retain i m) = seqCount m" "segIndex (Retain i m) = segIndex m"
  "cachedPlaylist (Retain i m) = cachedPlaylist m" "cachedSubsPlaylist (Retain i m) = cachedSubsPlaylist m"
  by (simp_all add: Retain_def)

lemma Retain_info [simp]: "info_of (the (segs (Retain i m) j)) = info_of (the (segs m j))"
  by (cases "segs m i") (auto simp: Retain_def info_of_def)

lemma Release_Name [simp]: "Name (the (segs (Release i m) j)) = Name (the (segs m j))"
  using Release_info [of i m j] by (simp add: info_of_def)

lemma seg_list_Release: "map Name (seg_list (Release i m)) = map Name (seg_list m)"
  by (simp add: seg_list_def)

lemma win_push:
  assumes "arc_inv m h" "3 \<le> maxSegments m" "length (segments m) \<le> maxSegments m" "length (segments m) \<le> n"
    "seqCount m = n + 1" "n + 1 < 2 ^ 64" "Name seg = segment_name (n + 1)"
    and names: "map Name (seg_list m) = map segment_name [n + 1 - length (segments m)..<n + 1]"
  shows "win_inv (push_segment seg m)"
proof -
  let ?a = "added seg m" and ?t = "(added seg m)\<lparr>segments := tl (segments (added seg m))\<rparr>"
  have "segs m i \<noteq> None" if "i \<in> set (segments m)" for i
    using arc_coreD(1) [OF arc_inv_core [OF assms(1)], of i] that by (auto simp: refs_def)
  then have nf: "i \<noteq> seg_fresh m" if "i \<in> set (segments m)" for i
    using seg_fresh_None [OF arc_inv_core [OF assms(1)]] that by metis
  have "map Name (seg_list ?a) = map Name (seg_list m) @ [Name seg]"
    using nf by (simp add: seg_list_def added_def)
  then have na: "map Name (seg_list ?a) = map segment_name [n + 1 - length (segments m)..<n + 2]"
    using names assms(4,7) by (simp add: upt_Suc_append)
  have nt: "map Name (seg_list ?t) = tl (map Name (seg_list ?a))" by (simp add: seg_list_def map_tl)
  show ?thesis
  proof (cases "maxSegments m < length (segments m) + 1")
    case True
    then have len: "length (segments m) = maxSegments m" using assms(3) by simp
    have "map Name (seg_list (Release (hd (segments ?a)) ?t)) = map segment_name [n + 2 - length (segments m)..<n + 2]"
      unfolding seg_list_Release nt na using assms(4) by (simp add: map_tl [symmetric] tl_upt Suc_diff_le del: upt_Suc)
    moreover have "tl (segments m @ [seg_fresh m]) \<noteq> []" using len assms(2) by (cases "segments m") auto
    ultimately show ?thesis
      using True assms len by (auto simp: push_segment_eq added_def intro!: rebuild_win)
  next
    case False
    then show ?thesis
      using assms na by (auto simp: push_segment_eq added_def intro!: rebuild_win)
  qed
qed

lemma win_bump:
  assumes "win_inv m" "arc_inv m h" "seqCount m + 1 < 2 ^ 64" "Name seg = segment_name (u64 (seqCount m + 1))"
    and m': "segs m' = segs m" "seg_fresh m' = seg_fresh m" "bufferPool m' = bufferPool m" "buf_fresh m' = buf_fresh m"
      "currentBuf m' = currentBuf m \<or> currentBuf m' = None" "segments m' = segments m" "maxSegments m' = maxSegments m"
      "seqCount m' = u64 (seqCount m + 1)"
  shows "win_inv (push_segment seg m')"
proof (rule win_push)
  show "arc_inv m' h"
    using m' arc_inv_cong [of m' m h] arc_inv_cong [of m' "m\<lparr>currentBuf := None\<rparr>" h] arc_inv_drop [OF assms(2)] assms(2)
    by auto
  have "seg_list m' = seg_list m" using m' by (simp add: seg_list_def)
  then show "map Name (seg_list m') = map segment_name [seqCount m + 1 - length (segments m')..<seqCount m + 1]"
    using assms(1) m' by (simp add: win_inv_def)
qed (use assms in \<open>simp_all add: win_inv_def u64_def\<close>)

lemma win_close:
  assumes "win_inv m" "arc_inv m h" "seqCount m + 1 < 2 ^ 64"
  shows "win_inv (close_segment ts b m)"
  unfolding close_segment_def Let_def push_segment_currentBuf by (rule win_bump [OF assms]) simp_all

lemma win_open:
  assumes "win_inv m" shows "win_inv (open_segment ops pick ts m)"
  by (rule win_cong [OF assms])
    (simp_all add: open_segment_def pool_get_def Let_def split: option.split if_split)

lemma win_write:
  assumes "win_inv m" shows "win_inv (write_frame ops f m)"
  by (rule win_cong [OF assms]) (simp_all add: write_frame_def Let_def split: option.split)

lemma win_frame:
  assumes "win_inv m" "arc_inv m h" "seqCount m + 1 < 2 ^ 64"
  shows "win_inv (run_frame ops p0 p1 now pick f m)"
proof -
  let ?m = "run_prep p0 p1 now f m"
  have w: "win_inv ?m" using assms(1) by (rule win_cong) simp_all
  have a: "arc_inv ?m h" using assms(2) by (subst arc_inv_cong [of _ m]) simp_all
  have "win_inv (run_cut f ?m)"
    using win_close [OF w a] w assms(3) by (simp add: run_cut_def split: option.split)
  then show ?thesis by (auto simp: run_frame_def run_write_def intro: win_open win_write)
qed

lemma win_watchdog:
  assumes "win_inv m" "arc_inv m h" "seqCount m + 1 < 2 ^ 64"
  shows "win_inv (CheckWatchdog now m)"
proof (cases rule: CheckWatchdog_cases [of now m])
  case (2 seg)
  have "win_inv (push_segment seg (m\<lparr>seqCount := u64 (seqCount m + 1)\<rparr>))"
    by (rule win_bump [OF assms 2(5)]) simp_all
  then show ?thesis unfolding 2(6) by (rule win_cong) simp_all
qed (use assms in simp)

lemma win_stop:
  assumes "win_inv m" shows "win_inv (Muxer_Stop m)"
proof -
  have "seqCount (fold Release xs m') = seqCount m' \<and> maxSegments (fold Release xs m') = maxSegments m'"
    for xs and m' :: "'a Muxer"
    by (induction xs arbitrary: m') simp_all
  then show ?thesis using assms by (simp add: win_inv_def Muxer_Stop_def seg_list_def)
qed

lemma AcquireSegment_in:
  assumes "win_inv m" "AcquireSegment name m = (Some (i, mime), m')"
  shows "i \<in> set (segments m)" "m' = Retain i m"
  using assms
  by (auto simp: AcquireSegment_def Let_def win_inv_def find_Some_iff split: option.splits)

lemma GetPlaylist_same:
  assumes "win_inv m" "GetPlaylist c m = Some (r, m')" shows "m' = m"
  using assms by (auto simp: GetPlaylist_def win_inv_def Let_def split: option.splits if_splits)

lemma GetSubsPlaylist_same:
  assumes "win_inv m" "GetSubsPlaylist m = (r, m')" shows "m' = m"
  using assms by (auto simp: GetSubsPlaylist_def win_inv_def Let_def split: option.splits if_splits)

text \<open>Both invariants together, for the muxer with its handlers.\<close>

lemma mux_step_inv:
  assumes "mux_step ops s t" "arc_inv (mx s) (held s)" "win_inv (mx s)"
  shows "arc_inv (mx t) (held t) \<and> win_inv (mx t) \<and>
    keeps (\<lambda>i. min (held s i) (held t i)) (mx s) (mx t)"
  using assms
proof cases
  case s_frame
  then show ?thesis using run_frame_ok [OF assms(2)] win_frame [OF assms(3,2)] by simp
next
  case (s_meta p0 req)
  have "arc_inv (run_meta p0 req (mx s)) (held s)"
    using assms(2) by (subst arc_inv_cong [of _ "mx s"]) (simp_all add: run_meta_def Let_def split: option.split)
  moreover have "win_inv (run_meta p0 req (mx s))"
    using assms(3) by (rule win_cong) (simp_all add: run_meta_def Let_def split: option.split)
  moreover have "keeps (held s) (mx s) (run_meta p0 req (mx s))"
    by (rule keeps_cong) (simp_all add: run_meta_def Let_def split: option.split)
  ultimately show ?thesis using s_meta by simp
next
  case s_watchdog
  then show ?thesis using CheckWatchdog_ok [OF assms(2)] win_watchdog [OF assms(3,2)] by simp
next
  case s_playlist
  then show ?thesis using GetPlaylist_same [OF assms(3) s_playlist(2)] assms(2,3) by (simp add: keeps_refl)
next
  case s_subs
  then show ?thesis using GetSubsPlaylist_same [OF assms(3) s_subs(2)] assms(2,3) by (simp add: keeps_refl)
next
  case (s_acquire name i mime m')
  note a = AcquireSegment_in [OF assms(3) s_acquire(2)]
  have "win_inv (Retain i (mx s))" using assms(3) by (rule win_cong) simp_all
  moreover have "(\<lambda>j. min (held s j) (((held s)(i := held s i + 1)) j)) = held s" by (auto simp: fun_eq_iff)
  ultimately show ?thesis using Retain_ok [OF assms(2) a(1)] a(2) s_acquire by simp
next
  case (s_release i)
  have "win_inv (Release i (mx s))" using assms(3) by (rule win_cong) simp_all
  moreover have "(\<lambda>j. min (held s j) (((held s)(i := held s i - 1)) j)) = (held s)(i := held s i - 1)"
    by (auto simp: fun_eq_iff)
  ultimately show ?thesis using Release_ok [OF assms(2)] s_release by simp
next
  case s_stop
  then show ?thesis using Muxer_Stop_ok [OF assms(2)] win_stop [OF assms(3)] by simp
qed

lemma mux_reach_inv:
  assumes "mux_reach ops s" shows "arc_inv (mx s) (held s) \<and> win_inv (mx s)"
  using assms
proof induction
  case (mux_start opts now)
  have "refs (NewMuxer opts now :: 'a Muxer) (\<lambda>_. 0) = (\<lambda>_. 0)" by (simp add: refs_def NewMuxer_def fun_eq_iff)
  then have "arc_inv (NewMuxer opts now :: 'a Muxer) (\<lambda>_. 0)" using arc_core_new by (simp add: arc_inv_def NewMuxer_def)
  moreover have "win_inv (NewMuxer opts now :: 'a Muxer)"
    by (auto simp: win_inv_def NewMuxer_def seg_list_def le_nat_iff split: list.split)
  ultimately show ?case by simp
next
  case (mux_next s t)
  then show ?case using mux_step_inv by blast
qed

lemma with_params_cong:
  assumes "m_vps m' = m_vps m" "m_sps m' = m_sps m" "m_pps m' = m_pps m"
  shows "with_params key us m' = with_params key us m"
  unfolding with_params_def assms ..

subsection \<open>Properties\<close>

text \<open>C6: In every interleaving of the run loop, the watchdog, \<open>Stop\<close> and HTTP handlers that acquire
  and release segments, a segment a handler holds before and after a step keeps its bytes, its
  name and its subtitles: no buffer is recycled under a reader. Its reference count is positive.\<close>

theorem held_segment_stable:
  assumes "mux_reach ops s" "mux_step ops s t" "0 < held s i" "0 < held t i"
  shows "\<exists>a b. segs (mx s) i = Some a \<and> segs (mx t) i = Some b \<and> 0 < refCount b \<and>
    data_of (mx t) b = data_of (mx s) a \<and> Name b = Name a \<and> VTTData b = VTTData a"
proof -
  have inv: "arc_inv (mx s) (held s)" "win_inv (mx s)" using mux_reach_inv [OF assms(1)] by simp_all
  note st = mux_step_inv [OF assms(2) inv]
  have "segs (mx s) i \<noteq> None"
    using arc_coreD(1) [OF arc_inv_core [OF inv(1)], of i] assms(3) by (auto simp: refs_def)
  then obtain a where a: "segs (mx s) i = Some a" by blast
  then obtain b where b: "segs (mx t) i = Some b" "data_of (mx t) b = data_of (mx s) a" "Name b = Name a" "VTTData b = VTTData a"
    using st assms(3,4) unfolding keeps_def by force
  moreover have "0 < refCount b"
    using st arc_coreD(3) [of "mx t" _ i b] b(1) assms(4) by (auto simp: arc_inv_def refs_def)
  ultimately show ?thesis using a by blast
qed

text \<open>C7: Buffer ownership in every reachable state. A segment's reference count is the number of its
  holders plus one if it is in the window; when it is zero its buffer has gone back to the pool.
  A buffer belongs to one segment, to the pool, or is being written, never to two of them, and
  the pool holds no buffer twice.\<close>

theorem buffer_ownership:
  assumes "mux_reach ops s"
  shows "(\<forall>i a. segs (mx s) i = Some a \<longrightarrow>
      refCount a = int (held s i) + (if i \<in> set (segments (mx s)) then 1 else 0) \<and> (refCount a = 0 \<longrightarrow> seg_buf a = None)) \<and>
    (\<forall>i j a b x. segs (mx s) i = Some a \<and> segs (mx s) j = Some b \<and> seg_buf a = Some x \<and> seg_buf b = Some x \<longrightarrow> i = j) \<and>
    (\<forall>i a x. segs (mx s) i = Some a \<and> seg_buf a = Some x \<longrightarrow> x \<notin> set (bufferPool (mx s)) \<and> currentBuf (mx s) \<noteq> Some x) \<and>
    (\<forall>x. currentBuf (mx s) = Some x \<longrightarrow> x \<notin> set (bufferPool (mx s))) \<and>
    distinct (bufferPool (mx s))" (is "?counts \<and> ?one \<and> ?excl \<and> ?cur \<and> ?dist")
proof -
  have "arc_inv (mx s) (held s)" using mux_reach_inv [OF assms] by simp
  note core = arc_inv_core [OF this] and d = arc_core_dests [OF arc_inv_core [OF this]]
  have "refCount a = int (held s i) + (if i \<in> set (segments (mx s)) then 1 else 0) \<and> (refCount a = 0 \<longrightarrow> seg_buf a = None)"
    if "segs (mx s) i = Some a" for i a
    using d(3,4) [OF that] by (cases "seg_buf a") (auto simp: refs_def seg_ok_def)
  then have ?counts by blast
  moreover have ?one using d(5) by blast
  moreover have ?excl using d(6,7) unfolding live_buf_def by blast
  moreover have ?cur using d(6) by blast
  moreover have ?dist using core by (rule arc_coreD(6))
  ultimately show ?thesis by blast
qed

text \<open>C8: The sliding window in every reachable state: at most \<open>maxSegments\<close> segments with consecutive
  numbers ending at \<open>seqCount\<close>, and an index that maps exactly their names. While the window is not
  empty \<open>GetPlaylist\<close> returns at once, without changing anything, the playlist of exactly these
  segments with the first one's number as media sequence.\<close>

theorem playlist_describes_window:
  assumes "mux_reach ops s" "m = mx s" "first = seqCount m + 1 - length (segments m)"
  shows "length (segments m) \<le> maxSegments m \<and>
    map Name (seg_list m) = map segment_name [first..<seqCount m + 1] \<and>
    (\<forall>n i. segIndex m n = Some i \<longleftrightarrow> i \<in> set (segments m) \<and> Name (the (segs m i)) = n) \<and>
    (segments m \<noteq> [] \<longrightarrow>
      GetPlaylist c m = Some (Some (media_playlist (map info_of (seg_list m)) first), m) \<and>
      GetSubsPlaylist m = (subs_playlist (map info_of (seg_list m)) first, m))"
proof -
  have w: "win_inv m" using mux_reach_inv [OF assms(1)] assms(2) by simp
  then have "segments m \<noteq> [] \<longrightarrow>
      GetPlaylist c m = Some (Some (media_playlist (map info_of (seg_list m)) first), m) \<and>
      GetSubsPlaylist m = (subs_playlist (map info_of (seg_list m)) first, m)"
    by (simp add: win_inv_def assms(3) GetPlaylist_def GetSubsPlaylist_def)
  with w show ?thesis unfolding win_inv_def assms(3) by blast
qed


text \<open>Reachability of the concrete run.\<close>

lemma seqCount_step: "seqCount (run_frame ops p0 p1 now pick f m) \<le> seqCount m + 1"
proof -
  have "seqCount (push_segment seg m') = seqCount m'" for seg and m' :: "'a Muxer"
    by (simp add: push_segment_eq added_def)
  then have "seqCount (run_cut f (run_prep p0 p1 now f m)) \<le> seqCount m + 1"
    by (auto simp: run_cut_def close_segment_def Let_def u64_def split: option.split)
  moreover have "seqCount (write_frame ops f m') = seqCount m'" "seqCount (open_segment ops pick ts m') = seqCount m'"
    for ts and m' :: "'a Muxer"
    by (simp_all add: write_frame_def open_segment_def pool_get_def Let_def split: option.split)
  ultimately show ?thesis by (auto simp: run_frame_def run_write_def)
qed

lemma demo_mux_Suc:
  "demo_mux (Suc n) = run_frame demo_ops (Some demo_params) None 1 None (demo_frame n) (demo_mux n)"
  by (simp add: demo_mux_def)

lemma demo_reach:
  assumes "n < 2 ^ 64" shows "mux_reach demo_ops \<lparr>mx = demo_mux n, held = (\<lambda>_. 0)\<rparr> \<and> seqCount (demo_mux n) \<le> n"
  using assms
proof (induction n)
  case 0
  then show ?case using mux_start [of demo_ops "[]" 1] by (simp add: demo_mux_def) (simp add: NewMuxer_def)
next
  case (Suc n)
  then have IH: "mux_reach demo_ops \<lparr>mx = demo_mux n, held = (\<lambda>_. 0)\<rparr>" "seqCount (demo_mux n) \<le> n" by simp_all
  have "mux_step demo_ops \<lparr>mx = demo_mux n, held = (\<lambda>_. 0)\<rparr> \<lparr>mx = demo_mux (Suc n), held = (\<lambda>_. 0)\<rparr>"
    using s_frame [of "\<lparr>mx = demo_mux n, held = (\<lambda>_. 0)\<rparr>" demo_ops] IH(2) Suc.prems by (simp add: demo_mux_Suc)
  then show ?case
    using mux_next [OF IH(1)] IH(2) seqCount_step [of demo_ops _ _ _ _ _ "demo_mux n"] by (force simp: demo_mux_Suc intro: le_trans)
qed

lemma demo_mux_2:
  "segments (demo_mux 2) = [0]" "seqCount (demo_mux 2) = 1"
  "segs (demo_mux 2) = [0 \<mapsto> \<lparr>Name = ''stream_1.ts'', Duration = 2 * second, Data = Alias 0, seg_buf = Some 0,
     refCount = 1, IsDiscontinuity = False, VTTData = emptyVTTData\<rparr>]"
  "bufs (demo_mux 2) 0 = [0x47, 0x67, 0x68, 0x65, 0]"
proof -
  let ?step = "\<lambda>k. run_frame demo_ops (Some demo_params) None 1 None (demo_frame k)"
  have eq: "demo_mux 2 = ?step 1 (?step 0 (NewMuxer [] 1))"
    unfolding numeral_2_eq_2 One_nat_def demo_mux_Suc by (simp add: demo_mux_def)
  have "segment_name 1 = ''stream_1.ts''" by code_simp
  then have ev: "s64 2000000000 = 2000000000" "u64 1 = 1" "u64 (Suc 0) = 1" "segment_name (Suc 0) = ''stream_1.ts''"
    "segment_name 1 = ''stream_1.ts''"
    by (simp_all add: s64_def u64_def)
  show "segments (demo_mux 2) = [0]" "seqCount (demo_mux 2) = 1"
    "segs (demo_mux 2) = [0 \<mapsto> \<lparr>Name = ''stream_1.ts'', Duration = 2 * second, Data = Alias 0, seg_buf = Some 0,
       refCount = 1, IsDiscontinuity = False, VTTData = emptyVTTData\<rparr>]"
    "bufs (demo_mux 2) 0 = [0x47, 0x67, 0x68, 0x65, 0]"
    by (simp_all add: eq ev NewMuxer_def run_frame_def run_prep_def run_cut_def run_write_def build_vtt_def
      close_segment_def open_segment_def write_frame_def pool_get_def push_segment_def rebuildPlaylistsLocked_def
      demo_ops_def demo_frame_def demo_params_def touch_watchdog_def fetch_params_def refresh_params_def with_params_def
      nal_is_param_def Let_def)
qed

text \<open>The state in which a handler holds the demo's first segment.\<close>

lemma demo_held: "mux_reach demo_ops \<lparr>mx = Retain 0 (demo_mux 2), held = (\<lambda>_. 0)(0 := 1)\<rparr>"
proof -
  have w: "win_inv (demo_mux 2)" and r: "mux_reach demo_ops \<lparr>mx = demo_mux 2, held = (\<lambda>_. 0)\<rparr>"
    using mux_reach_inv demo_reach [of 2] by fastforce+
  have "segIndex (demo_mux 2) ''stream_1.ts'' = Some 0" using w by (simp add: win_inv_def demo_mux_2)
  then have "AcquireSegment ''stream_1.ts'' (demo_mux 2) = (Some (0, ''video/mp2t''), Retain 0 (demo_mux 2))"
    by (simp add: AcquireSegment_def Let_def)
  then show ?thesis using mux_next [OF r s_acquire] by fastforce
qed

lemma held_segment_stable_witness:
  "\<exists>b. segs (Muxer_Stop (Retain 0 (demo_mux 2))) 0 = Some b \<and> 0 < refCount b \<and>
     data_of (Muxer_Stop (Retain 0 (demo_mux 2))) b = [0x47, 0x67, 0x68, 0x65, 0]"
proof -
  let ?s = "\<lparr>mx = Retain 0 (demo_mux 2), held = (\<lambda>_. 0)(0 := 1)\<rparr>"
  have "data_of (Retain 0 (demo_mux 2)) a = [0x47, 0x67, 0x68, 0x65, 0]" if "segs (Retain 0 (demo_mux 2)) 0 = Some a" for a
    using that by (auto simp: Retain_def data_of_def demo_mux_2)
  then show ?thesis using held_segment_stable [OF demo_held s_stop, of 0] by auto
qed

lemma buffer_ownership_witness:
  "\<exists>a. segs (Retain 0 (demo_mux 2)) 0 = Some a \<and> refCount a = 2"
proof -
  obtain a where "segs (Retain 0 (demo_mux 2)) 0 = Some a" by (simp add: Retain_def demo_mux_2)
  then show ?thesis using buffer_ownership [OF demo_held] by (auto simp: demo_mux_2)
qed

lemma playlist_describes_window_witness:
  "GetPlaylist False (demo_mux 2) =
     Some (Some (media_playlist [\<lparr>si_Name = ''stream_1.ts'', si_Duration = 2000000000, si_Disc = False\<rparr>] 1), demo_mux 2)"
  using playlist_describes_window [of demo_ops "\<lparr>mx = demo_mux 2, held = (\<lambda>_. 0)\<rparr>" "demo_mux 2" 1 False] demo_reach [of 2]
  by (simp add: demo_mux_2 seg_list_def info_of_def)


end
