(* ===== verification/Go_Json.thy ===== *)
theory Go_Json
  imports Prelude
begin

text \<open>
  What the components use of \<open>encoding/json\<close>, on syntax trees: a stored or transmitted JSON
  text is its tree (strings are valid UTF-8, for which printing and parsing a tree is the
  identity). \<open>Unmarshal\<close> into a struct goes through the members of an object in order; a key
  selects the field of that name, without regard to case; unknown keys are skipped; \<open>null\<close>
  leaves a scalar unchanged and makes a slice nil; a value of the wrong type makes the whole
  call return an error. A Go slice is an option, \<open>None\<close> for nil.
\<close>

datatype json =
    JNull | JBool bool | JInt int
  | JDec string \<comment> \<open>a number literal with a fraction or an exponent\<close>
  | JStr string | JArr "json list" | JObj "(string \<times> json) list"

definition to_lower :: "char \<Rightarrow> char" where
  "to_lower c = (let n = of_char c :: nat in if 65 \<le> n \<and> n \<le> 90 then char_of (n + 32) else c)"

definition key_eq :: "string \<Rightarrow> string \<Rightarrow> bool" where
  "key_eq a b \<longleftrightarrow> map to_lower a = map to_lower b"

subsection \<open>Decoding\<close>

definition d_str :: "json \<Rightarrow> string \<Rightarrow> string option" where
  "d_str j old = (case j of JStr s \<Rightarrow> Some s | JNull \<Rightarrow> Some old | _ \<Rightarrow> None)"

definition d_bool :: "json \<Rightarrow> bool \<Rightarrow> bool option" where
  "d_bool j old = (case j of JBool b \<Rightarrow> Some b | JNull \<Rightarrow> Some old | _ \<Rightarrow> None)"

definition d_int :: "json \<Rightarrow> int \<Rightarrow> int option" where
  "d_int j old = (case j of JInt i \<Rightarrow> if in_s64 i then Some i else None | JNull \<Rightarrow> Some old | _ \<Rightarrow> None)"

definition d_uint64 :: "json \<Rightarrow> nat \<Rightarrow> nat option" where
  "d_uint64 j old =
     (case j of JInt i \<Rightarrow> if 0 \<le> i \<and> i < 2 ^ 64 then Some (nat i) else None | JNull \<Rightarrow> Some old | _ \<Rightarrow> None)"

fun d_list :: "(json \<Rightarrow> 'a option) \<Rightarrow> json list \<Rightarrow> 'a list option" where
  "d_list d [] = Some []"
| "d_list d (j # js) =
     (case d j of None \<Rightarrow> None | Some x \<Rightarrow> (case d_list d js of None \<Rightarrow> None | Some xs \<Rightarrow> Some (x # xs)))"

definition d_slice :: "(json \<Rightarrow> 'a option) \<Rightarrow> json \<Rightarrow> 'a list option option" where
  "d_slice d j = (case j of JNull \<Rightarrow> Some None | JArr js \<Rightarrow> map_option Some (d_list d js) | _ \<Rightarrow> None)"

type_synonym 'a field = "string \<times> (json \<Rightarrow> 'a \<Rightarrow> 'a option)"

definition d_member :: "'a field list \<Rightarrow> string \<times> json \<Rightarrow> 'a option \<Rightarrow> 'a option" where
  "d_member fields = (\<lambda>(k, j) acc.
     case acc of
       None \<Rightarrow> None
     | Some x \<Rightarrow> (case find (\<lambda>(n, _). key_eq k n) fields of None \<Rightarrow> Some x | Some (_, set_field) \<Rightarrow> set_field j x))"

definition d_struct :: "'a field list \<Rightarrow> 'a \<Rightarrow> json \<Rightarrow> 'a option" where
  "d_struct fields x0 j =
     (case j of JObj ms \<Rightarrow> fold (d_member fields) ms (Some x0) | JNull \<Rightarrow> Some x0 | _ \<Rightarrow> None)"

text \<open>One field: decode the value with the old one as default, then store it.\<close>

definition fld :: "(json \<Rightarrow> 'b \<Rightarrow> 'b option) \<Rightarrow> ('a \<Rightarrow> 'b) \<Rightarrow> ('b \<Rightarrow> 'a \<Rightarrow> 'a) \<Rightarrow> json \<Rightarrow> 'a \<Rightarrow> 'a option" where
  "fld d get upd j x = map_option (\<lambda>v. upd v x) (d j (get x))"

subsection \<open>Encoding\<close>

definition e_slice :: "('a \<Rightarrow> json) \<Rightarrow> 'a list option \<Rightarrow> json" where
  "e_slice e s = (case s of None \<Rightarrow> JNull | Some xs \<Rightarrow> JArr (map e xs))"

subsection \<open>Lemmas\<close>

lemma d_str_JStr [simp]: "d_str (JStr s) old = Some s" by (simp add: d_str_def)
lemma d_bool_JBool [simp]: "d_bool (JBool b) old = Some b" by (simp add: d_bool_def)
lemma d_int_JInt [simp]: "in_s64 i \<Longrightarrow> d_int (JInt i) old = Some i" by (simp add: d_int_def)
lemma d_uint64_JInt [simp]: "n < 2 ^ 64 \<Longrightarrow> d_uint64 (JInt (int n)) old = Some n" by (simp add: d_uint64_def)

lemma d_list_map:
  assumes "\<And>x. x \<in> set xs \<Longrightarrow> d (e x) = Some x"
  shows "d_list d (map e xs) = Some xs"
  using assms by (induction xs) simp_all

lemma d_slice_e_slice:
  assumes "\<And>x xs. s = Some xs \<Longrightarrow> x \<in> set xs \<Longrightarrow> d (e x) = Some x"
  shows "d_slice d (e_slice e s) = Some s"
  using assms by (cases s) (simp_all add: d_slice_def e_slice_def d_list_map)

lemma key_eq_refl [simp]: "key_eq k k"
  by (simp add: key_eq_def)

end
