(* ===== verification/Config.thy ===== *)
theory Config
  imports Go_Json Go_Path
begin

text \<open>
  The data of \<open>pkg/config/config.go\<close> and \<open>internal/models/user.go\<close> (cameras, tags, folders, users,
  the YAML configuration) with their JSON encodings, the deep copy of a camera and the loading
  of the configuration file. The YAML library is a parameter, the file system's answers and the
  random bytes are arguments.

  Shown: the JSON encodings decode to the value they encode; a clone equals its original; a
  configuration that \<open>Load\<close> returns is well-formed, whatever the file contains.
\<close>

record DisableRecord =
  dr_Timestamp :: string
  dr_Action :: string
  dr_Reason :: string

record TagConfig =
  tag_ID :: string
  tag_Name :: string
  tag_Color :: string

record FolderConfig =
  folder_ID :: string
  folder_Name :: string

record CameraConfig =
  ID :: string
  URL :: string
  Record :: bool
  RetentionDays :: int
  Tags :: "string list option"
  FolderID :: string
  Comment :: string
  SimPhone :: string
  SimICCID :: string
  LazyHLS :: bool
  Transport :: string
  TokenAuth :: bool
  TrafficLimit :: nat
  TrafficUsed :: nat
  LastResetMonth :: string
  Disabled :: bool
  DisableReason :: string
  DisableHistory :: "DisableRecord list option"
  RecordHistory :: "DisableRecord list option"

record User =
  Username :: string
  PasswordHash :: string
  Role :: string

abbreviation RoleAdmin :: string where "RoleAdmin \<equiv> ''admin''"
abbreviation RoleOperator :: string where "RoleOperator \<equiv> ''operator''"
abbreviation RoleViewer :: string where "RoleViewer \<equiv> ''viewer''"
abbreviation RoleService :: string where "RoleService \<equiv> ''service''"

text \<open>Zero values.\<close>

definition zero_dr :: DisableRecord where
  "zero_dr = \<lparr>dr_Timestamp = [], dr_Action = [], dr_Reason = []\<rparr>"

definition zero_tag :: TagConfig where
  "zero_tag = \<lparr>tag_ID = [], tag_Name = [], tag_Color = []\<rparr>"

definition zero_folder :: FolderConfig where
  "zero_folder = \<lparr>folder_ID = [], folder_Name = []\<rparr>"

definition zero_camera :: CameraConfig where
  "zero_camera = \<lparr>ID = [], URL = [], Record = False, RetentionDays = 0, Tags = None, FolderID = [], Comment = [],
     SimPhone = [], SimICCID = [], LazyHLS = False, Transport = [], TokenAuth = False, TrafficLimit = 0, TrafficUsed = 0,
     LastResetMonth = [], Disabled = False, DisableReason = [], DisableHistory = None, RecordHistory = None\<rparr>"

definition zero_user :: User where
  "zero_user = \<lparr>Username = [], PasswordHash = [], Role = []\<rparr>"

text \<open>Fields are stored at their width.\<close>

definition camera_ok :: "CameraConfig \<Rightarrow> bool" where
  "camera_ok c \<longleftrightarrow> in_s64 (RetentionDays c) \<and> TrafficLimit c < 2 ^ 64 \<and> TrafficUsed c < 2 ^ 64"

subsection \<open>JSON\<close>

definition dr_fields :: "DisableRecord field list" where
  "dr_fields =
     [(''timestamp'', fld d_str dr_Timestamp (\<lambda>v. dr_Timestamp_update (\<lambda>_. v))),
      (''action'', fld d_str dr_Action (\<lambda>v. dr_Action_update (\<lambda>_. v))),
      (''reason'', fld d_str dr_Reason (\<lambda>v. dr_Reason_update (\<lambda>_. v)))]"

definition dr_json :: "DisableRecord \<Rightarrow> json" where
  "dr_json r = JObj [(''timestamp'', JStr (dr_Timestamp r)), (''action'', JStr (dr_Action r)), (''reason'', JStr (dr_Reason r))]"

definition tag_fields :: "TagConfig field list" where
  "tag_fields =
     [(''id'', fld d_str tag_ID (\<lambda>v. tag_ID_update (\<lambda>_. v))),
      (''name'', fld d_str tag_Name (\<lambda>v. tag_Name_update (\<lambda>_. v))),
      (''color'', fld d_str tag_Color (\<lambda>v. tag_Color_update (\<lambda>_. v)))]"

definition tag_json :: "TagConfig \<Rightarrow> json" where
  "tag_json t = JObj [(''id'', JStr (tag_ID t)), (''name'', JStr (tag_Name t)), (''color'', JStr (tag_Color t))]"

definition folder_fields :: "FolderConfig field list" where
  "folder_fields =
     [(''id'', fld d_str folder_ID (\<lambda>v. folder_ID_update (\<lambda>_. v))),
      (''name'', fld d_str folder_Name (\<lambda>v. folder_Name_update (\<lambda>_. v)))]"

definition folder_json :: "FolderConfig \<Rightarrow> json" where
  "folder_json f = JObj [(''id'', JStr (folder_ID f)), (''name'', JStr (folder_Name f))]"

definition user_fields :: "User field list" where
  "user_fields =
     [(''username'', fld d_str Username (\<lambda>v. Username_update (\<lambda>_. v))),
      (''password_hash'', fld d_str PasswordHash (\<lambda>v. PasswordHash_update (\<lambda>_. v))),
      (''role'', fld d_str Role (\<lambda>v. Role_update (\<lambda>_. v)))]"

definition user_json :: "User \<Rightarrow> json" where
  "user_json u = JObj [(''username'', JStr (Username u)), (''password_hash'', JStr (PasswordHash u)), (''role'', JStr (Role u))]"

definition d_strings :: "json \<Rightarrow> string list option \<Rightarrow> string list option option" where
  "d_strings j old = d_slice (\<lambda>j. d_str j []) j"

definition d_records :: "json \<Rightarrow> DisableRecord list option \<Rightarrow> DisableRecord list option option" where
  "d_records j old = d_slice (d_struct dr_fields zero_dr) j"

definition camera_fields :: "CameraConfig field list" where
  "camera_fields =
     [(''id'', fld d_str ID (\<lambda>v. ID_update (\<lambda>_. v))),
      (''url'', fld d_str URL (\<lambda>v. URL_update (\<lambda>_. v))),
      (''record'', fld d_bool Record (\<lambda>v. Record_update (\<lambda>_. v))),
      (''retentionDays'', fld d_int RetentionDays (\<lambda>v. RetentionDays_update (\<lambda>_. v))),
      (''tags'', fld d_strings Tags (\<lambda>v. Tags_update (\<lambda>_. v))),
      (''folderId'', fld d_str FolderID (\<lambda>v. FolderID_update (\<lambda>_. v))),
      (''comment'', fld d_str Comment (\<lambda>v. Comment_update (\<lambda>_. v))),
      (''simPhone'', fld d_str SimPhone (\<lambda>v. SimPhone_update (\<lambda>_. v))),
      (''simICCID'', fld d_str SimICCID (\<lambda>v. SimICCID_update (\<lambda>_. v))),
      (''lazyHLS'', fld d_bool LazyHLS (\<lambda>v. LazyHLS_update (\<lambda>_. v))),
      (''transport'', fld d_str Transport (\<lambda>v. Transport_update (\<lambda>_. v))),
      (''tokenAuth'', fld d_bool TokenAuth (\<lambda>v. TokenAuth_update (\<lambda>_. v))),
      (''trafficLimit'', fld d_uint64 TrafficLimit (\<lambda>v. TrafficLimit_update (\<lambda>_. v))),
      (''trafficUsed'', fld d_uint64 TrafficUsed (\<lambda>v. TrafficUsed_update (\<lambda>_. v))),
      (''lastResetMonth'', fld d_str LastResetMonth (\<lambda>v. LastResetMonth_update (\<lambda>_. v))),
      (''disabled'', fld d_bool Disabled (\<lambda>v. Disabled_update (\<lambda>_. v))),
      (''disableReason'', fld d_str DisableReason (\<lambda>v. DisableReason_update (\<lambda>_. v))),
      (''disableHistory'', fld d_records DisableHistory (\<lambda>v. DisableHistory_update (\<lambda>_. v))),
      (''recordHistory'', fld d_records RecordHistory (\<lambda>v. RecordHistory_update (\<lambda>_. v)))]"

definition camera_json :: "CameraConfig \<Rightarrow> json" where
  "camera_json c = JObj
     [(''id'', JStr (ID c)), (''url'', JStr (URL c)), (''record'', JBool (Record c)),
      (''retentionDays'', JInt (RetentionDays c)), (''tags'', e_slice JStr (Tags c)),
      (''folderId'', JStr (FolderID c)), (''comment'', JStr (Comment c)), (''simPhone'', JStr (SimPhone c)),
      (''simICCID'', JStr (SimICCID c)), (''lazyHLS'', JBool (LazyHLS c)), (''transport'', JStr (Transport c)),
      (''tokenAuth'', JBool (TokenAuth c)), (''trafficLimit'', JInt (int (TrafficLimit c))),
      (''trafficUsed'', JInt (int (TrafficUsed c))), (''lastResetMonth'', JStr (LastResetMonth c)),
      (''disabled'', JBool (Disabled c)), (''disableReason'', JStr (DisableReason c)),
      (''disableHistory'', e_slice dr_json (DisableHistory c)), (''recordHistory'', e_slice dr_json (RecordHistory c))]"

definition tag_unmarshal :: "json \<Rightarrow> TagConfig option" where
  "tag_unmarshal = d_struct tag_fields zero_tag"

definition folder_unmarshal :: "json \<Rightarrow> FolderConfig option" where
  "folder_unmarshal = d_struct folder_fields zero_folder"

definition user_unmarshal :: "json \<Rightarrow> User option" where
  "user_unmarshal = d_struct user_fields zero_user"

definition camera_unmarshal :: "json \<Rightarrow> CameraConfig option" where
  "camera_unmarshal = d_struct camera_fields zero_camera"

text \<open>A deep copy: slices are duplicated element by element (\<open>make\<close> and \<open>copy\<close>), nil stays nil.\<close>

definition clone_slice :: "'a list option \<Rightarrow> 'a list option" where
  "clone_slice s = (case s of None \<Rightarrow> None | Some xs \<Rightarrow> Some (map (\<lambda>i. xs ! i) [0..<length xs]))"

definition Clone :: "CameraConfig \<Rightarrow> CameraConfig" where
  "Clone c = c\<lparr>Tags := clone_slice (Tags c), DisableHistory := clone_slice (DisableHistory c),
     RecordHistory := clone_slice (RecordHistory c)\<rparr>"

subsection \<open>The configuration file\<close>

record WebhookConfig =
  wh_URL :: string
  wh_Topics :: "string list option"
  wh_Secret :: string

record MQTTConfig =
  mq_Enabled :: bool
  mq_Broker :: string
  mq_Username :: string
  mq_Password :: string
  mq_Topic :: string

record Config =
  Port :: int
  Debug :: bool
  PprofPort :: int
  RecordRetentionDays :: int
  GCPercent :: int
  GCMemoryLimitMB :: int
  CORSAllowedOrigins :: "string list option"
  LiveSegmentsInMemory :: int
  GRPC_Address :: string
  GRPC_Port :: int
  CertFile :: string
  KeyFile :: string
  ListenPort :: int
  NAT1To1IPs :: "string list option"
  ICEServers :: "string list option"
  ICETransportPolicy :: string
  TURNUsername :: string
  TURNPassword :: string
  Secret :: string
  GlobalTags :: "TagConfig list"
  Cameras :: "CameraConfig list"
  Webhooks :: "WebhookConfig list"
  MQTT :: MQTTConfig

definition NewDefaultConfig :: "string \<Rightarrow> string \<Rightarrow> Config" where
  "NewDefaultConfig indoor outdoor =
     \<lparr>Port = 8080, Debug = False, PprofPort = 0, RecordRetentionDays = 7, GCPercent = 50, GCMemoryLimitMB = 2048,
      CORSAllowedOrigins = Some [''http://localhost:8080''], LiveSegmentsInMemory = 3,
      GRPC_Address = ''0.0.0.0'', GRPC_Port = 50051, CertFile = [], KeyFile = [],
      ListenPort = 0, NAT1To1IPs = None, ICEServers = Some [''stun:stun.l.google.com:19302''],
      ICETransportPolicy = ''all'', TURNUsername = [], TURNPassword = [], Secret = [],
      GlobalTags = [\<lparr>tag_ID = ''indoor'', tag_Name = indoor, tag_Color = ''#28a745''\<rparr>,
                    \<lparr>tag_ID = ''outdoor'', tag_Name = outdoor, tag_Color = ''#dc3545''\<rparr>],
      Cameras = [], Webhooks = [], MQTT = \<lparr>mq_Enabled = False, mq_Broker = [], mq_Username = [], mq_Password = [], mq_Topic = []\<rparr>\<rparr>"

definition hex_digit :: "nat \<Rightarrow> char" where
  "hex_digit n = ''0123456789abcdef'' ! n"

definition HexEncode :: "bytes \<Rightarrow> string" where
  "HexEncode bs = concat (map (\<lambda>b. [hex_digit (unat b div 16), hex_digit (unat b mod 16)]) bs)"

text \<open>What opening the file answers; reading random bytes fails or gives 32 bytes.\<close>

datatype open_result = FileMissing | OpenError string | FileContent bytes

text \<open>The result and what \<open>Save\<close> is asked to persist (a failing \<open>Save\<close> only prints a warning). The two
  localised tag names are arguments, since they are not ASCII.\<close>

definition Load :: "(bytes \<Rightarrow> string + Config) \<Rightarrow> string \<Rightarrow> string \<Rightarrow> open_result \<Rightarrow> string + bytes \<Rightarrow> (string + Config) \<times> Config option" where
  "Load yaml_decode indoor outdoor opened rnd =
     (case opened of
        FileMissing \<Rightarrow>
          (case rnd of
             Inl e \<Rightarrow> (Inl e, None)
           | Inr bs \<Rightarrow> let cfg = (NewDefaultConfig indoor outdoor)\<lparr>Secret := HexEncode bs\<rparr> in (Inr cfg, Some cfg))
      | OpenError e \<Rightarrow> (Inl e, None)
      | FileContent content \<Rightarrow>
          (case yaml_decode content of
             Inl e \<Rightarrow> (Inl e, None)
           | Inr cfg \<Rightarrow>
               let cfg1 = (if Port cfg = 0 then cfg\<lparr>Port := 8080\<rparr> else cfg);
                   finish = (\<lambda>cfg2.
                     let cfg3 = (if GCPercent cfg2 = 0 then cfg2\<lparr>GCPercent := 50\<rparr> else cfg2);
                         cfg4 = (if LiveSegmentsInMemory cfg3 < 3 then cfg3\<lparr>LiveSegmentsInMemory := 3\<rparr> else cfg3)
                     in if GRPC_Port cfg4 = 0 then cfg4\<lparr>GRPC_Port := 50051\<rparr> else cfg4)
               in if Secret cfg1 = [] then
                    (case rnd of
                       Inl e \<Rightarrow> (Inl e, None)
                     | Inr bs \<Rightarrow> let cfg2 = cfg1\<lparr>Secret := HexEncode bs\<rparr> in (Inr (finish cfg2), Some cfg2))
                  else (Inr (finish cfg1), None)))"

definition config_ok :: "Config \<Rightarrow> bool" where
  "config_ok cfg \<longleftrightarrow> Port cfg \<noteq> 0 \<and> Secret cfg \<noteq> [] \<and> GCPercent cfg \<noteq> 0 \<and> 3 \<le> LiveSegmentsInMemory cfg \<and> GRPC_Port cfg \<noteq> 0"

subsection \<open>Round trips\<close>

lemma clone_slice_id [simp]: "clone_slice s = s"
  by (simp add: clone_slice_def map_nth split: option.split)

lemma Clone_id [simp]: "Clone c = c"
  by (simp add: Clone_def)

lemmas json_defs = d_struct_def d_member_def fld_def key_eq_def to_lower_def

lemma dr_round_trip [simp]: "d_struct dr_fields zero_dr (dr_json r) = Some r"
  by (cases r) (simp add: json_defs dr_fields_def dr_json_def zero_dr_def)

lemma tag_round_trip [simp]: "tag_unmarshal (tag_json t) = Some t"
  by (cases t) (simp add: json_defs tag_fields_def tag_json_def zero_tag_def tag_unmarshal_def)

lemma folder_round_trip [simp]: "folder_unmarshal (folder_json f) = Some f"
  by (cases f) (simp add: json_defs folder_fields_def folder_json_def zero_folder_def folder_unmarshal_def)

lemma user_round_trip [simp]: "user_unmarshal (user_json u) = Some u"
  by (cases u) (simp add: json_defs user_fields_def user_json_def zero_user_def user_unmarshal_def)

lemma d_strings_e [simp]: "d_strings (e_slice JStr s) old = Some s"
  unfolding d_strings_def by (rule d_slice_e_slice) simp

lemma d_records_e [simp]: "d_records (e_slice dr_json s) old = Some s"
  unfolding d_records_def by (rule d_slice_e_slice) simp

lemma camera_round_trip [simp]:
  assumes "camera_ok c" shows "camera_unmarshal (camera_json c) = Some c"
  using assms
  by (cases c) (simp add: json_defs camera_fields_def camera_json_def zero_camera_def camera_unmarshal_def camera_ok_def)

text \<open>Decoding into a struct keeps what every field's decoder keeps; decoded cameras fit their fields.\<close>

lemma d_struct_invariant:
  assumes "P x0" "\<And>n f j x x'. (n, f) \<in> set fs \<Longrightarrow> P x \<Longrightarrow> f j x = Some x' \<Longrightarrow> P x'" "d_struct fs x0 j = Some x"
  shows "P x"
proof -
  have inv: "P y" if "acc = Some y0" "P y0" "fold (d_member fs) ms acc = Some y" for ms acc y0 y
    using that
  proof (induction ms arbitrary: acc y0)
    case (Cons m ms)
    obtain k j where m: "m = (k, j)" by force
    show ?case
    proof (cases "d_member fs m acc")
      case None
      have "fold (d_member fs) ms None = None" by (induction ms) (auto simp: d_member_def)
      with None Cons.prems(3) show ?thesis by simp
    next
      case (Some y1)
      have "P y1"
      proof (cases "find (\<lambda>(n, _). key_eq k n) fs")
        case None
        then show ?thesis using Some Cons.prems(1,2) by (simp add: m d_member_def)
      next
        case (Some nf)
        obtain n f where nf: "nf = (n, f)" by force
        then have "(n, f) \<in> set fs" using Some by (metis (lifting) find_Some_iff nth_mem)
        then show ?thesis using assms(2) Cons.prems(1,2) Some \<open>d_member fs m acc = Some y1\<close> by (auto simp: m nf d_member_def)
      qed
      then show ?thesis using Cons.IH [OF Some] Cons.prems(3) by simp
    qed
  qed simp
  show ?thesis
  proof (cases j)
    case (JObj ms)
    then show ?thesis using inv [OF refl assms(1), of ms x] assms(3) by (simp add: d_struct_def)
  qed (use assms(1,3) in \<open>simp_all add: d_struct_def\<close>)
qed

lemma camera_fields_ok: "(n, f) \<in> set camera_fields \<Longrightarrow> camera_ok c \<Longrightarrow> f j c = Some c' \<Longrightarrow> camera_ok c'"
  by (auto simp: camera_fields_def fld_def camera_ok_def d_int_def d_uint64_def split: json.splits if_splits)

lemma zero_camera_ok [simp]: "camera_ok zero_camera"
  by (simp add: camera_ok_def zero_camera_def in_s64_def)

lemma camera_decoded_ok: "d_struct camera_fields zero_camera j = Some c \<Longrightarrow> camera_ok c"
  by (rule d_struct_invariant [where P = camera_ok and fs = camera_fields, OF zero_camera_ok])
    (rule camera_fields_ok)

subsection \<open>Loading\<close>

lemma length_HexEncode: "length (HexEncode bs) = 2 * length bs"
  by (induction bs) (simp_all add: HexEncode_def)

lemma HexEncode_nonempty: "length bs = 32 \<Longrightarrow> HexEncode bs \<noteq> []"
  using length_HexEncode [of bs] by auto

text \<open>C24: Whatever the configuration file contains, a configuration that \<open>Load\<close> returns is well-formed:
  non-zero HTTP and gRPC ports and GC target, at least three live segments, a non-empty signing
  secret. Unless the secret comes from the file it is 64 hexadecimal digits long and is what \<open>Save\<close>
  persists, so that a restart does not invalidate issued tokens.\<close>

theorem Load_wellformed:
  assumes "Load yaml_decode indoor outdoor opened rnd = (Inr cfg, saved)" "\<And>bs. rnd = Inr bs \<Longrightarrow> length bs = 32"
  shows "config_ok cfg \<and>
    (case saved of
       Some cfg' \<Rightarrow> Secret cfg' = Secret cfg \<and> length (Secret cfg) = 64
     | None \<Rightarrow> \<exists>content cfg0. opened = FileContent content \<and> yaml_decode content = Inr cfg0 \<and> Secret cfg = Secret cfg0)"
proof (cases opened)
  case FileMissing
  then show ?thesis
    using assms HexEncode_nonempty
    by (auto simp: Load_def config_ok_def NewDefaultConfig_def Let_def length_HexEncode split: sum.splits)
next
  case (FileContent content)
  with assms(1) obtain cfg0 where cfg0: "yaml_decode content = Inr cfg0" by (auto simp: Load_def split: sum.splits)
  with FileContent assms HexEncode_nonempty show ?thesis
    by (auto simp: Load_def config_ok_def Let_def length_HexEncode split: sum.splits if_splits)
qed (use assms in \<open>simp add: Load_def\<close>)

lemma Load_wellformed_witness:
  "\<exists>cfg. Load (\<lambda>_. Inr (NewDefaultConfig ''in'' ''out'')) ''in'' ''out'' (FileContent []) (Inr (replicate 32 7)) =
      (Inr cfg, Some (cfg)) \<and> config_ok cfg"
proof -
  let ?r = "Load (\<lambda>_. Inr (NewDefaultConfig ''in'' ''out'')) ''in'' ''out'' (FileContent []) (Inr (replicate 32 7))"
  have "?r = (Inr ((NewDefaultConfig ''in'' ''out'')\<lparr>Secret := HexEncode (replicate 32 7)\<rparr>),
      Some ((NewDefaultConfig ''in'' ''out'')\<lparr>Secret := HexEncode (replicate 32 7)\<rparr>))"
    by (simp add: Load_def NewDefaultConfig_def Let_def)
  from this Load_wellformed [OF this] show ?thesis by auto
qed

end
