(* ===== verification/Badger.thy ===== *)
theory Badger
  imports Go_Json Go_Path "HOL-Library.List_Lexorder" "HOL-Library.Char_ord"
begin

text \<open>
  The embedded key-value store (\<open>github.com/dgraph-io/badger\<close>, not part of the repository) as a
  parameter: what starting a transaction sees, the operations of a transaction, and
  \<open>DB.Update\<close>, which runs a function in a read-write transaction. \<open>badger_ok\<close> states the
  documented behaviour the repository relies on: a transaction reads its own writes, an
  iterator yields the live items in ascending byte order of their keys, \<open>Update\<close> commits exactly
  when the function and the commit succeed and otherwise leaves the database as it was.
  \<open>mem_badger\<close> is a concrete instance for examples.
\<close>

datatype store_err = ErrKeyNotFound | ErrNotFound | UnmarshalErr | DbErr string

record ('d, 't) badger_ops =
  db_begin :: "'d \<Rightarrow> 't"
  db_Update :: "'d \<Rightarrow> ('t \<Rightarrow> store_err + 't) \<Rightarrow> store_err option \<times> 'd"
  txn_Get :: "'t \<Rightarrow> string \<Rightarrow> store_err + json"
  txn_Set :: "'t \<Rightarrow> string \<Rightarrow> json \<Rightarrow> store_err + 't"
  txn_Delete :: "'t \<Rightarrow> string \<Rightarrow> store_err + 't"
  txn_items :: "'t \<Rightarrow> (string \<times> json) list"

definition badger_ok :: "('d, 't) badger_ops \<Rightarrow> bool" where
  "badger_ok B \<longleftrightarrow>
     (\<forall>t k v t'. txn_Set B t k v = Inr t' \<longrightarrow> (\<forall>k'. txn_Get B t' k' = (if k' = k then Inr v else txn_Get B t k'))) \<and>
     (\<forall>t k t'. txn_Delete B t k = Inr t' \<longrightarrow> (\<forall>k'. txn_Get B t' k' = (if k' = k then Inl ErrKeyNotFound else txn_Get B t k'))) \<and>
     (\<forall>t. sorted_wrt (<) (map fst (txn_items B t)) \<and> (\<forall>k v. (k, v) \<in> set (txn_items B t) \<longleftrightarrow> txn_Get B t k = Inr v)) \<and>
     (\<forall>d f d'. db_Update B d f = (None, d') \<longrightarrow>
        (\<exists>t. f (db_begin B d) = Inr t \<and> (\<forall>k. txn_Get B (db_begin B d') k = txn_Get B t k))) \<and>
     (\<forall>d f e d'. db_Update B d f = (Some e, d') \<longrightarrow> (\<forall>k. txn_Get B (db_begin B d') k = txn_Get B (db_begin B d) k)) \<and>
     (\<forall>d f e. f (db_begin B d) = Inl e \<longrightarrow> fst (db_Update B d f) = Some e)"

text \<open>The loop \<open>for it.Seek(prefix); it.ValidForPrefix(prefix); it.Next()\<close>.\<close>

definition scan_prefix :: "string \<Rightarrow> (string \<times> json) list \<Rightarrow> (string \<times> json) list" where
  "scan_prefix p items = takeWhile (\<lambda>(k, _). HasPrefix k p) (dropWhile (\<lambda>(k, _). k < p) items)"

text \<open>An in-memory store: an association list in which the first entry of a key counts. Every
  operation succeeds.\<close>

type_synonym mem_db = "(string \<times> json) list"

fun mem_insert :: "string \<Rightarrow> json \<Rightarrow> mem_db \<Rightarrow> mem_db" where
  "mem_insert k v [] = [(k, v)]"
| "mem_insert k v ((k', v') # d) =
     (if k = k' then (k, v) # d else if k < k' then (k, v) # (k', v') # d else (k', v') # mem_insert k v d)"

definition mem_items :: "mem_db \<Rightarrow> mem_db" where
  "mem_items t = foldr (\<lambda>(k, v). mem_insert k v) t []"

definition mem_badger :: "(mem_db, mem_db) badger_ops" where
  "mem_badger =
     \<lparr>db_begin = (\<lambda>d. d), db_Update = (\<lambda>d f. case f d of Inl e \<Rightarrow> (Some e, d) | Inr t \<Rightarrow> (None, t)),
      txn_Get = (\<lambda>t k. case map_of t k of None \<Rightarrow> Inl ErrKeyNotFound | Some v \<Rightarrow> Inr v),
      txn_Set = (\<lambda>t k v. Inr ((k, v) # t)),
      txn_Delete = (\<lambda>t k. Inr (filter (\<lambda>(k', _). k' \<noteq> k) t)),
      txn_items = mem_items\<rparr>"

subsection \<open>The concrete instance\<close>

lemma mem_insert_keys: "fst ` set (mem_insert k v d) = insert k (fst ` set d)"
  by (induction k v d rule: mem_insert.induct) auto

lemma mem_insert_sorted: "sorted_wrt (<) (map fst d) \<Longrightarrow> sorted_wrt (<) (map fst (mem_insert k v d))"
proof (induction k v d rule: mem_insert.induct)
  case (2 k v k' v' d)
  have "x \<in> fst ` set d \<Longrightarrow> k' < x" for x using 2(2) by auto
  then show ?case using 2 mem_insert_keys [of k v d] by (auto simp: image_iff) force
qed simp

lemma map_of_mem_insert: "sorted_wrt (<) (map fst d) \<Longrightarrow> map_of (mem_insert k v d) = (map_of d)(k \<mapsto> v)"
proof (induction k v d rule: mem_insert.induct)
  case (2 k v k' v' d)
  then show ?case by (auto simp: fun_eq_iff)
qed simp

lemma mem_items_sorted: "sorted_wrt (<) (map fst (mem_items t))"
  by (induction t) (auto simp: mem_items_def mem_insert_sorted)

lemma map_of_mem_items: "map_of (mem_items t) = map_of t"
proof (induction t)
  case (Cons a t)
  then show ?case
    using map_of_mem_insert [OF mem_items_sorted] by (cases a) (simp add: mem_items_def)
qed (simp add: mem_items_def)

lemma map_of_filter_key: "map_of (filter (\<lambda>(k', _). k' \<noteq> k) t) x = (if x = k then None else map_of t x)"
  by (induction t) auto

lemma mem_items_iff: "(k, v) \<in> set (mem_items t) \<longleftrightarrow> map_of t k = Some v"
proof -
  have "distinct (map fst (mem_items t))" using mem_items_sorted strict_sorted_iff by blast
  then show ?thesis using map_of_eq_Some_iff [of "mem_items t" k v] map_of_mem_items [of t] by metis
qed

lemma mem_badger_simps [simp]:
  "db_begin mem_badger d = d" "db_Update mem_badger d f = (case f d of Inl e \<Rightarrow> (Some e, d) | Inr t \<Rightarrow> (None, t))"
  "txn_Get mem_badger t k = (case map_of t k of None \<Rightarrow> Inl ErrKeyNotFound | Some v \<Rightarrow> Inr v)"
  "txn_Set mem_badger t k v = Inr ((k, v) # t)"
  "txn_Delete mem_badger t k = Inr (filter (\<lambda>(k', _). k' \<noteq> k) t)" "txn_items mem_badger t = mem_items t"
  by (simp_all add: mem_badger_def)

lemma mem_badger_ok: "badger_ok mem_badger"
  unfolding badger_ok_def mem_badger_simps
  using mem_items_sorted
  by (auto simp: mem_items_iff map_of_filter_key split: option.splits sum.splits)

subsection \<open>Iteration\<close>

lemma prefix_block:
  assumes "p \<le> k" "\<not> HasPrefix k p" "k \<le> (k' :: string)"
  shows "\<not> HasPrefix k' p"
  using assms
proof (induction p arbitrary: k k')
  case (Cons c p)
  then show ?case by (cases k; cases k') (auto simp: HasPrefix_def)
qed (simp add: HasPrefix_def)

lemma prefix_ge: "HasPrefix k p \<Longrightarrow> p \<le> (k :: string)"
proof (induction p arbitrary: k)
  case (Cons c p)
  then show ?case by (cases k) (auto simp: HasPrefix_def)
qed simp

lemma takeWhile_prefix:
  assumes "sorted (map fst items)" "\<forall>(k, v)\<in>set items. p \<le> k"
  shows "takeWhile (\<lambda>(k, _). HasPrefix k p) items = filter (\<lambda>(k, _). HasPrefix k p) items"
  using assms
proof (induction items)
  case (Cons a items)
  obtain k v where a: "a = (k, v)" by force
  show ?case
  proof (cases "HasPrefix k p")
    case False
    have "\<not> HasPrefix k' p" if "(k', v') \<in> set items" for k' v'
      using Cons.prems that False a by (intro prefix_block [of p k k']) force+
    then have "filter (\<lambda>(k, _). HasPrefix k p) items = []" by (auto simp: filter_empty_conv)
    then show ?thesis using False a by simp
  qed (use Cons a in simp)
qed simp

text \<open>Seeking and stopping at the first other key visits exactly the keys with the prefix.\<close>

lemma scan_prefix_filter:
  assumes "sorted (map fst items)"
  shows "scan_prefix p items = filter (\<lambda>(k, _). HasPrefix k p) items"
  using assms
proof (induction items)
  case (Cons a items)
  obtain k v where a: "a = (k, v)" by force
  show ?case
  proof (cases "k < p")
    case True
    then have "\<not> HasPrefix k p" using prefix_ge [of k p] by auto
    then show ?thesis using Cons True a by (simp add: scan_prefix_def)
  next
    case False
    then have "\<forall>(k', v')\<in>set (a # items). p \<le> k'" using Cons.prems a by force
    then show ?thesis using takeWhile_prefix [OF Cons.prems] False a by (simp add: scan_prefix_def)
  qed
qed (simp add: scan_prefix_def)

end
