(* ===== verification/Storage.thy ===== *)
theory Storage
  imports Badger Config
begin

text \<open>
  \<open>pkg/storage/storage.go\<close>: cameras, tags, folders and users kept as JSON under prefixed keys of
  the embedded database, with a cached camera list. Every operation returns its error (\<open>None\<close> for
  nil) or result and the new state; the database is the parameter \<open>B\<close> of theory \<open>Badger\<close>. The
  order in which Go ranges over a map is the order of a list argument.

  Shown: each kind of entity behaves as a finite map from identifiers (an interface that all
  four kinds implement); lists contain exactly the stored entities and the cache never changes
  what is listed as long as operations do not overlap; billing a batch of cameras; backups
  restore; and the interleaving in which the cache becomes stale.
\<close>

record 'd Storage =
  db :: 'd
  cachedCameras :: "CameraConfig list option"

abbreviation PrefixCamera :: string where "PrefixCamera \<equiv> ''camera:''"
abbreviation PrefixTag :: string where "PrefixTag \<equiv> ''tag:''"
abbreviation PrefixFolder :: string where "PrefixFolder \<equiv> ''folder:''"
abbreviation PrefixUser :: string where "PrefixUser \<equiv> ''user:''"

definition invalidateCameraCache :: "'d Storage \<Rightarrow> 'd Storage" where
  "invalidateCameraCache s = s\<lparr>cachedCameras := None\<rparr>"

text \<open>\<open>db.Update\<close> on the state.\<close>

definition update_db :: "('d, 't) badger_ops \<Rightarrow> ('t \<Rightarrow> store_err + 't) \<Rightarrow> 'd Storage \<Rightarrow> store_err option \<times> 'd Storage" where
  "update_db B f s = (case db_Update B (db s) f of (e, d) \<Rightarrow> (e, s\<lparr>db := d\<rparr>))"

text \<open>\<open>txn.Get\<close> followed by \<open>json.Unmarshal\<close> of the value.\<close>

definition txn_load :: "('d, 't) badger_ops \<Rightarrow> (json \<Rightarrow> 'a option) \<Rightarrow> 't \<Rightarrow> string \<Rightarrow> store_err + 'a" where
  "txn_load B unmarshal t k =
     and_then (txn_Get B t k) (\<lambda>v. case unmarshal v of None \<Rightarrow> Inl UnmarshalErr | Some x \<Rightarrow> Inr x)"

definition load_all :: "(json \<Rightarrow> 'a option) \<Rightarrow> (string \<times> json) list \<Rightarrow> store_err + 'a list" where
  "load_all unmarshal items = (case d_list unmarshal (map snd items) of None \<Rightarrow> Inl UnmarshalErr | Some xs \<Rightarrow> Inr xs)"

subsection \<open>Cameras\<close>

definition SaveCamera :: "('d, 't) badger_ops \<Rightarrow> CameraConfig \<Rightarrow> 'd Storage \<Rightarrow> store_err option \<times> 'd Storage" where
  "SaveCamera B cam s =
     update_db B (\<lambda>t. txn_Set B t (PrefixCamera @ ID cam) (camera_json cam)) (invalidateCameraCache s)"

definition GetCamera :: "('d, 't) badger_ops \<Rightarrow> string \<Rightarrow> 'd Storage \<Rightarrow> store_err + CameraConfig" where
  "GetCamera B i s = txn_load B camera_unmarshal (db_begin B (db s)) (PrefixCamera @ i)"

definition DeleteCamera :: "('d, 't) badger_ops \<Rightarrow> string \<Rightarrow> 'd Storage \<Rightarrow> store_err option \<times> 'd Storage" where
  "DeleteCamera B i s = update_db B (\<lambda>t. txn_Delete B t (PrefixCamera @ i)) (invalidateCameraCache s)"

text \<open>The part of \<open>ListCameras\<close> that reads the database.\<close>

definition read_cameras :: "('d, 't) badger_ops \<Rightarrow> 'd \<Rightarrow> store_err + CameraConfig list" where
  "read_cameras B d = load_all camera_unmarshal (scan_prefix PrefixCamera (txn_items B (db_begin B d)))"

definition ListCameras :: "('d, 't) badger_ops \<Rightarrow> 'd Storage \<Rightarrow> (store_err + CameraConfig list) \<times> 'd Storage" where
  "ListCameras B s =
     (case cachedCameras s of
        Some cached \<Rightarrow> (Inr (map Clone cached), s)
      | None \<Rightarrow>
          (case read_cameras B (db s) of
             Inl e \<Rightarrow> (Inl e, s)
           | Inr cameras \<Rightarrow> (Inr (map Clone cameras), s\<lparr>cachedCameras := Some cameras\<rparr>)))"

definition UpdateCameraTx ::
  "('d, 't) badger_ops \<Rightarrow> string \<Rightarrow> (CameraConfig \<Rightarrow> CameraConfig \<times> bool) \<Rightarrow> 'd Storage \<Rightarrow> store_err option \<times> 'd Storage" where
  "UpdateCameraTx B i updateFn s =
     update_db B
       (\<lambda>t. and_then (txn_load B camera_unmarshal t (PrefixCamera @ i))
         (\<lambda>cam. case updateFn cam of
            (cam', changed) \<Rightarrow>
              if changed then txn_Set B t (PrefixCamera @ i) (camera_json cam') else Inr t))
       (invalidateCameraCache s)"

subsection \<open>Traffic\<close>

definition default_limit :: nat where
  "default_limit = 200 * 1024 * 1024 * 1024"

text \<open>What one batch entry does to a camera.\<close>

definition bill :: "string \<Rightarrow> nat \<Rightarrow> CameraConfig \<Rightarrow> CameraConfig" where
  "bill nowMonth delta cam =
     (let cam1 = (if LastResetMonth cam \<noteq> nowMonth then cam\<lparr>LastResetMonth := nowMonth, TrafficUsed := 0\<rparr> else cam);
          cam2 = (if TrafficLimit cam1 = 0 then cam1\<lparr>TrafficLimit := default_limit\<rparr> else cam1)
      in cam2\<lparr>TrafficUsed := u64 (TrafficUsed cam2 + delta)\<rparr>)"

definition bill_entry :: "('d, 't) badger_ops \<Rightarrow> string \<Rightarrow> string \<times> nat \<Rightarrow> 't \<Rightarrow> store_err + 't" where
  "bill_entry B nowMonth = (\<lambda>(i, delta) t.
     case txn_Get B t (PrefixCamera @ i) of
       Inl ErrKeyNotFound \<Rightarrow> Inr t
     | Inl e \<Rightarrow> Inl e
     | Inr v \<Rightarrow>
         (case camera_unmarshal v of
            None \<Rightarrow> Inl UnmarshalErr
          | Some cam \<Rightarrow> txn_Set B t (PrefixCamera @ i) (camera_json (bill nowMonth delta cam))))"

function chunks :: "nat \<Rightarrow> 'a list \<Rightarrow> 'a list list" where
  "chunks n xs = (if xs = [] \<or> n = 0 then [] else take n xs # chunks n (drop n xs))"
  by auto
termination
  by (relation "measure (\<lambda>(n, xs). length xs)") auto

declare chunks.simps [simp del]

text \<open>The loop over chunks stops at the first failing one.\<close>

fun bill_chunks :: "('d, 't) badger_ops \<Rightarrow> string \<Rightarrow> (string \<times> nat) list list \<Rightarrow> 'd Storage \<Rightarrow> store_err option \<times> 'd Storage" where
  "bill_chunks B nowMonth [] s = (None, s)"
| "bill_chunks B nowMonth (c # cs) s =
     (case update_db B (for_each (bill_entry B nowMonth) c) s of
        (None, s1) \<Rightarrow> bill_chunks B nowMonth cs s1
      | (Some e, s1) \<Rightarrow> (Some e, s1))"

definition BatchUpdateTraffic :: "('d, 't) badger_ops \<Rightarrow> (string \<times> nat) list \<Rightarrow> string \<Rightarrow> 'd Storage \<Rightarrow> store_err option \<times> 'd Storage" where
  "BatchUpdateTraffic B updates nowMonth s =
     (if updates = [] then (None, s)
      else bill_chunks B nowMonth (chunks 200 updates) (invalidateCameraCache s))"

subsection \<open>Tags, folders, users\<close>

definition SaveTag :: "('d, 't) badger_ops \<Rightarrow> TagConfig \<Rightarrow> 'd Storage \<Rightarrow> store_err option \<times> 'd Storage" where
  "SaveTag B tag s = update_db B (\<lambda>t. txn_Set B t (PrefixTag @ tag_ID tag) (tag_json tag)) s"

definition DeleteTag :: "('d, 't) badger_ops \<Rightarrow> string \<Rightarrow> 'd Storage \<Rightarrow> store_err option \<times> 'd Storage" where
  "DeleteTag B i s = update_db B (\<lambda>t. txn_Delete B t (PrefixTag @ i)) s"

definition GetTag :: "('d, 't) badger_ops \<Rightarrow> string \<Rightarrow> 'd Storage \<Rightarrow> store_err + TagConfig" where
  "GetTag B i s = txn_load B tag_unmarshal (db_begin B (db s)) (PrefixTag @ i)"

definition ListTags :: "('d, 't) badger_ops \<Rightarrow> 'd Storage \<Rightarrow> store_err + TagConfig list" where
  "ListTags B s = load_all tag_unmarshal (scan_prefix PrefixTag (txn_items B (db_begin B (db s))))"

definition SaveFolder :: "('d, 't) badger_ops \<Rightarrow> FolderConfig \<Rightarrow> 'd Storage \<Rightarrow> store_err option \<times> 'd Storage" where
  "SaveFolder B folder s = update_db B (\<lambda>t. txn_Set B t (PrefixFolder @ folder_ID folder) (folder_json folder)) s"

definition DeleteFolder :: "('d, 't) badger_ops \<Rightarrow> string \<Rightarrow> 'd Storage \<Rightarrow> store_err option \<times> 'd Storage" where
  "DeleteFolder B i s = update_db B (\<lambda>t. txn_Delete B t (PrefixFolder @ i)) s"

definition GetFolder :: "('d, 't) badger_ops \<Rightarrow> string \<Rightarrow> 'd Storage \<Rightarrow> store_err + FolderConfig" where
  "GetFolder B i s = txn_load B folder_unmarshal (db_begin B (db s)) (PrefixFolder @ i)"

definition ListFolders :: "('d, 't) badger_ops \<Rightarrow> 'd Storage \<Rightarrow> store_err + FolderConfig list" where
  "ListFolders B s = load_all folder_unmarshal (scan_prefix PrefixFolder (txn_items B (db_begin B (db s))))"

definition SaveUser :: "('d, 't) badger_ops \<Rightarrow> User \<Rightarrow> 'd Storage \<Rightarrow> store_err option \<times> 'd Storage" where
  "SaveUser B user s = update_db B (\<lambda>t. txn_Set B t (PrefixUser @ Username user) (user_json user)) s"

definition GetUser :: "('d, 't) badger_ops \<Rightarrow> string \<Rightarrow> 'd Storage \<Rightarrow> store_err + User" where
  "GetUser B name s =
     (case txn_load B user_unmarshal (db_begin B (db s)) (PrefixUser @ name) of
        Inl ErrKeyNotFound \<Rightarrow> Inl ErrNotFound
      | r \<Rightarrow> r)"

definition ListUsers :: "('d, 't) badger_ops \<Rightarrow> 'd Storage \<Rightarrow> store_err + User list" where
  "ListUsers B s = load_all user_unmarshal (scan_prefix PrefixUser (txn_items B (db_begin B (db s))))"

definition DeleteUser :: "('d, 't) badger_ops \<Rightarrow> string \<Rightarrow> 'd Storage \<Rightarrow> store_err option \<times> 'd Storage" where
  "DeleteUser B name s = update_db B (\<lambda>t. txn_Delete B t (PrefixUser @ name)) s"

definition HasUsers :: "('d, 't) badger_ops \<Rightarrow> 'd Storage \<Rightarrow> bool" where
  "HasUsers B s \<longleftrightarrow> scan_prefix PrefixUser (txn_items B (db_begin B (db s))) \<noteq> []"

subsection \<open>Migration and backups\<close>

definition put_cameras :: "('d, 't) badger_ops \<Rightarrow> CameraConfig list \<Rightarrow> 't \<Rightarrow> store_err + 't" where
  "put_cameras B = for_each (\<lambda>c t. txn_Set B t (PrefixCamera @ ID c) (camera_json c))"

definition put_tags :: "('d, 't) badger_ops \<Rightarrow> TagConfig list \<Rightarrow> 't \<Rightarrow> store_err + 't" where
  "put_tags B = for_each (\<lambda>c t. txn_Set B t (PrefixTag @ tag_ID c) (tag_json c))"

definition put_folders :: "('d, 't) badger_ops \<Rightarrow> FolderConfig list \<Rightarrow> 't \<Rightarrow> store_err + 't" where
  "put_folders B = for_each (\<lambda>c t. txn_Set B t (PrefixFolder @ folder_ID c) (folder_json c))"

definition MigrateFromConfig :: "('d, 't) badger_ops \<Rightarrow> Config option \<Rightarrow> 'd Storage \<Rightarrow> store_err option \<times> 'd Storage" where
  "MigrateFromConfig B cfg s =
     (case cfg of
        None \<Rightarrow> (None, s)
      | Some c \<Rightarrow>
          update_db B
            (\<lambda>t. let hasCameras = scan_prefix PrefixCamera (txn_items B t) \<noteq> [] in
               and_then (if \<not> hasCameras \<and> 0 < length (Cameras c) then put_cameras B (Cameras c) t else Inr t)
                 (\<lambda>t1. let hasTags = scan_prefix PrefixTag (txn_items B t1) \<noteq> [] in
                    if \<not> hasTags \<and> 0 < length (GlobalTags c) then put_tags B (GlobalTags c) t1 else Inr t1))
            (invalidateCameraCache s))"

record BackupData =
  bk_Cameras :: "CameraConfig list option"
  bk_Tags :: "TagConfig list option"
  bk_Folders :: "FolderConfig list option"

definition d_cameras :: "json \<Rightarrow> CameraConfig list option \<Rightarrow> CameraConfig list option option" where
  "d_cameras j old = d_slice camera_unmarshal j"

definition d_tags :: "json \<Rightarrow> TagConfig list option \<Rightarrow> TagConfig list option option" where
  "d_tags j old = d_slice tag_unmarshal j"

definition d_folders :: "json \<Rightarrow> FolderConfig list option \<Rightarrow> FolderConfig list option option" where
  "d_folders j old = d_slice folder_unmarshal j"

definition backup_fields :: "BackupData field list" where
  "backup_fields =
     [(''cameras'', fld d_cameras bk_Cameras (\<lambda>v. bk_Cameras_update (\<lambda>_. v))),
      (''tags'', fld d_tags bk_Tags (\<lambda>v. bk_Tags_update (\<lambda>_. v))),
      (''folders'', fld d_folders bk_Folders (\<lambda>v. bk_Folders_update (\<lambda>_. v)))]"

definition backup_unmarshal :: "json \<Rightarrow> BackupData option" where
  "backup_unmarshal = d_struct backup_fields \<lparr>bk_Cameras = None, bk_Tags = None, bk_Folders = None\<rparr>"

text \<open>\<open>omitempty\<close> leaves out an empty list of folders.\<close>

definition backup_json :: "BackupData \<Rightarrow> json" where
  "backup_json b = JObj
     ([(''cameras'', e_slice camera_json (bk_Cameras b)), (''tags'', e_slice tag_json (bk_Tags b))] @
      (case bk_Folders b of Some (f # fs) \<Rightarrow> [(''folders'', e_slice folder_json (bk_Folders b))] | _ \<Rightarrow> []))"

definition ExportJSON :: "('d, 't) badger_ops \<Rightarrow> 'd Storage \<Rightarrow> (store_err + json) \<times> 'd Storage" where
  "ExportJSON B s =
     (case ListCameras B s of
        (Inl e, s1) \<Rightarrow> (Inl e, s1)
      | (Inr cams, s1) \<Rightarrow>
          (case ListTags B s1 of
             Inl e \<Rightarrow> (Inl e, s1)
           | Inr tags \<Rightarrow>
               (case ListFolders B s1 of
                  Inl e \<Rightarrow> (Inl e, s1)
                | Inr folders \<Rightarrow>
                    (Inr (backup_json \<lparr>bk_Cameras = Some cams, bk_Tags = Some tags, bk_Folders = Some folders\<rparr>), s1))))"

text \<open>Ranging over a nil slice is no iteration. The argument is \<open>None\<close> for a text that is no JSON.\<close>

definition slice_elems :: "'a list option \<Rightarrow> 'a list" where
  "slice_elems s = (case s of None \<Rightarrow> [] | Some xs \<Rightarrow> xs)"

definition ImportJSON :: "('d, 't) badger_ops \<Rightarrow> json option \<Rightarrow> 'd Storage \<Rightarrow> store_err option \<times> 'd Storage" where
  "ImportJSON B data s =
     (case Option.bind data backup_unmarshal of
        None \<Rightarrow> (Some UnmarshalErr, s)
      | Some backup \<Rightarrow>
          update_db B
            (\<lambda>t. and_then (put_cameras B (slice_elems (bk_Cameras backup)) t)
               (\<lambda>t1. and_then (put_tags B (slice_elems (bk_Tags backup)) t1) (put_folders B (slice_elems (bk_Folders backup)))))
            (invalidateCameraCache s))"

subsection \<open>Invariants\<close>

text \<open>What is stored under a prefix is an entity with the key's identifier.\<close>

definition entities_ok :: "string \<Rightarrow> ('a \<Rightarrow> json) \<Rightarrow> ('a \<Rightarrow> bool) \<Rightarrow> ('a \<Rightarrow> string) \<Rightarrow> (string \<Rightarrow> store_err + json) \<Rightarrow> bool" where
  "entities_ok p enc ok ident g \<longleftrightarrow>
     (\<forall>i v. g (p @ i) = Inr v \<longrightarrow> (\<exists>x. v = enc x \<and> ok x \<and> ident x = i))"

definition reads :: "('d, 't) badger_ops \<Rightarrow> 'd Storage \<Rightarrow> string \<Rightarrow> store_err + json" where
  "reads B s = txn_Get B (db_begin B (db s))"

definition data_ok :: "(string \<Rightarrow> store_err + json) \<Rightarrow> bool" where
  "data_ok g \<longleftrightarrow> entities_ok PrefixCamera camera_json camera_ok ID g \<and>
     entities_ok PrefixTag tag_json (\<lambda>_. True) tag_ID g \<and>
     entities_ok PrefixFolder folder_json (\<lambda>_. True) folder_ID g \<and>
     entities_ok PrefixUser user_json (\<lambda>_. True) Username g"

definition cache_ok :: "('d, 't) badger_ops \<Rightarrow> 'd Storage \<Rightarrow> bool" where
  "cache_ok B s \<longleftrightarrow> (\<forall>cs. cachedCameras s = Some cs \<longrightarrow> read_cameras B (db s) = Inr cs)"

definition store_ok :: "('d, 't) badger_ops \<Rightarrow> 'd Storage \<Rightarrow> bool" where
  "store_ok B s \<longleftrightarrow> badger_ok B \<and> data_ok (reads B s) \<and> cache_ok B s"

text \<open>The cameras of a transaction and of the store as maps, and what billing does to the map.\<close>

definition cam_at :: "(string \<Rightarrow> store_err + json) \<Rightarrow> string \<rightharpoonup> CameraConfig" where
  "cam_at g i = (case g (PrefixCamera @ i) of Inl _ \<Rightarrow> None | Inr v \<Rightarrow> camera_unmarshal v)"

definition bill_map :: "string \<Rightarrow> (string \<times> nat) list \<Rightarrow> (string \<rightharpoonup> CameraConfig) \<Rightarrow> (string \<rightharpoonup> CameraConfig)" where
  "bill_map nowMonth = fold (\<lambda>(i, delta) m. m(i := map_option (bill nowMonth delta) (m i)))"

text \<open>Reading an entity, in terms of what the database returns for its key.\<close>

definition loaded :: "(json \<Rightarrow> 'a option) \<Rightarrow> store_err + json \<Rightarrow> store_err + 'a" where
  "loaded unm r = and_then r (\<lambda>v. case unm v of None \<Rightarrow> Inl UnmarshalErr | Some x \<Rightarrow> Inr x)"

definition ent_map :: "(json \<Rightarrow> 'a option) \<Rightarrow> string \<Rightarrow> (string \<Rightarrow> store_err + json) \<Rightarrow> string \<rightharpoonup> 'a" where
  "ent_map unm p g i = (case loaded unm (g (p @ i)) of Inr x \<Rightarrow> Some x | Inl _ \<Rightarrow> None)"

text \<open>An empty in-memory store.\<close>

definition demo_store :: "mem_db Storage" where
  "demo_store = \<lparr>db = [], cachedCameras = None\<rparr>"

subsection \<open>A collection of entities\<close>

text \<open>What the four kinds of entity promise: saving, deleting and reading act as on a finite map,
  a failed operation changes nothing, and the list is exactly the map.\<close>

datatype 'a coll_op = SaveOp 'a | DelOp string

fun coll_exec :: "('a \<Rightarrow> 's \<Rightarrow> store_err option \<times> 's) \<Rightarrow> (string \<Rightarrow> 's \<Rightarrow> store_err option \<times> 's) \<Rightarrow>
    'a coll_op list \<Rightarrow> 's \<Rightarrow> store_err option list \<times> 's" where
  "coll_exec sv dl [] s = ([], s)"
| "coll_exec sv dl (op # ops) s =
     (case (case op of SaveOp x \<Rightarrow> sv x s | DelOp i \<Rightarrow> dl i s) of
        (e, s1) \<Rightarrow> (case coll_exec sv dl ops s1 of (es, s2) \<Rightarrow> (e # es, s2)))"

fun coll_spec :: "('a \<Rightarrow> string) \<Rightarrow> ('a coll_op \<times> store_err option) list \<Rightarrow> (string \<rightharpoonup> 'a) \<Rightarrow> (string \<rightharpoonup> 'a)" where
  "coll_spec ident [] m = m"
| "coll_spec ident ((op, e) # ops) m =
     coll_spec ident ops
       (if e \<noteq> None then m else case op of SaveOp x \<Rightarrow> m(ident x \<mapsto> x) | DelOp i \<Rightarrow> m(i := None))"

definition coll_map :: "(string \<Rightarrow> 's \<Rightarrow> store_err + 'a) \<Rightarrow> 's \<Rightarrow> string \<rightharpoonup> 'a" where
  "coll_map get s i = (case get i s of Inr x \<Rightarrow> Some x | Inl _ \<Rightarrow> None)"

locale collection =
  fixes ok :: "'s \<Rightarrow> bool" and get :: "string \<Rightarrow> 's \<Rightarrow> store_err + 'a"
    and save :: "'a \<Rightarrow> 's \<Rightarrow> store_err option \<times> 's" and del :: "string \<Rightarrow> 's \<Rightarrow> store_err option \<times> 's"
    and lst :: "'s \<Rightarrow> store_err + 'a list"
    and ident :: "'a \<Rightarrow> string" and valid :: "'a \<Rightarrow> bool" and missing :: store_err
  assumes save_law: "ok s \<Longrightarrow> valid x \<Longrightarrow> save x s = (e, s') \<Longrightarrow>
      ok s' \<and> (\<forall>i. get i s' = (if e = None \<and> i = ident x then Inr x else get i s))"
    and del_law: "ok s \<Longrightarrow> del i s = (e, s') \<Longrightarrow>
      ok s' \<and> (\<forall>j. get j s' = (if e = None \<and> j = i then Inl missing else get j s))"
    and list_law: "ok s \<Longrightarrow> \<exists>xs. lst s = Inr xs \<and> distinct (map ident xs) \<and>
      (\<forall>i x. get i s = Inr x \<longleftrightarrow> x \<in> set xs \<and> ident x = i)"
begin

lemma coll_exec_refines:
  assumes "ok s" "\<forall>x. SaveOp x \<in> set ops \<longrightarrow> valid x" "coll_exec save del ops s = (es, s')"
  shows "ok s' \<and> length es = length ops \<and> coll_map get s' = coll_spec ident (zip ops es) (coll_map get s)"
  using assms
proof (induction ops arbitrary: s es)
  case (Cons op ops)
  obtain e s1 where st: "(case op of SaveOp x \<Rightarrow> save x s | DelOp i \<Rightarrow> del i s) = (e, s1)"
    by (cases "case op of SaveOp x \<Rightarrow> save x s | DelOp i \<Rightarrow> del i s")
  obtain es1 where r: "coll_exec save del ops s1 = (es1, s')" "es = e # es1"
    using Cons.prems(3) st by (auto split: prod.splits)
  have "ok s1 \<and> coll_map get s1 =
      (if e \<noteq> None then coll_map get s else case op of SaveOp x \<Rightarrow> (coll_map get s)(ident x \<mapsto> x) | DelOp i \<Rightarrow> (coll_map get s)(i := None))"
  proof (cases op)
    case (SaveOp x)
    then show ?thesis using st Cons.prems(1,2) save_law [of s x e s1] by (auto simp: coll_map_def fun_eq_iff)
  next
    case (DelOp i)
    then show ?thesis using st Cons.prems(1) del_law [of s i e s1] by (auto simp: coll_map_def fun_eq_iff)
  qed
  then show ?case using Cons.IH [of s1 es1] Cons.prems(2) r by simp
qed simp

lemma list_refines:
  assumes "ok s"
  shows "\<exists>xs. lst s = Inr xs \<and> distinct (map ident xs) \<and> coll_map get s = map_of (map (\<lambda>x. (ident x, x)) xs)"
proof -
  obtain xs where xs: "lst s = Inr xs" "distinct (map ident xs)" "\<And>i x. get i s = Inr x \<longleftrightarrow> x \<in> set xs \<and> ident x = i"
    using list_law [OF assms] by blast
  have d: "distinct (map fst (map (\<lambda>x. (ident x, x)) xs))" using xs(2) by (simp add: comp_def)
  have "coll_map get s i = map_of (map (\<lambda>x. (ident x, x)) xs) i" for i
  proof (cases "get i s")
    case (Inl e)
    then have "\<nexists>x. x \<in> set xs \<and> ident x = i" using xs(3) [of i] by (metis sum.distinct(1))
    then have "map_of (map (\<lambda>x. (ident x, x)) xs) i = None" by (auto simp: map_of_eq_None_iff)
    then show ?thesis using Inl by (simp add: coll_map_def)
  next
    case (Inr x)
    then have "(i, x) \<in> set (map (\<lambda>x. (ident x, x)) xs)" using xs(3) by force
    then show ?thesis using Inr map_of_is_SomeI [OF d] by (simp add: coll_map_def)
  qed
  then show ?thesis using xs(1,2) by blast
qed

end

subsection \<open>Transactions\<close>

lemma badger_okD:
  assumes "badger_ok B"
  shows "txn_Set B t k v = Inr t' \<Longrightarrow> txn_Get B t' k' = (if k' = k then Inr v else txn_Get B t k')"
    and "txn_Delete B t k = Inr t' \<Longrightarrow> txn_Get B t' k' = (if k' = k then Inl ErrKeyNotFound else txn_Get B t k')"
    and "sorted_wrt (<) (map fst (txn_items B t))" and "(k, v) \<in> set (txn_items B t) \<longleftrightarrow> txn_Get B t k = Inr v"
    and "db_Update B d f = (None, d') \<Longrightarrow>
      \<exists>t. f (db_begin B d) = Inr t \<and> (\<forall>k. txn_Get B (db_begin B d') k = txn_Get B t k)"
    and "db_Update B d f = (Some e, d') \<Longrightarrow> txn_Get B (db_begin B d') k = txn_Get B (db_begin B d) k"
    and "f (db_begin B d) = Inl e \<Longrightarrow> fst (db_Update B d f) = Some e"
  using assms unfolding badger_ok_def by (blast | metis)+

lemma update_db_cases:
  assumes "badger_ok B" "update_db B f s = (e, s')"
  obtains (commit) t where "e = None" "f (db_begin B (db s)) = Inr t" "reads B s' = txn_Get B t" "cachedCameras s' = cachedCameras s"
  | (rollback) err where "e = Some err" "reads B s' = reads B s" "cachedCameras s' = cachedCameras s"
proof -
  obtain d where d: "db_Update B (db s) f = (e, d)" "s' = s\<lparr>db := d\<rparr>"
    using assms(2) by (auto simp: update_db_def split: prod.splits)
  show thesis
  proof (cases e)
    case None
    then obtain t where "f (db_begin B (db s)) = Inr t" "\<forall>k. txn_Get B (db_begin B d) k = txn_Get B t k"
      using badger_okD(5) [OF assms(1), of "db s" f d] d by blast
    then show thesis using commit [of t] None d by (auto simp: reads_def fun_eq_iff)
  next
    case (Some err)
    then show thesis using rollback [of err] badger_okD(6) [OF assms(1), of "db s" f err d] d by (auto simp: reads_def fun_eq_iff)
  qed
qed

subsection \<open>Lists of entities\<close>

lemma assoc_list_unique:
  assumes "map fst xs = map fst ys" "distinct (map fst xs)" "set xs = set ys"
  shows "xs = ys"
proof -
  have rebuild: "map (\<lambda>k. (k, the (map_of zs k))) (map fst zs) = zs" if "distinct (map fst zs)" for zs :: "('a \<times> 'b) list"
    unfolding map_map using map_of_is_SomeI [OF that] by (intro map_idI) auto
  have "map_of xs = map_of ys" using assms by (metis map_of_inject_set)
  then show ?thesis using rebuild [of xs] rebuild [of ys] assms by metis
qed

lemma scan_items:
  assumes "badger_ok B"
  shows "distinct (map fst (scan_prefix p (txn_items B t)))"
    and "sorted_wrt (<) (map fst (scan_prefix p (txn_items B t)))"
    and "(k, v) \<in> set (scan_prefix p (txn_items B t)) \<longleftrightarrow> (\<exists>i. k = p @ i \<and> txn_Get B t (p @ i) = Inr v)"
proof -
  have st: "sorted_wrt (<) (map fst (txn_items B t))" using badger_okD(3) [OF assms] .
  then have sc: "scan_prefix p (txn_items B t) = filter (\<lambda>(k, _). HasPrefix k p) (txn_items B t)"
    by (intro scan_prefix_filter) (simp add: strict_sorted_iff)
  show so: "sorted_wrt (<) (map fst (scan_prefix p (txn_items B t)))"
    unfolding sc using st by (simp add: sorted_wrt_map sorted_wrt_filter)
  then show "distinct (map fst (scan_prefix p (txn_items B t)))" by (simp add: strict_sorted_iff)
  have "HasPrefix k p \<longleftrightarrow> (\<exists>i. k = p @ i)"
    by (auto simp: HasPrefix_def) (metis append_take_drop_id)
  then show "(k, v) \<in> set (scan_prefix p (txn_items B t)) \<longleftrightarrow> (\<exists>i. k = p @ i \<and> txn_Get B t (p @ i) = Inr v)"
    unfolding sc using badger_okD(4) [OF assms] by auto
qed

lemma scan_cong:
  assumes "badger_ok B" "\<And>i. txn_Get B t (p @ i) = txn_Get B t' (p @ i)"
  shows "scan_prefix p (txn_items B t) = scan_prefix p (txn_items B t')"
proof (rule assoc_list_unique)
  show st: "set (scan_prefix p (txn_items B t)) = set (scan_prefix p (txn_items B t'))"
    using scan_items(3) [OF assms(1), of _ _ p t] scan_items(3) [OF assms(1), of _ _ p t'] assms(2) by auto
  show "map fst (scan_prefix p (txn_items B t)) = map fst (scan_prefix p (txn_items B t'))"
    by (rule strict_sorted_equal [OF scan_items(2) [OF assms(1)] scan_items(2) [OF assms(1)]]) (simp add: st)
qed (rule scan_items(1) [OF assms(1)])

lemma load_all_scan:
  assumes "badger_ok B" "entities_ok p enc ok ident (txn_Get B t)" "\<And>x. ok x \<Longrightarrow> unm (enc x) = Some x"
  shows "\<exists>xs. load_all unm (scan_prefix p (txn_items B t)) = Inr xs \<and> distinct (map ident xs) \<and>
    (\<forall>i x. txn_load B unm t (p @ i) = Inr x \<longleftrightarrow> x \<in> set xs \<and> ident x = i)"
proof -
  let ?its = "scan_prefix p (txn_items B t)" and ?dec = "\<lambda>(k :: string, v). the (unm v)"
  have item: "\<exists>x. v = enc x \<and> ok x \<and> k = p @ ident x \<and> unm v = Some x" if "(k, v) \<in> set ?its" for k v
    using that scan_items(3) [OF assms(1)] assms(2,3) unfolding entities_ok_def by metis
  have "d_list unm (map snd its) = Some (map ?dec its)" if "set its \<subseteq> set ?its" for its
    using that item by (induction its) force+
  then have ld: "load_all unm ?its = Inr (map ?dec ?its)" by (simp add: load_all_def)
  have "map ((@) p) (map ident (map ?dec ?its)) = map fst ?its"
    using item by (auto simp: map_eq_conv) fastforce
  then have "distinct (map ident (map ?dec ?its))"
    using scan_items(1) [OF assms(1), of p t] by (metis distinct_map)
  moreover have "txn_load B unm t (p @ i) = Inr x \<longleftrightarrow> x \<in> set (map ?dec ?its) \<and> ident x = i" for i x
  proof
    assume "txn_load B unm t (p @ i) = Inr x"
    then obtain v where v: "txn_Get B t (p @ i) = Inr v" "unm v = Some x"
      by (auto simp: txn_load_def and_then_def split: sum.splits option.splits)
    then have "(p @ i, v) \<in> set ?its" using scan_items(3) [OF assms(1)] by blast
    with item [OF this] v show "x \<in> set (map ?dec ?its) \<and> ident x = i" by force
  next
    assume "x \<in> set (map ?dec ?its) \<and> ident x = i"
    then obtain k v where kv: "(k, v) \<in> set ?its" "x = the (unm v)" "ident x = i" by auto
    with item [OF kv(1)] have "k = p @ i" "unm v = Some x" by auto
    then show "txn_load B unm t (p @ i) = Inr x"
      using kv(1) scan_items(3) [OF assms(1)] by (auto simp: txn_load_def)
  qed
  ultimately show ?thesis using ld by blast
qed

lemma read_cameras_cong:
  assumes "badger_ok B" "\<And>i. reads B s (PrefixCamera @ i) = reads B s' (PrefixCamera @ i)"
  shows "read_cameras B (db s) = read_cameras B (db s')"
  using scan_cong [OF assms(1), of "db_begin B (db s)" PrefixCamera "db_begin B (db s')"] assms(2)
  by (simp add: read_cameras_def reads_def)

lemma ListCameras_reads:
  assumes "store_ok B s" shows "fst (ListCameras B s) = read_cameras B (db s)"
  using assms by (auto simp: ListCameras_def store_ok_def cache_ok_def map_idI split: option.splits sum.splits)

lemma ListCameras_ok:
  assumes "store_ok B s" "ListCameras B s = (r, s')"
  shows "store_ok B s' \<and> db s' = db s"
  using assms by (auto simp: ListCameras_def store_ok_def cache_ok_def reads_def split: option.splits sum.splits)

subsection \<open>The four kinds of entity are collections\<close>

lemma data_ok_set:
  "data_ok g \<Longrightarrow> camera_ok c \<Longrightarrow> data_ok (g(PrefixCamera @ ID c := Inr (camera_json c)))"
  "data_ok g \<Longrightarrow> data_ok (g(PrefixTag @ tag_ID tg := Inr (tag_json tg)))"
  "data_ok g \<Longrightarrow> data_ok (g(PrefixFolder @ folder_ID f := Inr (folder_json f)))"
  "data_ok g \<Longrightarrow> data_ok (g(PrefixUser @ Username u := Inr (user_json u)))"
  "data_ok g \<Longrightarrow> data_ok (g(k := Inl e))"
  unfolding data_ok_def entities_ok_def by auto

lemma update_set:
  assumes "badger_ok B" "update_db B (\<lambda>t. txn_Set B t k v) s = (e, s')"
  shows "reads B s' = (if e = None then (reads B s)(k := Inr v) else reads B s)" "cachedCameras s' = cachedCameras s"
  using assms by (cases rule: update_db_cases; auto simp: fun_eq_iff badger_okD(1) [OF assms(1)] reads_def)+

lemma update_del:
  assumes "badger_ok B" "update_db B (\<lambda>t. txn_Delete B t k) s = (e, s')"
  shows "reads B s' = (if e = None then (reads B s)(k := Inl ErrKeyNotFound) else reads B s)" "cachedCameras s' = cachedCameras s"
  using assms by (cases rule: update_db_cases; auto simp: fun_eq_iff badger_okD(2) [OF assms(1)] reads_def)+

lemma invalidate_simps [simp]:
  "reads B (invalidateCameraCache s) = reads B s" "db (invalidateCameraCache s) = db s"
  "cachedCameras (invalidateCameraCache s) = None"
  by (simp_all add: invalidateCameraCache_def reads_def)

lemma store_okI_uncached: "badger_ok B \<Longrightarrow> data_ok (reads B s) \<Longrightarrow> cachedCameras s = None \<Longrightarrow> store_ok B s"
  by (simp add: store_ok_def cache_ok_def)

lemma store_okI_same_cameras:
  assumes "store_ok B s" "data_ok (reads B s')" "cachedCameras s' = cachedCameras s"
    "\<And>i. reads B s' (PrefixCamera @ i) = reads B s (PrefixCamera @ i)"
  shows "store_ok B s'"
  using assms read_cameras_cong [of B s' s] by (auto simp: store_ok_def cache_ok_def)

lemma Get_loaded:
  "GetCamera B i s = loaded camera_unmarshal (reads B s (PrefixCamera @ i))"
  "GetTag B i s = loaded tag_unmarshal (reads B s (PrefixTag @ i))"
  "GetFolder B i s = loaded folder_unmarshal (reads B s (PrefixFolder @ i))"
  "GetUser B i s = (case loaded user_unmarshal (reads B s (PrefixUser @ i)) of Inl ErrKeyNotFound \<Rightarrow> Inl ErrNotFound | r \<Rightarrow> r)"
  by (simp_all add: GetCamera_def GetTag_def GetFolder_def GetUser_def txn_load_def loaded_def reads_def)

lemma loaded_simps [simp]:
  "loaded unm (Inl e) = Inl e" "unm v = Some x \<Longrightarrow> loaded unm (Inr v) = Inr x"
  by (simp_all add: loaded_def)

interpretation cams: collection "store_ok B" "GetCamera B" "SaveCamera B" "DeleteCamera B"
  "\<lambda>s. fst (ListCameras B s)" ID camera_ok ErrKeyNotFound for B :: "('d, 't) badger_ops"
proof unfold_locales
  fix s :: "'d Storage" and x e s'
  assume "store_ok B s" "camera_ok x" "SaveCamera B x s = (e, s')"
  then show "store_ok B s' \<and> (\<forall>i. GetCamera B i s' = (if e = None \<and> i = ID x then Inr x else GetCamera B i s))"
    using update_set [of B "PrefixCamera @ ID x" "camera_json x" "invalidateCameraCache s" e s'] data_ok_set(1)
    by (auto simp: SaveCamera_def store_ok_def cache_ok_def Get_loaded split: if_splits)
next
  fix s :: "'d Storage" and i e s'
  assume "store_ok B s" "DeleteCamera B i s = (e, s')"
  then show "store_ok B s' \<and> (\<forall>j. GetCamera B j s' = (if e = None \<and> j = i then Inl ErrKeyNotFound else GetCamera B j s))"
    using update_del [of B "PrefixCamera @ i" "invalidateCameraCache s" e s'] data_ok_set(5)
    by (auto simp: DeleteCamera_def store_ok_def cache_ok_def Get_loaded split: if_splits)
next
  fix s :: "'d Storage"
  assume "store_ok B s"
  then show "\<exists>xs. fst (ListCameras B s) = Inr xs \<and> distinct (map ID xs) \<and> (\<forall>i x. GetCamera B i s = Inr x \<longleftrightarrow> x \<in> set xs \<and> ID x = i)"
    using load_all_scan [of B PrefixCamera camera_json camera_ok ID "db_begin B (db s)" camera_unmarshal] camera_round_trip
    by (simp add: ListCameras_reads read_cameras_def GetCamera_def store_ok_def data_ok_def reads_def)
qed

interpretation tags: collection "store_ok B" "GetTag B" "SaveTag B" "DeleteTag B" "ListTags B" tag_ID "\<lambda>_. True" ErrKeyNotFound
  for B :: "('d, 't) badger_ops"
proof unfold_locales
  fix s :: "'d Storage" and x e s'
  assume s: "store_ok B s" and sv: "SaveTag B x s = (e, s')"
  note u = update_set [of B "PrefixTag @ tag_ID x" "tag_json x" s e s']
  have "store_ok B s'"
    using s sv u data_ok_set(2) by (intro store_okI_same_cameras [OF s]) (auto simp: SaveTag_def store_ok_def)
  then show "store_ok B s' \<and> (\<forall>i. GetTag B i s' = (if e = None \<and> i = tag_ID x then Inr x else GetTag B i s))"
    using s sv u by (auto simp: SaveTag_def store_ok_def Get_loaded split: if_splits)
next
  fix s :: "'d Storage" and i e s'
  assume s: "store_ok B s" and dl: "DeleteTag B i s = (e, s')"
  note u = update_del [of B "PrefixTag @ i" s e s']
  have "store_ok B s'"
    using s dl u data_ok_set(5) by (intro store_okI_same_cameras [OF s]) (auto simp: DeleteTag_def store_ok_def)
  then show "store_ok B s' \<and> (\<forall>j. GetTag B j s' = (if e = None \<and> j = i then Inl ErrKeyNotFound else GetTag B j s))"
    using s dl u by (auto simp: DeleteTag_def store_ok_def Get_loaded split: if_splits)
next
  fix s :: "'d Storage"
  assume "store_ok B s"
  then show "\<exists>xs. ListTags B s = Inr xs \<and> distinct (map tag_ID xs) \<and> (\<forall>i x. GetTag B i s = Inr x \<longleftrightarrow> x \<in> set xs \<and> tag_ID x = i)"
    using load_all_scan [of B PrefixTag tag_json "\<lambda>_. True" tag_ID "db_begin B (db s)" tag_unmarshal]
    by (simp add: ListTags_def GetTag_def store_ok_def data_ok_def reads_def)
qed

interpretation folders: collection "store_ok B" "GetFolder B" "SaveFolder B" "DeleteFolder B" "ListFolders B" folder_ID "\<lambda>_. True" ErrKeyNotFound
  for B :: "('d, 't) badger_ops"
proof unfold_locales
  fix s :: "'d Storage" and x e s'
  assume s: "store_ok B s" and sv: "SaveFolder B x s = (e, s')"
  note u = update_set [of B "PrefixFolder @ folder_ID x" "folder_json x" s e s']
  have "store_ok B s'"
    using s sv u data_ok_set(3) by (intro store_okI_same_cameras [OF s]) (auto simp: SaveFolder_def store_ok_def)
  then show "store_ok B s' \<and> (\<forall>i. GetFolder B i s' = (if e = None \<and> i = folder_ID x then Inr x else GetFolder B i s))"
    using s sv u by (auto simp: SaveFolder_def store_ok_def Get_loaded split: if_splits)
next
  fix s :: "'d Storage" and i e s'
  assume s: "store_ok B s" and dl: "DeleteFolder B i s = (e, s')"
  note u = update_del [of B "PrefixFolder @ i" s e s']
  have "store_ok B s'"
    using s dl u data_ok_set(5) by (intro store_okI_same_cameras [OF s]) (auto simp: DeleteFolder_def store_ok_def)
  then show "store_ok B s' \<and> (\<forall>j. GetFolder B j s' = (if e = None \<and> j = i then Inl ErrKeyNotFound else GetFolder B j s))"
    using s dl u by (auto simp: DeleteFolder_def store_ok_def Get_loaded split: if_splits)
next
  fix s :: "'d Storage"
  assume "store_ok B s"
  then show "\<exists>xs. ListFolders B s = Inr xs \<and> distinct (map folder_ID xs) \<and> (\<forall>i x. GetFolder B i s = Inr x \<longleftrightarrow> x \<in> set xs \<and> folder_ID x = i)"
    using load_all_scan [of B PrefixFolder folder_json "\<lambda>_. True" folder_ID "db_begin B (db s)" folder_unmarshal]
    by (simp add: ListFolders_def GetFolder_def store_ok_def data_ok_def reads_def)
qed

lemma GetUser_Inr: "GetUser B i s = Inr x \<longleftrightarrow> txn_load B user_unmarshal (db_begin B (db s)) (PrefixUser @ i) = Inr x"
  by (simp add: GetUser_def split: sum.split store_err.split)

interpretation users: collection "store_ok B" "GetUser B" "SaveUser B" "DeleteUser B" "ListUsers B" Username "\<lambda>_. True" ErrNotFound
  for B :: "('d, 't) badger_ops"
proof unfold_locales
  fix s :: "'d Storage" and x e s'
  assume s: "store_ok B s" and sv: "SaveUser B x s = (e, s')"
  note u = update_set [of B "PrefixUser @ Username x" "user_json x" s e s']
  have "store_ok B s'"
    using s sv u data_ok_set(4) by (intro store_okI_same_cameras [OF s]) (auto simp: SaveUser_def store_ok_def)
  then show "store_ok B s' \<and> (\<forall>i. GetUser B i s' = (if e = None \<and> i = Username x then Inr x else GetUser B i s))"
    using s sv u by (auto simp: SaveUser_def store_ok_def Get_loaded split: if_splits)
next
  fix s :: "'d Storage" and i e s'
  assume s: "store_ok B s" and dl: "DeleteUser B i s = (e, s')"
  note u = update_del [of B "PrefixUser @ i" s e s']
  have "store_ok B s'"
    using s dl u data_ok_set(5) by (intro store_okI_same_cameras [OF s]) (auto simp: DeleteUser_def store_ok_def)
  then show "store_ok B s' \<and> (\<forall>j. GetUser B j s' = (if e = None \<and> j = i then Inl ErrNotFound else GetUser B j s))"
    using s dl u by (auto simp: DeleteUser_def store_ok_def Get_loaded split: if_splits)
next
  fix s :: "'d Storage"
  assume "store_ok B s"
  then show "\<exists>xs. ListUsers B s = Inr xs \<and> distinct (map Username xs) \<and> (\<forall>i x. GetUser B i s = Inr x \<longleftrightarrow> x \<in> set xs \<and> Username x = i)"
    using load_all_scan [of B PrefixUser user_json "\<lambda>_. True" Username "db_begin B (db s)" user_unmarshal]
    by (simp add: ListUsers_def store_ok_def data_ok_def reads_def GetUser_Inr)
qed

subsection \<open>Updates inside a transaction\<close>

lemma cam_at_GetCamera: "cam_at (reads B s) = coll_map (GetCamera B) s"
  by (simp add: cam_at_def coll_map_def Get_loaded loaded_def and_then_def fun_eq_iff split: sum.split option.split)

lemma data_ok_camera:
  assumes "data_ok g" "g (PrefixCamera @ i) = Inr v"
  obtains c where "v = camera_json c" "camera_ok c" "ID c = i"
  using assms unfolding data_ok_def entities_ok_def by blast

lemma UpdateCameraTx_law:
  assumes s: "store_ok B s" and fn: "\<And>c. camera_ok c \<Longrightarrow> camera_ok (fst (fn c)) \<and> ID (fst (fn c)) = ID c"
    and up: "UpdateCameraTx B i fn s = (e, s')"
  shows "store_ok B s' \<and> cachedCameras s' = None \<and>
    (e = None \<longrightarrow> (\<exists>c. GetCamera B i s = Inr c \<and> camera_ok c \<and> reads B s' =
       (if snd (fn c) then (reads B s)(PrefixCamera @ i := Inr (camera_json (fst (fn c)))) else reads B s))) \<and>
    (e \<noteq> None \<longrightarrow> reads B s' = reads B s)"
proof -
  have bo: "badger_ok B" and dok: "data_ok (reads B s)" using s by (simp_all add: store_ok_def)
  from bo up [unfolded UpdateCameraTx_def] show ?thesis
  proof (cases rule: update_db_cases)
    case (commit t)
    obtain c where c: "txn_load B camera_unmarshal (db_begin B (db s)) (PrefixCamera @ i) = Inr c"
      "(if snd (fn c) then txn_Set B (db_begin B (db s)) (PrefixCamera @ i) (camera_json (fst (fn c))) else Inr (db_begin B (db s))) = Inr t"
      using commit(2) unfolding invalidate_simps by (auto simp: and_then_eq_Inr case_prod_beta)
    obtain v where v: "reads B s (PrefixCamera @ i) = Inr v" "camera_unmarshal v = Some c"
      using c(1) by (auto simp: txn_load_def and_then_eq_Inr reads_def split: option.splits)
    obtain c' where "v = camera_json c'" "camera_ok c'" "ID c' = i" by (rule data_ok_camera [OF dok v(1)])
    with v(2) have ok: "camera_ok c" "ID c = i" by simp_all
    have r: "reads B s' = (if snd (fn c) then (reads B s)(PrefixCamera @ i := Inr (camera_json (fst (fn c)))) else reads B s)"
      using c(2) commit(3) badger_okD(1) [OF bo, of "db_begin B (db s)"]
      by (auto simp: reads_def fun_eq_iff split: if_splits)
    have "data_ok (reads B s')" unfolding r using dok data_ok_set(1) [OF dok, of "fst (fn c)"] fn [OF ok(1)] ok(2) by auto
    then show ?thesis using commit(1,4) r c(1) ok bo by (auto intro!: store_okI_uncached simp: GetCamera_def)
  next
    case (rollback err)
    then show ?thesis using bo dok by (auto intro!: store_okI_uncached)
  qed
qed

lemma bill_ok:
  assumes "camera_ok c" shows "camera_ok (bill mo d c) \<and> ID (bill mo d c) = ID c"
  using assms by (simp add: camera_ok_def bill_def Let_def default_limit_def)

lemma bill_entry_law:
  assumes "badger_ok B" "data_ok (txn_Get B t)" "bill_entry B mo (i, d) t = Inr t'"
  shows "data_ok (txn_Get B t') \<and> cam_at (txn_Get B t') = bill_map mo [(i, d)] (cam_at (txn_Get B t))"
proof (cases "txn_Get B t (PrefixCamera @ i)")
  case (Inl e)
  then have "t' = t" "cam_at (txn_Get B t) i = None"
    using assms(3) by (auto simp: bill_entry_def cam_at_def split: store_err.splits)
  then show ?thesis using assms(2) by (auto simp: bill_map_def fun_eq_iff)
next
  case (Inr v)
  obtain c where c: "v = camera_json c" "camera_ok c" "ID c = i" by (rule data_ok_camera [OF assms(2) Inr])
  have st: "txn_Set B t (PrefixCamera @ i) (camera_json (bill mo d c)) = Inr t'"
    using assms(3) Inr c by (simp add: bill_entry_def)
  have g: "txn_Get B t' = (txn_Get B t)(PrefixCamera @ i := Inr (camera_json (bill mo d c)))"
    using badger_okD(1) [OF assms(1) st] by (auto simp: fun_eq_iff)
  have "data_ok (txn_Get B t')" unfolding g using data_ok_set(1) [OF assms(2), of "bill mo d c"] bill_ok [OF c(2)] c(3) by auto
  moreover have "cam_at (txn_Get B t') = bill_map mo [(i, d)] (cam_at (txn_Get B t))"
    unfolding g using Inr c bill_ok [OF c(2), of mo d] by (auto simp: cam_at_def bill_map_def fun_eq_iff)
  ultimately show ?thesis by blast
qed

lemma bill_map_append: "bill_map mo (us @ vs) m = bill_map mo vs (bill_map mo us m)"
  by (simp add: bill_map_def)

lemma bill_chunk_law:
  assumes "badger_ok B" "data_ok (txn_Get B t)" "for_each (bill_entry B mo) us t = Inr t'"
  shows "data_ok (txn_Get B t') \<and> cam_at (txn_Get B t') = bill_map mo us (cam_at (txn_Get B t))"
  using assms(2,3)
proof (induction us arbitrary: t)
  case (Cons u us)
  obtain t1 where t1: "bill_entry B mo u t = Inr t1" "for_each (bill_entry B mo) us t1 = Inr t'"
    using Cons.prems(2) by (auto simp: and_then_eq_Inr)
  obtain i d where "u = (i, d)" by force
  then have "data_ok (txn_Get B t1) \<and> cam_at (txn_Get B t1) = bill_map mo [u] (cam_at (txn_Get B t))"
    using bill_entry_law [OF assms(1) Cons.prems(1)] t1(1) by simp
  then show ?case using t1(2) Cons.IH [of t1] bill_map_append [of mo "[u]" us] by simp
qed (simp add: bill_map_def)

lemma bill_chunks_law:
  assumes "badger_ok B" "data_ok (reads B s)" "bill_chunks B mo cs s = (e, s')"
  shows "\<exists>k. data_ok (reads B s') \<and> cachedCameras s' = cachedCameras s \<and>
    cam_at (reads B s') = bill_map mo (concat (take k cs)) (cam_at (reads B s)) \<and> (if e = None then k = length cs else k < length cs)"
  using assms(2,3)
proof (induction cs arbitrary: s)
  case (Cons c cs)
  obtain e1 s1 where u: "update_db B (for_each (bill_entry B mo) c) s = (e1, s1)" by force
  from assms(1) u show ?case
  proof (cases rule: update_db_cases)
    case (commit t)
    have "data_ok (reads B s1)" "cam_at (reads B s1) = bill_map mo c (cam_at (reads B s))"
      using bill_chunk_law [OF assms(1), of "db_begin B (db s)" mo c t] Cons.prems(1) commit by (simp_all add: reads_def)
    moreover have "bill_chunks B mo cs s1 = (e, s')" using Cons.prems(2) u commit(1) by simp
    ultimately obtain k where "data_ok (reads B s') \<and> cachedCameras s' = cachedCameras s1 \<and>
        cam_at (reads B s') = bill_map mo (concat (take k cs)) (bill_map mo c (cam_at (reads B s))) \<and>
        (if e = None then k = length cs else k < length cs)"
      using Cons.IH [of s1] by auto
    then show ?thesis using commit(4) by (intro exI [of _ "Suc k"]) (auto simp: bill_map_append)
  next
    case (rollback err)
    then show ?thesis using Cons.prems u by (intro exI [of _ 0]) (auto simp: bill_map_def)
  qed
qed (simp add: bill_map_def)

lemma concat_take_chunks:
  assumes "0 < n" shows "concat (take k (chunks n xs)) = take (n * k) xs"
  using assms
proof (induction n xs arbitrary: k rule: chunks.induct)
  case (1 n xs)
  show ?case
  proof (cases "xs = []")
    case False
    then show ?thesis using 1 by (cases k) (simp_all add: chunks.simps [of n xs] take_add)
  qed (simp add: chunks.simps)
qed

lemma chunks_index: "0 < n \<Longrightarrow> k < length (chunks n xs) \<Longrightarrow> n * k < length xs"
proof (induction n xs arbitrary: k rule: chunks.induct)
  case (1 n xs)
  show ?case
  proof (cases "xs = []")
    case False
    then show ?thesis using 1(1) [of "k - 1"] 1(2,3) by (cases k) (auto simp: chunks.simps [of n xs])
  qed (use 1 in \<open>simp add: chunks.simps\<close>)
qed

lemma concat_chunks:
  assumes "0 < n" shows "concat (chunks n xs) = xs"
proof -
  let ?k = "length (chunks n xs) + length xs"
  have "length xs \<le> n * ?k" using assms by (cases n) auto
  then show ?thesis using concat_take_chunks [OF assms, of ?k xs] by simp
qed

lemma bill_map_lookup:
  assumes "distinct (map fst us)"
  shows "bill_map mo us m i = (case map_of us i of None \<Rightarrow> m i | Some d \<Rightarrow> map_option (bill mo d) (m i))"
  using assms
proof (induction us arbitrary: m)
  case (Cons u us)
  obtain j d where u: "u = (j, d)" by force
  then have "bill_map mo (u # us) m i = bill_map mo us (m(j := map_option (bill mo d) (m j))) i" by (simp add: bill_map_def)
  also have "\<dots> = (case map_of (u # us) i of None \<Rightarrow> m i | Some d \<Rightarrow> map_option (bill mo d) (m i))"
    using Cons u by (auto simp: map_of_eq_None_iff [symmetric] split: option.split)
  finally show ?case .
qed (simp add: bill_map_def)

subsection \<open>Bulk writes\<close>

lemma put_law:
  assumes "badger_ok B" "for_each (\<lambda>c t. txn_Set B t (p @ ident c) (enc c)) cs t = Inr t'" "distinct (map ident cs)"
  shows "txn_Get B t' = (\<lambda>k. case find (\<lambda>c. k = p @ ident c) cs of Some c \<Rightarrow> Inr (enc c) | None \<Rightarrow> txn_Get B t k)"
  using assms(2,3)
proof (induction cs arbitrary: t)
  case (Cons c cs)
  obtain t1 where t1: "txn_Set B t (p @ ident c) (enc c) = Inr t1" "for_each (\<lambda>c t. txn_Set B t (p @ ident c) (enc c)) cs t1 = Inr t'"
    using Cons.prems(1) by (auto simp: and_then_eq_Inr)
  have nf: "find (\<lambda>x. p @ ident c = p @ ident x) cs = None" using Cons.prems(2) by (auto simp: find_None_iff)
  show ?case
    unfolding Cons.IH [OF t1(2)] using Cons.prems(2) Cons.IH [OF t1(2)] badger_okD(1) [OF assms(1) t1(1)] nf
    by (auto simp: fun_eq_iff split: option.split)
qed simp

lemma put_data_ok:
  assumes "badger_ok B" "\<And>c g. c \<in> set cs \<Longrightarrow> data_ok g \<Longrightarrow> data_ok (g(p @ ident c := Inr (enc c)))"
    and "data_ok (txn_Get B t)" "for_each (\<lambda>c t. txn_Set B t (p @ ident c) (enc c)) cs t = Inr t'"
  shows "data_ok (txn_Get B t')"
  using assms(2-4)
proof (induction cs arbitrary: t)
  case (Cons c cs)
  obtain t1 where t1: "txn_Set B t (p @ ident c) (enc c) = Inr t1" "for_each (\<lambda>c t. txn_Set B t (p @ ident c) (enc c)) cs t1 = Inr t'"
    using Cons.prems(3) by (auto simp: and_then_eq_Inr)
  have "txn_Get B t1 = (txn_Get B t)(p @ ident c := Inr (enc c))"
    using badger_okD(1) [OF assms(1) t1(1)] by (auto simp: fun_eq_iff)
  then show ?case using Cons.IH [OF _ _ t1(2)] Cons.prems(1,2) by simp
qed simp

lemma d_struct_backup:
  assumes "\<And>c. c \<in> set cams \<Longrightarrow> camera_ok c"
  shows "\<exists>b. backup_unmarshal (backup_json \<lparr>bk_Cameras = Some cams, bk_Tags = Some tags, bk_Folders = Some folders\<rparr>) = Some b \<and>
    slice_elems (bk_Cameras b) = cams \<and> slice_elems (bk_Tags b) = tags \<and> slice_elems (bk_Folders b) = folders"
proof -
  have "d_cameras (e_slice camera_json (Some cams)) old = Some (Some cams)"
    "d_tags (e_slice tag_json (Some tags)) old' = Some (Some tags)"
    "d_folders (e_slice folder_json (Some folders)) old'' = Some (Some folders)" for old old' old''
    unfolding d_cameras_def d_tags_def d_folders_def using assms by (intro d_slice_e_slice; force)+
  then show ?thesis
    by (cases folders)
      (simp_all add: backup_unmarshal_def backup_json_def json_defs backup_fields_def slice_elems_def)
qed

lemma find_ident:
  assumes "distinct (map ident xs)"
  shows "find (\<lambda>c. p @ i = p @ ident c) xs = Some x \<longleftrightarrow> x \<in> set xs \<and> ident x = i"
  using assms
proof (induction xs)
  case (Cons a xs)
  have "ident x \<noteq> ident a" if "x \<in> set xs" for x using Cons.prems imageI [OF that, of ident] by auto
  then show ?case using Cons by auto
qed simp

text \<open>The entities listed by \<open>lst\<close>, written back elsewhere, are found there.\<close>

lemma put_listed:
  assumes "badger_ok B" "for_each (\<lambda>c t. txn_Set B t (p @ ident c) (enc c)) xs t = Inr t'" "distinct (map ident xs)"
    and dec: "\<And>x. x \<in> set xs \<Longrightarrow> unm (enc x) = Some x"
  shows "x \<in> set xs \<Longrightarrow> loaded unm (txn_Get B t' (p @ ident x)) = Inr x"
    and "i \<notin> ident ` set xs \<Longrightarrow> txn_Get B t' (p @ i) = txn_Get B t (p @ i)"
    and "(\<And>i. k \<noteq> p @ i) \<Longrightarrow> txn_Get B t' k = txn_Get B t k"
proof -
  note g = put_law [OF assms(1-3)]
  show "x \<in> set xs \<Longrightarrow> loaded unm (txn_Get B t' (p @ ident x)) = Inr x"
    unfolding g using find_ident [OF assms(3), of p "ident x" x] dec by simp
  show "i \<notin> ident ` set xs \<Longrightarrow> txn_Get B t' (p @ i) = txn_Get B t (p @ i)"
    unfolding g using find_ident [OF assms(3), of p i] by (auto split: option.split)
  show "(\<And>i. k \<noteq> p @ i) \<Longrightarrow> txn_Get B t' k = txn_Get B t k"
    unfolding g by (auto simp: find_Some_iff split: option.split)
qed

lemma listed_camera_ok:
  assumes "store_ok B s" "fst (ListCameras B s) = Inr cs" "c \<in> set cs"
  shows "camera_ok c"
proof -
  have "GetCamera B (ID c) s = Inr c" using cams.list_law [OF assms(1)] assms(2,3) by auto
  then obtain v where "reads B s (PrefixCamera @ ID c) = Inr v" "camera_unmarshal v = Some c"
    by (auto simp: Get_loaded loaded_def and_then_eq_Inr split: option.splits)
  moreover have "data_ok (reads B s)" using assms(1) by (simp add: store_ok_def)
  ultimately show ?thesis by (metis camera_round_trip data_ok_camera option.inject)
qed

lemma coll_map_ent:
  "coll_map (GetCamera B) s = ent_map camera_unmarshal PrefixCamera (reads B s)"
  "coll_map (GetTag B) s = ent_map tag_unmarshal PrefixTag (reads B s)"
  "coll_map (GetFolder B) s = ent_map folder_unmarshal PrefixFolder (reads B s)"
  "coll_map (GetUser B) s = ent_map user_unmarshal PrefixUser (reads B s)"
  by (simp_all add: coll_map_def ent_map_def Get_loaded fun_eq_iff split: sum.split store_err.split)

lemma ent_map_cong: "(\<And>i. g (p @ i) = g' (p @ i)) \<Longrightarrow> ent_map unm p g = ent_map unm p g'"
  by (simp add: ent_map_def fun_eq_iff)

lemma ent_map_put:
  assumes "badger_ok B" "for_each (\<lambda>c t. txn_Set B t (p @ ident c) (enc c)) xs t = Inr t'" "distinct (map ident xs)"
    and "\<And>x. x \<in> set xs \<Longrightarrow> unm (enc x) = Some x"
  shows "ent_map unm p (txn_Get B t') = ent_map unm p (txn_Get B t) ++ map_of (map (\<lambda>x. (ident x, x)) xs)"
proof
  fix i
  have p: "loaded unm (txn_Get B t' (p @ ident x)) = Inr x" if "x \<in> set xs" for x
    by (rule put_listed(1) [OF assms(1-3) _ that]) (rule assms(4))
  have q: "txn_Get B t' (p @ i) = txn_Get B t (p @ i)" if "i \<notin> ident ` set xs"
    by (rule put_listed(2) [OF assms(1-3) _ that]) (rule assms(4))
  have d: "distinct (map fst (map (\<lambda>x. (ident x, x)) xs))" using assms(3) by (simp add: comp_def)
  show "ent_map unm p (txn_Get B t') i = (ent_map unm p (txn_Get B t) ++ map_of (map (\<lambda>x. (ident x, x)) xs)) i"
  proof (cases "i \<in> ident ` set xs")
    case True
    then obtain x where x: "x \<in> set xs" "i = ident x" by blast
    then have "map_of (map (\<lambda>x. (ident x, x)) xs) i = Some x" by (intro map_of_is_SomeI [OF d]) simp
    then show ?thesis using p [OF x(1)] x by (simp add: ent_map_def map_add_def)
  next
    case False
    then have "map_of (map (\<lambda>x. (ident x, x)) xs) i = None" by (auto simp: map_of_eq_None_iff)
    then show ?thesis using q [OF False] by (simp add: ent_map_def map_add_def)
  qed
qed

lemma import_law:
  assumes "store_ok B s" "ImportJSON B (Some j) s = (None, s')" "backup_unmarshal j = Some bk"
    and "slice_elems (bk_Cameras bk) = cs" "slice_elems (bk_Tags bk) = ts" "slice_elems (bk_Folders bk) = fs"
    and "distinct (map ID cs)" "distinct (map tag_ID ts)" "distinct (map folder_ID fs)" "\<And>c. c \<in> set cs \<Longrightarrow> camera_ok c"
  shows "store_ok B s' \<and>
    coll_map (GetCamera B) s' = coll_map (GetCamera B) s ++ map_of (map (\<lambda>x. (ID x, x)) cs) \<and>
    coll_map (GetTag B) s' = coll_map (GetTag B) s ++ map_of (map (\<lambda>x. (tag_ID x, x)) ts) \<and>
    coll_map (GetFolder B) s' = coll_map (GetFolder B) s ++ map_of (map (\<lambda>x. (folder_ID x, x)) fs) \<and>
    coll_map (GetUser B) s' = coll_map (GetUser B) s"
proof -
  let ?t0 = "db_begin B (db s)"
  have bo: "badger_ok B" and dok: "data_ok (txn_Get B ?t0)" using assms(1) by (simp_all add: store_ok_def reads_def)
  from bo assms(2) [unfolded ImportJSON_def Option.bind.bind_lunit assms(3) option.case assms(4-6)] show ?thesis
  proof (cases rule: update_db_cases)
    case (commit t3)
    obtain t1 t2 where p: "put_cameras B cs ?t0 = Inr t1" "put_tags B ts t1 = Inr t2" "put_folders B fs t2 = Inr t3"
      using commit(2) by (auto simp: and_then_eq_Inr)
    note p' = p [unfolded put_cameras_def put_tags_def put_folders_def]
    note oc = put_listed(3) [OF bo p'(1) assms(7), of camera_unmarshal]
      and ot = put_listed(3) [OF bo p'(2) assms(8), of tag_unmarshal]
      and ofo = put_listed(3) [OF bo p'(3) assms(9), of folder_unmarshal]
    have dec: "camera_unmarshal (camera_json c) = Some c" if "c \<in> set cs" for c using assms(10) [OF that] by simp
    have d1: "data_ok (txn_Get B t1)" by (rule put_data_ok [OF bo _ dok p'(1)]) (use assms(10) data_ok_set(1) in auto)
    have d2: "data_ok (txn_Get B t2)" by (rule put_data_ok [OF bo _ d1 p'(2)]) (use data_ok_set(2) in auto)
    have d3: "data_ok (txn_Get B t3)" by (rule put_data_ok [OF bo _ d2 p'(3)]) (use data_ok_set(3) in auto)
    have "store_ok B s'" using d3 commit(3,4) bo by (intro store_okI_uncached) auto
    moreover have "ent_map camera_unmarshal PrefixCamera (txn_Get B t3) = ent_map camera_unmarshal PrefixCamera (txn_Get B ?t0) ++ map_of (map (\<lambda>x. (ID x, x)) cs)"
      using ent_map_put [OF bo p'(1) assms(7), of camera_unmarshal] dec ent_map_cong [of "txn_Get B t3" PrefixCamera "txn_Get B t1" camera_unmarshal] ofo ot by simp
    moreover have "ent_map tag_unmarshal PrefixTag (txn_Get B t3) = ent_map tag_unmarshal PrefixTag (txn_Get B ?t0) ++ map_of (map (\<lambda>x. (tag_ID x, x)) ts)"
      using ent_map_put [OF bo p'(2) assms(8), of tag_unmarshal] dec ent_map_cong [of "txn_Get B t3" PrefixTag "txn_Get B t2" tag_unmarshal]
        ent_map_cong [of "txn_Get B t1" PrefixTag "txn_Get B ?t0" tag_unmarshal] ofo oc by simp
    moreover have "ent_map folder_unmarshal PrefixFolder (txn_Get B t3) = ent_map folder_unmarshal PrefixFolder (txn_Get B ?t0) ++ map_of (map (\<lambda>x. (folder_ID x, x)) fs)"
      using ent_map_put [OF bo p'(3) assms(9), of folder_unmarshal] dec
        ent_map_cong [of "txn_Get B t2" PrefixFolder "txn_Get B ?t0" folder_unmarshal] ot oc by simp
    moreover have "ent_map user_unmarshal PrefixUser (txn_Get B t3) = ent_map user_unmarshal PrefixUser (txn_Get B ?t0)"
      using ot oc ofo dec by (intro ent_map_cong) simp
    ultimately show ?thesis unfolding coll_map_ent using commit(3) by (simp add: reads_def)
  qed simp
qed

lemma d_list_all:
  assumes "\<And>j x. d j = Some x \<Longrightarrow> P x" "d_list d js = Some xs" "x \<in> set xs" shows "P x"
  using assms(2,3) by (induction js arbitrary: xs) (auto split: option.splits dest: assms(1))

lemma d_slice_all:
  assumes "\<And>j x. d j = Some x \<Longrightarrow> P x" "d_slice d j = Some v" "x \<in> set (slice_elems v)" shows "P x"
  using assms(2,3) d_list_all [of d P] assms(1) by (auto simp: d_slice_def slice_elems_def split: json.splits)

lemma backup_cameras_ok:
  assumes "backup_unmarshal j = Some bk" "c \<in> set (slice_elems (bk_Cameras bk))" shows "camera_ok c"
proof -
  let ?P = "\<lambda>b. \<forall>c\<in>set (slice_elems (bk_Cameras b)). camera_ok c"
  have "?P bk"
  proof (rule d_struct_invariant [of ?P _ backup_fields, OF _ _ assms(1) [unfolded backup_unmarshal_def]])
    show "?P x'" if f: "(n, f) \<in> set backup_fields" "?P x" "f j x = Some x'" for n f j x x'
    proof -
      consider "f = fld d_cameras bk_Cameras (\<lambda>v. bk_Cameras_update (\<lambda>_. v))" | "bk_Cameras x' = bk_Cameras x"
        using f(1,3) by (auto simp: backup_fields_def fld_def split: option.splits)
      then show ?thesis
      proof cases
        case 1
        then obtain v where "d_slice camera_unmarshal j = Some v" "x' = x\<lparr>bk_Cameras := v\<rparr>"
          using f(3) by (auto simp: fld_def d_cameras_def split: option.splits)
        then show ?thesis using d_slice_all [of camera_unmarshal camera_ok] camera_decoded_ok
          by (auto simp: camera_unmarshal_def)
      qed (use f(2) in simp)
    qed
  qed (simp add: slice_elems_def)
  then show ?thesis using assms(2) by blast
qed

lemma ImportJSON_ok:
  assumes "store_ok B s" "ImportJSON B data s = (e, s')"
  shows "store_ok B s' \<and> (e \<noteq> None \<longrightarrow> reads B s' = reads B s)"
proof (cases "Option.bind data backup_unmarshal")
  case None
  then show ?thesis using assms by (simp add: ImportJSON_def)
next
  case (Some bk)
  then obtain j where j: "backup_unmarshal j = Some bk" by (auto simp: bind_eq_Some_conv)
  have bo: "badger_ok B" and dok: "data_ok (txn_Get B (db_begin B (db s)))" using assms(1) by (simp_all add: store_ok_def reads_def)
  from bo assms(2) [unfolded ImportJSON_def Some option.case] show ?thesis
  proof (cases rule: update_db_cases)
    case (commit t3)
    obtain t1 t2 where p: "put_cameras B (slice_elems (bk_Cameras bk)) (db_begin B (db s)) = Inr t1"
      "put_tags B (slice_elems (bk_Tags bk)) t1 = Inr t2" "put_folders B (slice_elems (bk_Folders bk)) t2 = Inr t3"
      using commit(2) by (auto simp: and_then_eq_Inr)
    note p' = p [unfolded put_cameras_def put_tags_def put_folders_def]
    have d1: "data_ok (txn_Get B t1)"
      by (rule put_data_ok [OF bo _ dok p'(1)]) (use backup_cameras_ok [OF j] data_ok_set(1) in auto)
    have d2: "data_ok (txn_Get B t2)" by (rule put_data_ok [OF bo _ d1 p'(2)]) (use data_ok_set(2) in auto)
    have d3: "data_ok (txn_Get B t3)" by (rule put_data_ok [OF bo _ d2 p'(3)]) (use data_ok_set(3) in auto)
    show ?thesis using d3 commit(1,3,4) bo by (auto intro!: store_okI_uncached)
  next
    case (rollback err)
    then show ?thesis using assms(1) by (simp add: store_ok_def cache_ok_def)
  qed
qed

lemma MigrateFromConfig_ok:
  assumes "store_ok B s" "MigrateFromConfig B cfg s = (e, s')" "\<And>c x. cfg = Some c \<Longrightarrow> x \<in> set (Cameras c) \<Longrightarrow> camera_ok x"
  shows "store_ok B s'"
proof (cases cfg)
  case None
  then show ?thesis using assms by (simp add: MigrateFromConfig_def)
next
  case (Some c)
  have bo: "badger_ok B" and dok: "data_ok (txn_Get B (db_begin B (db s)))" using assms(1) by (simp_all add: store_ok_def reads_def)
  from bo assms(2) [unfolded MigrateFromConfig_def Some option.case] show ?thesis
  proof (cases rule: update_db_cases)
    case (commit t2)
    let ?t0 = "db_begin B (db s)"
    obtain t1 where t1: "put_cameras B (Cameras c) ?t0 = Inr t1 \<or> t1 = ?t0" "put_tags B (GlobalTags c) t1 = Inr t2 \<or> t2 = t1"
      using commit(2) by (auto simp: and_then_eq_Inr Let_def split: if_splits)
    have "data_ok (txn_Get B t1)" using t1(1)
    proof
      assume "put_cameras B (Cameras c) ?t0 = Inr t1"
      from put_data_ok [OF bo _ dok this [unfolded put_cameras_def]] show ?thesis using assms(3) [OF Some] data_ok_set(1) by auto
    qed (use dok in simp)
    note d1 = this
    have "data_ok (txn_Get B t2)" using t1(2)
    proof
      assume "put_tags B (GlobalTags c) t1 = Inr t2"
      from put_data_ok [OF bo _ d1 this [unfolded put_tags_def]] show ?thesis using data_ok_set(2) by auto
    qed (use d1 in simp)
    then show ?thesis using commit(3,4) bo by (auto intro!: store_okI_uncached)
  next
    case (rollback err)
    then show ?thesis using assms(1) by (simp add: store_ok_def cache_ok_def)
  qed
qed

subsection \<open>Properties\<close>


lemma demo_store_ok: "store_ok mem_badger demo_store"
  by (simp add: store_ok_def mem_badger_ok cache_ok_def data_ok_def entities_ok_def reads_def demo_store_def)


lemma BatchUpdateTraffic_law:
  assumes "store_ok B s" "distinct (map fst us)" "BatchUpdateTraffic B us mo s = (e, s')"
  shows "store_ok B s' \<and> (\<exists>n. (if e = None then n = length us else n < length us \<and> 200 dvd n) \<and>
    (\<forall>i. coll_map (GetCamera B) s' i =
       (case map_of (take n us) i of
          None \<Rightarrow> coll_map (GetCamera B) s i
        | Some d \<Rightarrow> map_option (bill mo d) (coll_map (GetCamera B) s i))))"
proof (cases "us = []")
  case True
  then show ?thesis using assms by (auto simp: BatchUpdateTraffic_def)
next
  case False
  have bo: "badger_ok B" "data_ok (reads B (invalidateCameraCache s))" using assms(1) by (simp_all add: store_ok_def)
  have bc: "bill_chunks B mo (chunks 200 us) (invalidateCameraCache s) = (e, s')"
    using assms(3) False by (simp add: BatchUpdateTraffic_def)
  obtain k where k: "data_ok (reads B s')" "cachedCameras s' = None"
    "cam_at (reads B s') = bill_map mo (concat (take k (chunks 200 us))) (cam_at (reads B s))"
    "if e = None then k = length (chunks 200 us) else k < length (chunks 200 us)"
    using bill_chunks_law [OF bo bc] by auto
  define n where "n = (if e = None then length us else 200 * k)"
  have tk: "concat (take k (chunks 200 us)) = take n us"
  proof (cases "e = None")
    case True
    then show ?thesis using k(4) concat_chunks [of 200 us] by (simp add: n_def)
  qed (use concat_take_chunks [of 200 k us] in \<open>auto simp: n_def\<close>)
  have "if e = None then n = length us else n < length us \<and> 200 dvd n"
    using k(4) chunks_index [of 200 k us] by (auto simp: n_def split: if_splits)
  moreover have "distinct (map fst (take n us))" using assms(2) distinct_take [of "map fst us" n] by (simp add: take_map)
  ultimately show ?thesis
    using k(1-3) bo(1) bill_map_lookup unfolding tk cam_at_GetCamera by (auto intro!: store_okI_uncached exI [of _ n])
qed

text \<open>C20: Billing a batch. If \<open>BatchUpdateTraffic\<close> succeeds, every stored camera named in the batch is billed
  exactly once (its counter reset first when the month changed, the default quota filled in, the
  sum wrapping at 64 bits), absent cameras are skipped and nothing else changes. If it fails, the
  entries of the chunks of 200 before the failing one are billed and the others are not.\<close>

theorem batch_billing:
  assumes "store_ok B s" "distinct (map fst us)" "BatchUpdateTraffic B us mo s = (e, s')"
  shows "store_ok B s' \<and> (\<exists>n. (if e = None then n = length us else n < length us \<and> 200 dvd n) \<and>
    (\<forall>i. coll_map (GetCamera B) s' i =
       (case map_of (take n us) i of
          None \<Rightarrow> coll_map (GetCamera B) s i
        | Some d \<Rightarrow> map_option (bill mo d) (coll_map (GetCamera B) s i))))"
  using assms by (rule BatchUpdateTraffic_law)

lemma batch_billing_witness:
  "\<exists>s'. BatchUpdateTraffic mem_badger [(''a'', 7)] ''2026-11''
      (snd (SaveCamera mem_badger (zero_camera\<lparr>ID := ''a'', TrafficUsed := 5, LastResetMonth := ''2026-11''\<rparr>) demo_store)) = (None, s') \<and>
    map_option TrafficUsed (coll_map (GetCamera mem_badger) s' ''a'') = Some 12"
proof -
  let ?c = "zero_camera\<lparr>ID := ''a'', TrafficUsed := 5, LastResetMonth := ''2026-11''\<rparr>"
  obtain e1 s1 where s1: "SaveCamera mem_badger ?c demo_store = (e1, s1)" by force
  then have e1: "e1 = None" by (simp add: SaveCamera_def update_db_def split: prod.splits)
  have c: "camera_ok ?c" by (simp add: camera_ok_def zero_camera_def in_s64_def)
  have l: "store_ok mem_badger s1" "coll_map (GetCamera mem_badger) s1 ''a'' = Some ?c"
    using cams.save_law [OF demo_store_ok c s1] e1 by (auto simp: coll_map_def zero_camera_def)
  obtain e s' where b: "BatchUpdateTraffic mem_badger [(''a'', 7)] ''2026-11'' s1 = (e, s')" by force
  then have e: "e = None"
    by (simp add: BatchUpdateTraffic_def chunks.simps update_db_def bill_entry_def and_then_def
        split: prod.splits sum.splits option.splits store_err.splits)
      (use l(2) in \<open>auto simp: coll_map_def GetCamera_def txn_load_def split: option.splits\<close>)
  from batch_billing [OF l(1) _ b] obtain n where n: "n = 1" "coll_map (GetCamera mem_badger) s' ''a'' =
      (case map_of (take n [(''a'', 7)]) ''a'' of None \<Rightarrow> Some ?c | Some d \<Rightarrow> map_option (bill ''2026-11'' d) (Some ?c))"
    using e l(2) by auto
  then show ?thesis using b s1 e by (auto simp: bill_def zero_camera_def u64_def Let_def)
qed

lemma exported_lists:
  assumes "store_ok B s" "ExportJSON B s = (Inr j, s1)"
  obtains cs ts fs bk where "backup_unmarshal j = Some bk"
    "slice_elems (bk_Cameras bk) = cs" "slice_elems (bk_Tags bk) = ts" "slice_elems (bk_Folders bk) = fs"
    "distinct (map ID cs)" "distinct (map tag_ID ts)" "distinct (map folder_ID fs)" "\<And>c. c \<in> set cs \<Longrightarrow> camera_ok c"
    "coll_map (GetCamera B) s = map_of (map (\<lambda>x. (ID x, x)) cs)"
    "coll_map (GetTag B) s = map_of (map (\<lambda>x. (tag_ID x, x)) ts)"
    "coll_map (GetFolder B) s = map_of (map (\<lambda>x. (folder_ID x, x)) fs)"
proof -
  obtain cs ts fs where ls: "ListCameras B s = (Inr cs, s1)" "ListTags B s1 = Inr ts" "ListFolders B s1 = Inr fs"
    and j: "j = backup_json \<lparr>bk_Cameras = Some cs, bk_Tags = Some ts, bk_Folders = Some fs\<rparr>"
    using assms(2) by (auto simp: ExportJSON_def split: prod.splits sum.splits)
  have s1: "store_ok B s1" "db s1 = db s" using ListCameras_ok [OF assms(1) ls(1)] by simp_all
  have get1: "coll_map (GetTag B) s1 = coll_map (GetTag B) s" "coll_map (GetFolder B) s1 = coll_map (GetFolder B) s"
    using s1(2) by (simp_all add: coll_map_def GetTag_def GetFolder_def fun_eq_iff)
  have c: "distinct (map ID cs)" "coll_map (GetCamera B) s = map_of (map (\<lambda>x. (ID x, x)) cs)"
    using cams.list_refines [OF assms(1)] ls(1) by auto
  have t: "distinct (map tag_ID ts)" "coll_map (GetTag B) s = map_of (map (\<lambda>x. (tag_ID x, x)) ts)"
    using tags.list_refines [OF s1(1)] ls(2) get1 by auto
  have f: "distinct (map folder_ID fs)" "coll_map (GetFolder B) s = map_of (map (\<lambda>x. (folder_ID x, x)) fs)"
    using folders.list_refines [OF s1(1)] ls(3) get1 by auto
  have cok: "camera_ok x" if "x \<in> set cs" for x
    using listed_camera_ok [OF assms(1)] ls(1) that by simp
  obtain bk where bk: "backup_unmarshal j = Some bk" "slice_elems (bk_Cameras bk) = cs" "slice_elems (bk_Tags bk) = ts" "slice_elems (bk_Folders bk) = fs"
    using d_struct_backup [of cs ts fs] cok unfolding j by blast
  show thesis by (rule that [OF bk c(1) t(1) f(1) cok c(2) t(2) f(2)])
qed

lemma exported_decodes:
  assumes "store_ok B s" "ExportJSON B s = (Inr j, s1)" shows "\<exists>bk. backup_unmarshal j = Some bk"
  by (rule exported_lists [OF assms]) blast

text \<open>C21: Restoring a backup. Importing what \<open>ExportJSON\<close> produced, into the same or another store, makes
  every exported camera, tag and folder readable there as it was, keeps the entities that the
  backup does not contain, and leaves the users alone.\<close>

theorem backup_restores:
  assumes "store_ok B s" "ExportJSON B s = (Inr j, s1)" "store_ok B' s2" "ImportJSON B' (Some j) s2 = (None, s3)"
  shows "store_ok B' s3 \<and>
    coll_map (GetCamera B') s3 = coll_map (GetCamera B') s2 ++ coll_map (GetCamera B) s \<and>
    coll_map (GetTag B') s3 = coll_map (GetTag B') s2 ++ coll_map (GetTag B) s \<and>
    coll_map (GetFolder B') s3 = coll_map (GetFolder B') s2 ++ coll_map (GetFolder B) s \<and>
    coll_map (GetUser B') s3 = coll_map (GetUser B') s2"
proof (rule exported_lists [OF assms(1,2)])
  fix cs ts fs bk
  assume l: "backup_unmarshal j = Some bk"
    "slice_elems (bk_Cameras bk) = cs" "slice_elems (bk_Tags bk) = ts" "slice_elems (bk_Folders bk) = fs"
    "distinct (map ID cs)" "distinct (map tag_ID ts)" "distinct (map folder_ID fs)" "\<And>c. c \<in> set cs \<Longrightarrow> camera_ok c"
    and eq: "coll_map (GetCamera B) s = map_of (map (\<lambda>x. (ID x, x)) cs)"
    "coll_map (GetTag B) s = map_of (map (\<lambda>x. (tag_ID x, x)) ts)"
    "coll_map (GetFolder B) s = map_of (map (\<lambda>x. (folder_ID x, x)) fs)"
  show ?thesis unfolding eq by (rule import_law [OF assms(3,4) l])
qed

lemma export_succeeds:
  assumes "store_ok B s" shows "\<exists>j s1. ExportJSON B s = (Inr j, s1)"
proof -
  obtain r s1 where l: "ListCameras B s = (r, s1)" by force
  have s1: "store_ok B s1" using ListCameras_ok [OF assms l] by simp
  obtain cs where "r = Inr cs" using cams.list_law [OF assms] l by auto
  then show ?thesis using l tags.list_law [OF s1] folders.list_law [OF s1] by (auto simp: ExportJSON_def)
qed

lemma mem_for_each_ok: "\<exists>t'. for_each (\<lambda>c t. Inr (f c t)) xs t = Inr t'"
  by (induction xs arbitrary: t) auto

lemma mem_import_succeeds:
  assumes "backup_unmarshal j = Some bk" shows "\<exists>s3. ImportJSON mem_badger (Some j) s2 = (None, s3)"
proof -
  obtain t1 where t1: "put_cameras mem_badger (slice_elems (bk_Cameras bk)) (db s2) = Inr t1"
    using mem_for_each_ok [of "\<lambda>c t. (PrefixCamera @ ID c, camera_json c) # t"] by (auto simp: put_cameras_def)
  obtain t2 where t2: "put_tags mem_badger (slice_elems (bk_Tags bk)) t1 = Inr t2"
    using mem_for_each_ok [of "\<lambda>c t. (PrefixTag @ tag_ID c, tag_json c) # t"] by (auto simp: put_tags_def)
  obtain t3 where "put_folders mem_badger (slice_elems (bk_Folders bk)) t2 = Inr t3"
    using mem_for_each_ok [of "\<lambda>c t. (PrefixFolder @ folder_ID c, folder_json c) # t"] by (auto simp: put_folders_def)
  then show ?thesis using assms t1 t2 by (simp add: ImportJSON_def update_db_def)
qed

lemma backup_restores_witness:
  "\<exists>j s1 s3. ExportJSON mem_badger (snd (SaveCamera mem_badger (zero_camera\<lparr>ID := ''a''\<rparr>) demo_store)) = (Inr j, s1) \<and>
     ImportJSON mem_badger (Some j) demo_store = (None, s3) \<and> coll_map (GetCamera mem_badger) s3 ''a'' = Some (zero_camera\<lparr>ID := ''a''\<rparr>)"
proof -
  let ?c = "zero_camera\<lparr>ID := ''a''\<rparr>"
  obtain e1 s where s: "SaveCamera mem_badger ?c demo_store = (e1, s)" by force
  then have e1: "e1 = None" by (simp add: SaveCamera_def update_db_def split: prod.splits)
  have c: "camera_ok ?c" by (simp add: camera_ok_def zero_camera_def in_s64_def)
  have l: "store_ok mem_badger s" "coll_map (GetCamera mem_badger) s ''a'' = Some ?c"
    using cams.save_law [OF demo_store_ok c s] e1 by (auto simp: coll_map_def zero_camera_def)
  obtain j s1 where j: "ExportJSON mem_badger s = (Inr j, s1)" using export_succeeds [OF l(1)] by blast
  obtain bk where "backup_unmarshal j = Some bk" using exported_decodes [OF l(1) j] by blast
  then obtain s3 where i: "ImportJSON mem_badger (Some j) demo_store = (None, s3)" using mem_import_succeeds by blast
  then show ?thesis using backup_restores [OF l(1) j demo_store_ok i] l(2) s j by (auto simp: map_add_def)
qed

text \<open>What the documentation does not say: a missing tag is reported with the database's own error,
  not with \<open>ErrNotFound\<close> as a missing user is.\<close>

lemma missing_tag_error:
  assumes "store_ok B s" "DeleteTag B i s = (None, s')" "DeleteUser B u s = (None, s'')"
  shows "GetTag B i s' = Inl ErrKeyNotFound \<and> GetUser B u s'' = Inl ErrNotFound"
  using tags.del_law [OF assms(1,2)] users.del_law [OF assms(1,3)] by simp

text \<open>\<open>SaveCamera\<close> invalidates the cache before it commits. A list that another goroutine reads between
  the two is cached after the invalidation and stays: the saved camera can be read but is not listed.\<close>

lemma save_race_stale_list:
  assumes "store_ok B s" "camera_ok cam" "GetCamera B (ID cam) s = Inl e0"
    and "ListCameras B (invalidateCameraCache s) = (r, s1)"
    and "update_db B (\<lambda>t. txn_Set B t (PrefixCamera @ ID cam) (camera_json cam)) s1 = (None, s2)"
  shows "\<exists>xs. fst (ListCameras B s2) = Inr xs \<and> cam \<notin> set xs \<and> GetCamera B (ID cam) s2 = Inr cam"
proof -
  let ?s = "invalidateCameraCache s"
  have s: "store_ok B ?s" using assms(1) by (simp add: store_ok_def cache_ok_def)
  obtain cs where cs: "r = Inr cs" "\<And>i x. GetCamera B i ?s = Inr x \<longleftrightarrow> x \<in> set cs \<and> ID x = i"
    using cams.list_law [OF s] assms(4) by auto
  have s1: "cachedCameras s1 = Some cs" using assms(4) cs(1)
    by (auto simp: ListCameras_def map_idI split: sum.splits)
  have "cam \<notin> set cs" using cs(2) [of "ID cam" cam] assms(3) by (simp add: GetCamera_def)
  moreover have "cachedCameras s2 = Some cs" "GetCamera B (ID cam) s2 = Inr cam"
    using update_set [OF _ assms(5)] s s1 assms(2) by (auto simp: store_ok_def Get_loaded)
  ultimately show ?thesis by (auto simp: ListCameras_def map_idI)
qed

end
