(* ===== verification/Camera_Stream.thy ===== *)
theory Camera_Stream
  imports HLS_Muxer Broadcast Config
begin

text \<open>
  One camera's ingest session (\<open>internal/stream/stream.go\<close>): construction, the callbacks of the RTSP
  client, the reconnection loop's bookkeeping and delay, on-demand HLS, the periodic
  housekeeping, telemetry and shutdown. Atomic counters are fields, callbacks and methods are
  atomic steps; the clock is an argument. The RTSP client and the metric counters that mirror
  the fields are left out.

  Shown: frames reach the ring buffer and are counted; the reconnection delay is bounded; a
  muxer exists exactly while its metadata subscription does, and an unused one is stopped.
\<close>

datatype CameraState = StateConnecting | StateOnline | StateDegraded | StateOffline | StateDisabled

record 'w Stream =
  st_ID :: string
  st_URL :: string
  st_transport :: string
  st_tokenAuth :: bool
  ctx_done :: bool
  ringBuffer :: ring_buffer
  metaBroadcaster :: "metadata_req MetadataBroadcaster"
  hlsMuxer :: "('w Muxer \<times> sub_id) option"
  lastHLSRequest :: int
  st_lazyHLS :: bool
  mp4Recorder :: bool
  st_state :: CameraState
  connectedAt :: int
  bytesReceived :: nat
  bytesSent :: nat
  framesReceived :: nat
  keyFramesReceived :: nat
  reconnects :: nat
  st_lastFrameTime :: int
  lastKeyTime :: int
  lastError :: string
  currentBitrate :: nat
  lastBytes :: nat
  lastBitrateCalc :: int
  isDegraded :: bool

text \<open>An event a stream publishes: topic, camera and data.\<close>

datatype event_data = NoData | ErrorData string | FileData string | FailData string string | DiskData string string

type_synonym published = "string \<times> string \<times> event_data"

subsection \<open>Construction\<close>

text \<open>Subscribe to the metadata and start a muxer on the ring buffer.\<close>

definition start_muxer :: "int \<Rightarrow> 'w Stream \<Rightarrow> 'w Stream outcome" where
  "start_muxer now s =
     and_then (md_Subscribe (metaBroadcaster s)) (\<lambda>(sub, md).
       Inr (s\<lparr>metaBroadcaster := md, hlsMuxer := Some (NewMuxer [] now, sub)\<rparr>))"

definition NewStream :: "int \<Rightarrow> string \<Rightarrow> string \<Rightarrow> bool \<Rightarrow> bool \<Rightarrow> string \<Rightarrow> bool \<Rightarrow> 'w Stream outcome" where
  "NewStream now i url record_on lazyHLS transport tokenAuth =
     (let s = \<lparr>st_ID = i, st_URL = url, st_transport = transport, st_tokenAuth = tokenAuth, ctx_done = False,
               ringBuffer = SetCameraID i (NewRingBuffer 100), metaBroadcaster = NewMetadataBroadcaster,
               hlsMuxer = None, lastHLSRequest = 0, st_lazyHLS = lazyHLS, mp4Recorder = False,
               st_state = StateConnecting, connectedAt = 0, bytesReceived = 0, bytesSent = 0, framesReceived = 0,
               keyFramesReceived = 0, reconnects = 0, st_lastFrameTime = 0, lastKeyTime = 0, lastError = [],
               currentBitrate = 0, lastBytes = 0, lastBitrateCalc = 0, isDegraded = False\<rparr>
      in and_then (if \<not> lazyHLS then start_muxer now s else Inr s) (\<lambda>s1. Inr (s1\<lparr>mp4Recorder := record_on\<rparr>)))"

subsection \<open>The RTSP callbacks\<close>

definition payload_size :: "bytes list \<Rightarrow> nat" where
  "payload_size nalus = sum_list (map length nalus)"

definition on_frame :: "int \<Rightarrow> bytes list \<Rightarrow> int \<Rightarrow> bool \<Rightarrow> 'w Stream \<Rightarrow> ('w Stream \<times> published list) outcome" where
  "on_frame now nalus pts isKey s =
     (let s1 = s\<lparr>bytesReceived := u64 (bytesReceived s + payload_size nalus), st_lastFrameTime := now\<rparr>;
          (s2, ev) =
            (if st_state s1 \<noteq> StateOnline
             then (s1\<lparr>st_state := StateOnline, lastError := [], reconnects := 0, connectedAt := now\<rparr>,
                   [(''camera_online'', st_ID s1, NoData)])
             else (s1, []));
          s3 = s2\<lparr>framesReceived := u64 (framesReceived s2 + 1)\<rparr>;
          s4 = (if isKey then s3\<lparr>keyFramesReceived := u64 (keyFramesReceived s3 + 1), lastKeyTime := now\<rparr> else s3)
      in and_then (rb_Write \<lparr>Timestamp = pts, IsKeyFrame = isKey, NALUs = nalus\<rparr> (ringBuffer s4))
           (\<lambda>rb. Inr (s4\<lparr>ringBuffer := rb\<rparr>, ev)))"

definition on_params :: "bytes option \<Rightarrow> bytes option \<Rightarrow> bytes option \<Rightarrow> 'w Stream \<Rightarrow> 'w Stream" where
  "on_params vps sps pps s = s\<lparr>ringBuffer := SetParams vps sps pps (ringBuffer s)\<rparr>"

subsection \<open>The reconnection loop\<close>

definition is_synthetic :: "string \<Rightarrow> bool" where
  "is_synthetic url \<longleftrightarrow> url = [] \<or> url = ''synthetic'' \<or> HasPrefix url ''synthetic://''"

text \<open>What the loop does when the client returns with \<open>err\<close> (\<open>None\<close> for nil).\<close>

definition connection_lost :: "string option \<Rightarrow> 'w Stream \<Rightarrow> 'w Stream \<times> published list" where
  "connection_lost err s =
     (let s1 = s\<lparr>st_state := StateOffline\<rparr>;
          s2 = (case err of Some e \<Rightarrow> s1\<lparr>lastError := e\<rparr> | None \<Rightarrow> s1);
          errMsg = (case err of Some e \<Rightarrow> e | None \<Rightarrow> [])
      in (s2\<lparr>reconnects := u64 (reconnects s2 + 1)\<rparr>, [(''camera_offline'', st_ID s, ErrorData errMsg)]))"

text \<open>The delay before the next attempt, in nanoseconds; \<open>nowNano\<close> supplies the jitter.\<close>

definition reconnect_delay :: "int \<Rightarrow> nat \<Rightarrow> int" where
  "reconnect_delay nowNano recs =
     (let recs1 = (if 6 < recs then 6 else recs);
          backoff = (2 :: int) ^ recs1;
          backoff1 = (if 60 < backoff then 60 else backoff);
          backoff2 = (if backoff1 < 1 then 1 else backoff1);
          jitter = (nowNano smod 500) * 1000000
      in backoff2 * second + jitter)"

subsection \<open>Shutdown\<close>

definition stop_muxer :: "'w Stream \<Rightarrow> 'w Muxer option \<Rightarrow> 'w Stream outcome" where
  "stop_muxer s keep =
     (case hlsMuxer s of
        None \<Rightarrow> Inr s
      | Some (m, sub) \<Rightarrow>
          and_then (md_Unsubscribe sub (metaBroadcaster s)) (\<lambda>md.
            Inr (s\<lparr>metaBroadcaster := md, hlsMuxer := map_option (\<lambda>m'. (m', sub)) keep\<rparr>)))"

text \<open>\<open>Stop\<close> runs once. The stopped muxer stays in its field; \<open>wg.Wait\<close> returns because the loop ends
  when its context is cancelled.\<close>

definition Stream_Stop :: "'w Stream \<Rightarrow> 'w Stream outcome" where
  "Stream_Stop s =
     (if ctx_done s then Inr s
      else and_then (rb_Close (ringBuffer s)) (\<lambda>rb.
        let s1 = s\<lparr>ctx_done := True, ringBuffer := rb\<rparr>
        in stop_muxer s1 (map_option (\<lambda>(m, _). Muxer_Stop m) (hlsMuxer s1))))"

subsection \<open>Configuration\<close>

record PipelineConfig =
  pc_URL :: string
  pc_Record :: bool
  pc_LazyHLS :: bool
  pc_Transport :: string
  pc_TokenAuth :: bool

definition MatchesPipelineConfig :: "'w Stream \<Rightarrow> PipelineConfig \<Rightarrow> bool" where
  "MatchesPipelineConfig s cfg \<longleftrightarrow>
     st_URL s = pc_URL cfg \<and> st_transport s = pc_Transport cfg \<and> st_lazyHLS s = pc_LazyHLS cfg \<and>
     st_tokenAuth s = pc_TokenAuth cfg \<and> mp4Recorder s = pc_Record cfg"

definition MatchesConfig :: "'w Stream \<Rightarrow> string \<Rightarrow> bool \<Rightarrow> bool \<Rightarrow> string \<Rightarrow> bool \<Rightarrow> bool" where
  "MatchesConfig s url record_on lazyHLS transport tokenAuth =
     MatchesPipelineConfig s \<lparr>pc_URL = url, pc_Record = record_on, pc_LazyHLS = lazyHLS, pc_Transport = transport, pc_TokenAuth = tokenAuth\<rparr>"

subsection \<open>On-demand HLS and housekeeping\<close>

definition WakeUpHLSMuxer :: "int \<Rightarrow> 'w Stream \<Rightarrow> 'w Stream outcome" where
  "WakeUpHLSMuxer nowNano s =
     (let s1 = s\<lparr>lastHLSRequest := nowNano\<rparr> in
      if hlsMuxer s1 \<noteq> None then Inr s1 else start_muxer nowNano s1)"

text \<open>The rolling bit rate in floating point, exact up to rounding for quantities below \<open>2^53\<close>.\<close>

definition bitrate :: "nat \<Rightarrow> nat \<Rightarrow> nat" where
  "bitrate diff dt = (case round_ratio dt 1000000000 of (m, k) \<Rightarrow> float_int (round_ratio (diff * 8 * 2 ^ k) m))"

definition tick_bitrate :: "int \<Rightarrow> 'w Stream \<Rightarrow> 'w Stream" where
  "tick_bitrate nowNano s =
     (let s1 = s\<lparr>lastBytes := bytesReceived s, lastBitrateCalc := nowNano\<rparr>;
          dt = nowNano - lastBitrateCalc s
      in if 0 < lastBitrateCalc s \<and> 0 < dt
         then s1\<lparr>currentBitrate := bitrate (u64 (bytesReceived s + 2 ^ 64 - lastBytes s)) (nat dt)\<rparr>
         else s1)"

definition TickHousekeeping :: "int \<Rightarrow> 'w Stream \<Rightarrow> 'w Stream outcome" where
  "TickHousekeeping nowNano s =
     (let s1 = tick_bitrate nowNano s in
      and_then
        (if st_lazyHLS s1 \<and> 0 < lastHLSRequest s1 \<and> 60 * second < nowNano - lastHLSRequest s1
         then stop_muxer s1 None else Inr s1)
        (\<lambda>s2. Inr (s2\<lparr>hlsMuxer := map_option (\<lambda>(m, sub). (CheckWatchdog nowNano m, sub)) (hlsMuxer s2)\<rparr>)))"

subsection \<open>Telemetry\<close>

definition AddBytesReceived :: "nat \<Rightarrow> 'w Stream \<Rightarrow> 'w Stream" where
  "AddBytesReceived n s = s\<lparr>bytesReceived := u64 (bytesReceived s + n)\<rparr>"

definition AddFramesReceived :: "int \<Rightarrow> nat \<Rightarrow> 'w Stream \<Rightarrow> 'w Stream" where
  "AddFramesReceived now n s = s\<lparr>framesReceived := u64 (framesReceived s + n), st_lastFrameTime := now\<rparr>"

definition AddKeyFramesReceived :: "int \<Rightarrow> nat \<Rightarrow> 'w Stream \<Rightarrow> 'w Stream" where
  "AddKeyFramesReceived now n s = s\<lparr>keyFramesReceived := u64 (keyFramesReceived s + n), lastKeyTime := now\<rparr>"

definition AddBytesSent :: "nat \<Rightarrow> 'w Stream \<Rightarrow> 'w Stream" where
  "AddBytesSent n s = s\<lparr>bytesSent := u64 (bytesSent s + n)\<rparr>"

definition AddReconnects :: "nat \<Rightarrow> 'w Stream \<Rightarrow> 'w Stream" where
  "AddReconnects n s = s\<lparr>reconnects := u64 (reconnects s + n)\<rparr>"

definition SetState :: "CameraState \<Rightarrow> 'w Stream \<Rightarrow> 'w Stream" where
  "SetState st s = s\<lparr>st_state := st\<rparr>"

definition SetConnectedAt :: "int \<Rightarrow> 'w Stream \<Rightarrow> 'w Stream" where
  "SetConnectedAt t s = s\<lparr>connectedAt := t\<rparr>"

record CameraStats =
  cs_State :: CameraState
  cs_BytesReceived :: nat
  cs_BytesSent :: nat
  cs_Uptime :: int
  cs_Frames :: nat
  cs_KeyFrames :: nat
  cs_Reconnects :: nat
  cs_Codec :: string
  cs_LastFrameTime :: int
  cs_LastKeyTime :: int
  cs_LastError :: string
  cs_Bitrate :: nat

text \<open>\<open>now\<close> is the time in whole seconds.\<close>

definition GetStats :: "int \<Rightarrow> 'w Stream \<Rightarrow> CameraStats" where
  "GetStats now s =
     (let (vps, sps, _) = GetParams (ringBuffer s);
          nonempty = (\<lambda>b. case b of None \<Rightarrow> False | Some xs \<Rightarrow> 0 < length xs)
      in \<lparr>cs_State = (if st_state s = StateOnline \<and> isDegraded s then StateDegraded else st_state s),
          cs_BytesReceived = bytesReceived s, cs_BytesSent = bytesSent s,
          cs_Uptime = (if st_state s = StateOnline \<and> 0 < connectedAt s then now - connectedAt s else 0),
          cs_Frames = framesReceived s, cs_KeyFrames = keyFramesReceived s, cs_Reconnects = reconnects s,
          cs_Codec = (if nonempty vps then ''H.265 / HEVC'' else if nonempty sps then ''H.264 / AVC'' else ''-''),
          cs_LastFrameTime = st_lastFrameTime s, cs_LastKeyTime = lastKeyTime s, cs_LastError = lastError s,
          cs_Bitrate = currentBitrate s\<rparr>)"

definition GetState :: "'w Stream \<Rightarrow> CameraState" where
  "GetState s = st_state s"

subsection \<open>Invariant\<close>

text \<open>The ring and the broadcaster are consistent, a running stream's muxer is subscribed.\<close>

definition stream_inv :: "'w Stream \<Rightarrow> bool" where
  "stream_inv s \<longleftrightarrow> ring_inv (ringBuffer s) \<and> totalDrops (ringBuffer s) < 2 ^ 64 \<and> md_inv (metaBroadcaster s) \<and>
     (\<forall>m sub. hlsMuxer s = Some (m, sub) \<and> \<not> ctx_done s \<longrightarrow> sub \<in> subscribers (metaBroadcaster s))"

lemma start_muxer_ok:
  assumes "stream_inv s"
  shows "\<exists>md sub. start_muxer now s = Inr (s\<lparr>metaBroadcaster := md, hlsMuxer := Some (NewMuxer [] now, sub)\<rparr>) \<and>
    stream_inv (s\<lparr>metaBroadcaster := md, hlsMuxer := Some (NewMuxer [] now, sub)\<rparr>) \<and>
    subscribers md = insert sub (subscribers (metaBroadcaster s))"
proof -
  obtain sub md where "md_Subscribe (metaBroadcaster s) = Inr (sub, md)" "md_inv md"
    "subscribers md = insert sub (subscribers (metaBroadcaster s))"
    using md.attach_law [of "metaBroadcaster s"] assms by (auto simp: stream_inv_def)
  then show ?thesis using assms by (auto simp: start_muxer_def stream_inv_def intro!: exI [of _ md] exI [of _ sub])
qed

lemma stop_muxer_ok:
  assumes "stream_inv s" "ctx_done s \<or> keep = None"
  shows "\<exists>s'. stop_muxer s keep = Inr s' \<and> stream_inv s' \<and> ringBuffer s' = ringBuffer s \<and> ctx_done s' = ctx_done s \<and>
    (case hlsMuxer s of
       None \<Rightarrow> s' = s
     | Some (m, sub) \<Rightarrow> hlsMuxer s' = map_option (\<lambda>m'. (m', sub)) keep \<and>
         subscribers (metaBroadcaster s') = subscribers (metaBroadcaster s) - {sub} \<and>
         s' = s\<lparr>metaBroadcaster := metaBroadcaster s', hlsMuxer := hlsMuxer s'\<rparr>)"
proof (cases "hlsMuxer s")
  case None
  then show ?thesis using assms by (simp add: stop_muxer_def)
next
  case (Some p)
  obtain m sub where p: "p = (m, sub)" by force
  obtain md where "md_Unsubscribe sub (metaBroadcaster s) = Inr md" "md_inv md"
    "subscribers md = subscribers (metaBroadcaster s) - {sub}"
    using md.detach_law [of "metaBroadcaster s" sub] assms(1) by (auto simp: stream_inv_def)
  then show ?thesis using Some p assms by (auto simp: stop_muxer_def stream_inv_def)
qed

lemma NewStream_ok:
  "\<exists>s. NewStream now i url rc lz tr ta = Inr s \<and> stream_inv s \<and> \<not> ctx_done s \<and> st_ID s = i \<and>
     MatchesConfig s url rc lz tr ta \<and> framesReceived s = 0 \<and> bytesReceived s = 0 \<and> bytesSent s = 0 \<and> reconnects s = 0 \<and>
     GetTotalDrops (ringBuffer s) = 0 \<and> (hlsMuxer s = None \<longleftrightarrow> lz)"
proof -
  let ?s = "\<lparr>st_ID = i, st_URL = url, st_transport = tr, st_tokenAuth = ta, ctx_done = False,
     ringBuffer = SetCameraID i (NewRingBuffer 100), metaBroadcaster = NewMetadataBroadcaster,
     hlsMuxer = None, lastHLSRequest = 0, st_lazyHLS = lz, mp4Recorder = False,
     st_state = StateConnecting, connectedAt = 0, bytesReceived = 0, bytesSent = 0, framesReceived = 0,
     keyFramesReceived = 0, reconnects = 0, st_lastFrameTime = 0, lastKeyTime = 0, lastError = [],
     currentBitrate = 0, lastBytes = 0, lastBitrateCalc = 0, isDegraded = False\<rparr> :: 'a Stream"
  have inv: "stream_inv ?s"
    using ring_inv_New [of 100]
    by (simp add: stream_inv_def md_inv_def members_open_def NewMetadataBroadcaster_def SetCameraID_def ring_inv_def
        reader_ok_def NewRingBuffer_def Let_def)
  show ?thesis
  proof (cases lz)
    case True
    then show ?thesis using inv
      by (simp add: NewStream_def Let_def stream_inv_def MatchesConfig_def MatchesPipelineConfig_def GetTotalDrops_def
          SetCameraID_def NewRingBuffer_def)
  next
    case False
    obtain md sub where "start_muxer now ?s = Inr (?s\<lparr>metaBroadcaster := md, hlsMuxer := Some (NewMuxer [] now, sub)\<rparr>)"
      "stream_inv (?s\<lparr>metaBroadcaster := md, hlsMuxer := Some (NewMuxer [] now, sub)\<rparr>)"
      using start_muxer_ok [OF inv] by blast
    then show ?thesis using False
      by (simp add: NewStream_def Let_def stream_inv_def MatchesConfig_def MatchesPipelineConfig_def GetTotalDrops_def
          SetCameraID_def NewRingBuffer_def)
  qed
qed

lemma Stream_Stop_ok:
  assumes "stream_inv s"
  shows "\<exists>s'. Stream_Stop s = Inr s' \<and> stream_inv s' \<and> ctx_done s' \<and> (\<not> ctx_done s \<longrightarrow> rb_closed (ringBuffer s'))"
proof (cases "ctx_done s")
  case True
  then show ?thesis using assms by (simp add: Stream_Stop_def)
next
  case False
  obtain rb where rb: "rb_Close (ringBuffer s) = Inr rb" "ring_inv rb" "rb_closed rb" "totalDrops rb = totalDrops (ringBuffer s)"
    using rb_Close_ok [of "ringBuffer s"] assms by (auto simp: stream_inv_def)
  let ?s = "s\<lparr>ctx_done := True, ringBuffer := rb\<rparr>"
  have "stream_inv ?s" using assms rb by (simp add: stream_inv_def)
  from stop_muxer_ok [OF this, of "map_option (\<lambda>(m, _). Muxer_Stop m) (hlsMuxer s)"]
  obtain s' where "stop_muxer ?s (map_option (\<lambda>(m, _). Muxer_Stop m) (hlsMuxer s)) = Inr s'" "stream_inv s'"
    "ringBuffer s' = rb" "ctx_done s'" by auto
  then show ?thesis using False rb by (simp add: Stream_Stop_def Let_def)
qed

lemma on_frame_ok:
  assumes "stream_inv s"
  shows "\<exists>s' ev rb. on_frame now nalus pts isKey s = Inr (s', ev) \<and> stream_inv s' \<and>
    rb_Write \<lparr>Timestamp = pts, IsKeyFrame = isKey, NALUs = nalus\<rparr> (ringBuffer s) = Inr rb \<and> ringBuffer s' = rb \<and>
    bytesReceived s' = u64 (bytesReceived s + payload_size nalus) \<and> framesReceived s' = u64 (framesReceived s + 1) \<and>
    keyFramesReceived s' = (if isKey then u64 (keyFramesReceived s + 1) else keyFramesReceived s) \<and>
    st_state s' = StateOnline \<and> ev = (if st_state s = StateOnline then [] else [(''camera_online'', st_ID s, NoData)]) \<and>
    ctx_done s' = ctx_done s \<and> hlsMuxer s' = hlsMuxer s"
proof -
  obtain rb where "rb_Write \<lparr>Timestamp = pts, IsKeyFrame = isKey, NALUs = nalus\<rparr> (ringBuffer s) = Inr rb" "ring_inv rb" "totalDrops rb < 2 ^ 64"
    using rb_Write_ok [of "ringBuffer s"] assms unfolding stream_inv_def by blast
  then show ?thesis
    using assms by (cases isKey; cases "st_state s = StateOnline") (simp_all add: on_frame_def Let_def stream_inv_def)
qed

lemma TickHousekeeping_ok:
  assumes "stream_inv s"
  shows "\<exists>s'. TickHousekeeping now s = Inr s' \<and> stream_inv s' \<and> ctx_done s' = ctx_done s \<and>
    (if st_lazyHLS s \<and> 0 < lastHLSRequest s \<and> 60 * second < now - lastHLSRequest s
     then hlsMuxer s' = None \<and> (\<forall>m sub. hlsMuxer s = Some (m, sub) \<longrightarrow>
       subscribers (metaBroadcaster s') = subscribers (metaBroadcaster s) - {sub})
     else hlsMuxer s' = map_option (\<lambda>(m, sub). (CheckWatchdog now m, sub)) (hlsMuxer s) \<and> metaBroadcaster s' = metaBroadcaster s)"
proof -
  let ?s = "tick_bitrate now s"
  have eq: "hlsMuxer ?s = hlsMuxer s" "metaBroadcaster ?s = metaBroadcaster s" "ctx_done ?s = ctx_done s"
    "ringBuffer ?s = ringBuffer s" "st_lazyHLS ?s = st_lazyHLS s" "lastHLSRequest ?s = lastHLSRequest s"
    by (simp_all add: tick_bitrate_def Let_def)
  have inv: "stream_inv ?s" using assms by (simp add: stream_inv_def eq)
  show ?thesis
  proof (cases "st_lazyHLS s \<and> 0 < lastHLSRequest s \<and> 60 * second < now - lastHLSRequest s")
    case True
    obtain s' where s': "stop_muxer ?s None = Inr s'" "stream_inv s'" "ctx_done s' = ctx_done s"
      "hlsMuxer s' = None" "\<And>m sub. hlsMuxer s = Some (m, sub) \<Longrightarrow> subscribers (metaBroadcaster s') = subscribers (metaBroadcaster s) - {sub}"
      using stop_muxer_ok [OF inv, of None] eq by (cases "hlsMuxer s") auto
    then show ?thesis using True eq by (simp add: TickHousekeeping_def Let_def stream_inv_def)
  next
    case False
    then show ?thesis using inv eq by (auto simp: TickHousekeeping_def Let_def stream_inv_def)
  qed
qed

subsection \<open>Properties\<close>

text \<open>Ingest never panics or blocks: on a stream whose ring buffer and broadcaster are consistent (which
  construction establishes and every step keeps) a received frame is written to the ring, counted
  with its size, and brings the camera online, publishing \<open>camera_online\<close> exactly when it was not. Stopping
  the stream afterwards succeeds and closes the ring.\<close>

theorem stream_ingest:
  assumes "stream_inv s"
  shows "\<exists>s' ev s''. on_frame now nalus pts isKey s = Inr (s', ev) \<and> stream_inv s' \<and>
    rb_Write \<lparr>Timestamp = pts, IsKeyFrame = isKey, NALUs = nalus\<rparr> (ringBuffer s) = Inr (ringBuffer s') \<and>
    bytesReceived s' = u64 (bytesReceived s + payload_size nalus) \<and> framesReceived s' = u64 (framesReceived s + 1) \<and>
    keyFramesReceived s' = (if isKey then u64 (keyFramesReceived s + 1) else keyFramesReceived s) \<and>
    st_state s' = StateOnline \<and> ev = (if st_state s = StateOnline then [] else [(''camera_online'', st_ID s, NoData)]) \<and>
    Stream_Stop s' = Inr s'' \<and> stream_inv s'' \<and> ctx_done s'' \<and> (\<not> ctx_done s \<longrightarrow> rb_closed (ringBuffer s''))"
proof -
  obtain s' ev where f: "on_frame now nalus pts isKey s = Inr (s', ev)" "stream_inv s'" "ctx_done s' = ctx_done s"
    "rb_Write \<lparr>Timestamp = pts, IsKeyFrame = isKey, NALUs = nalus\<rparr> (ringBuffer s) = Inr (ringBuffer s')"
    "bytesReceived s' = u64 (bytesReceived s + payload_size nalus)" "framesReceived s' = u64 (framesReceived s + 1)"
    "keyFramesReceived s' = (if isKey then u64 (keyFramesReceived s + 1) else keyFramesReceived s)"
    "st_state s' = StateOnline" "ev = (if st_state s = StateOnline then [] else [(''camera_online'', st_ID s, NoData)])"
    using on_frame_ok [OF assms] by blast
  with Stream_Stop_ok [OF f(2)] show ?thesis by auto
qed

lemma stream_ingest_witness:
  "\<exists>s s' ev. NewStream 1 ''cam'' ''rtsp://x'' False False ''tcp'' False = Inr (s :: bytes Stream) \<and>
     on_frame 5 [[0x65, 1, 2], [0x41]] 0 True s = Inr (s', ev) \<and> bytesReceived s' = 4 \<and> framesReceived s' = 1"
proof -
  obtain s :: "bytes Stream" where s: "NewStream 1 ''cam'' ''rtsp://x'' False False ''tcp'' False = Inr s" "stream_inv s"
    "framesReceived s = 0" "bytesReceived s = 0"
    using NewStream_ok [of 1 "''cam''" "''rtsp://x''" False False "''tcp''" False] by blast
  with stream_ingest [OF s(2), of 5 "[[0x65, 1, 2], [0x41]]" 0 True]
  show ?thesis by (auto simp: payload_size_def u64_def)
qed



text \<open>C22: On-demand HLS. A request always leaves a running muxer that is subscribed to the metadata; a
  housekeeping tick keeps it as long as the last request is at most 60 seconds old, and the first
  tick later than that stops it and gives up its subscription, so nothing accumulates.\<close>

theorem lazy_hls_lifecycle:
  assumes "stream_inv s" "st_lazyHLS s" "\<not> ctx_done s" "0 < t0"
  shows "\<exists>s1 s2 m sub. WakeUpHLSMuxer t0 s = Inr s1 \<and> hlsMuxer s1 = Some (m, sub) \<and> sub \<in> subscribers (metaBroadcaster s1) \<and>
    TickHousekeeping t1 s1 = Inr s2 \<and> stream_inv s2 \<and>
    (if t1 - t0 \<le> 60 * second then hlsMuxer s2 = Some (CheckWatchdog t1 m, sub) \<and> sub \<in> subscribers (metaBroadcaster s2)
     else hlsMuxer s2 = None \<and> sub \<notin> subscribers (metaBroadcaster s2))"
proof -
  let ?s = "s\<lparr>lastHLSRequest := t0\<rparr>"
  have inv: "stream_inv ?s" using assms(1) by (simp add: stream_inv_def)
  obtain s1 m sub where s1: "WakeUpHLSMuxer t0 s = Inr s1" "stream_inv s1" "hlsMuxer s1 = Some (m, sub)"
    "st_lazyHLS s1" "lastHLSRequest s1 = t0" "\<not> ctx_done s1"
  proof (cases "hlsMuxer s")
    case None
    with start_muxer_ok [OF inv, of t0] show ?thesis
      using assms by (auto simp: WakeUpHLSMuxer_def Let_def intro!: that)
  next
    case (Some p)
    then show ?thesis using assms inv that [of ?s "fst p" "snd p"] by (simp add: WakeUpHLSMuxer_def Let_def)
  qed
  have sub: "sub \<in> subscribers (metaBroadcaster s1)" using s1 by (simp add: stream_inv_def)
  obtain s2 where s2: "TickHousekeeping t1 s1 = Inr s2" "stream_inv s2"
    "if st_lazyHLS s1 \<and> 0 < lastHLSRequest s1 \<and> 60 * second < t1 - lastHLSRequest s1
     then hlsMuxer s2 = None \<and> (\<forall>m sub. hlsMuxer s1 = Some (m, sub) \<longrightarrow>
       subscribers (metaBroadcaster s2) = subscribers (metaBroadcaster s1) - {sub})
     else hlsMuxer s2 = map_option (\<lambda>(m, sub). (CheckWatchdog t1 m, sub)) (hlsMuxer s1) \<and> metaBroadcaster s2 = metaBroadcaster s1"
    using TickHousekeeping_ok [OF s1(2), of t1] by blast
  have "if t1 - t0 \<le> 60 * second then hlsMuxer s2 = Some (CheckWatchdog t1 m, sub) \<and> sub \<in> subscribers (metaBroadcaster s2)
     else hlsMuxer s2 = None \<and> sub \<notin> subscribers (metaBroadcaster s2)"
    using s2(3) s1 sub assms(4) by (cases "60 * second < t1 - t0") simp_all
  then show ?thesis using s1 s2(1,2) sub by blast
qed

lemma lazy_hls_lifecycle_witness:
  "\<exists>s s1 s2. NewStream 1 ''cam'' ''rtsp://x'' False True ''tcp'' False = Inr (s :: bytes Stream) \<and>
     WakeUpHLSMuxer 5 s = Inr s1 \<and> hlsMuxer s1 \<noteq> None \<and> TickHousekeeping (70 * second) s1 = Inr s2 \<and> hlsMuxer s2 = None"
proof -
  obtain s :: "bytes Stream" where s: "NewStream 1 ''cam'' ''rtsp://x'' False True ''tcp'' False = Inr s" "stream_inv s"
    "\<not> ctx_done s" "MatchesConfig s ''rtsp://x'' False True ''tcp'' False"
    using NewStream_ok [of 1 "''cam''" "''rtsp://x''" False True "''tcp''" False] by blast
  then have "st_lazyHLS s" by (simp add: MatchesConfig_def MatchesPipelineConfig_def)
  from lazy_hls_lifecycle [OF s(2) this s(3), of 5 "70 * second"] s(1) show ?thesis by auto
qed

end
