(* ===== verification/Stream_Manager.thy ===== *)
theory Stream_Manager
  imports Camera_Stream Storage
begin

text \<open>
  \<open>internal/stream/manager.go\<close> and \<open>internal/stream/billing.go\<close>. The registry maps camera identifiers to
  stream objects, which are addresses in a store, since handlers keep using a stream they looked
  up. What runs under the manager's mutex is one step; streams to be stopped are collected and
  stopped after it. The order in which Go ranges over a map is a list argument.

  Shown: no operation panics, every stream that leaves the registry is stopped and no other is,
  synchronisation makes the running streams exactly those of the enabled cameras, removing a
  stream keeps the cumulative counters, and billing neither loses nor duplicates traffic as long
  as a batch fits one transaction.
\<close>

type_synonym stream_id = nat

record 'w Manager =
  streams :: "string \<rightharpoonup> stream_id"
  objs :: "stream_id \<rightharpoonup> 'w Stream"
  mgr_fresh :: stream_id
  cumFrames :: nat
  cumBytes :: nat
  cumBytesSent :: nat
  cumDrops :: nat
  cumReconnects :: nat

definition NewManager :: "'w Manager" where
  "NewManager = \<lparr>streams = Map.empty, objs = Map.empty, mgr_fresh = 0,
     cumFrames = 0, cumBytes = 0, cumBytesSent = 0, cumDrops = 0, cumReconnects = 0\<rparr>"

text \<open>\<open>m.streams[id] = NewStream(...)\<close>.\<close>

definition spawn :: "int \<Rightarrow> string \<Rightarrow> string \<Rightarrow> bool \<Rightarrow> bool \<Rightarrow> string \<Rightarrow> bool \<Rightarrow> 'w Manager \<Rightarrow> 'w Manager outcome" where
  "spawn now i url rc lz tr ta m =
     and_then (NewStream now i url rc lz tr ta) (\<lambda>s.
       Inr (m\<lparr>streams := (streams m)(i \<mapsto> mgr_fresh m), objs := (objs m)(mgr_fresh m \<mapsto> s), mgr_fresh := mgr_fresh m + 1\<rparr>))"

definition stop_obj :: "stream_id \<Rightarrow> 'w Manager \<Rightarrow> 'w Manager outcome" where
  "stop_obj a m =
     (case objs m a of
        None \<Rightarrow> Inl NilDeref
      | Some s \<Rightarrow> and_then (Stream_Stop s) (\<lambda>s'. Inr (m\<lparr>objs := (objs m)(a \<mapsto> s')\<rparr>)))"

definition AddStream :: "int \<Rightarrow> string \<Rightarrow> string \<Rightarrow> bool \<Rightarrow> bool \<Rightarrow> string \<Rightarrow> bool \<Rightarrow> 'w Manager \<Rightarrow> (string option \<times> 'w Manager) outcome" where
  "AddStream now i url rc lz tr ta m =
     (if streams m i \<noteq> None then Inr (Some (''stream '' @ i @ '' already exists''), m)
      else and_then (spawn now i url rc lz tr ta m) (\<lambda>m'. Inr (None, m')))"

definition RemoveStream :: "string \<Rightarrow> 'w Manager \<Rightarrow> 'w Manager outcome" where
  "RemoveStream i m =
     (case streams m i of
        None \<Rightarrow> Inr m
      | Some a \<Rightarrow>
          (case objs m a of
             None \<Rightarrow> Inl NilDeref
           | Some st \<Rightarrow>
               stop_obj a (m\<lparr>streams := (streams m)(i := None),
                 cumFrames := u64 (cumFrames m + framesReceived st), cumBytes := u64 (cumBytes m + bytesReceived st),
                 cumBytesSent := u64 (cumBytesSent m + bytesSent st), cumReconnects := u64 (cumReconnects m + reconnects st),
                 cumDrops := u64 (cumDrops m + GetTotalDrops (ringBuffer st))\<rparr>)))"

definition GetStream :: "string \<Rightarrow> 'w Manager \<Rightarrow> stream_id option" where
  "GetStream i m = streams m i"

definition HasStream :: "string \<Rightarrow> 'w Manager \<Rightarrow> bool" where
  "HasStream i m \<longleftrightarrow> streams m i \<noteq> None"

text \<open>A snapshot of the registered streams in the order \<open>order\<close> of the identifiers.\<close>

definition GetStreams :: "string list \<Rightarrow> 'w Manager \<Rightarrow> 'w Stream list" where
  "GetStreams order m = map (\<lambda>i. the (objs m (the (streams m i)))) order"

text \<open>Frames, bytes in, bytes out, drops, reconnects.\<close>

type_synonym totals = "nat \<times> nat \<times> nat \<times> nat \<times> nat"

definition add_totals :: "totals \<Rightarrow> totals \<Rightarrow> totals" where
  "add_totals = (\<lambda>(f, i, out, d, r) (f', i', out', d', r').
     (u64 (f + f'), u64 (i + i'), u64 (out + out'), u64 (d + d'), u64 (r + r')))"

definition stream_totals :: "'w Stream \<Rightarrow> totals" where
  "stream_totals st =
     (let stats = GetStats 0 st
      in (cs_Frames stats, cs_BytesReceived stats, cs_BytesSent stats, GetTotalDrops (ringBuffer st), cs_Reconnects stats))"

definition GetCumulativeStats :: "string list \<Rightarrow> 'w Manager \<Rightarrow> totals" where
  "GetCumulativeStats order m =
     fold (\<lambda>st acc. add_totals acc (stream_totals st)) (GetStreams order m)
       (cumFrames m, cumBytes m, cumBytesSent m, cumDrops m, cumReconnects m)"

definition UpsertStream :: "int \<Rightarrow> string \<Rightarrow> string \<Rightarrow> bool \<Rightarrow> bool \<Rightarrow> string \<Rightarrow> bool \<Rightarrow> bool \<Rightarrow> 'w Manager \<Rightarrow> 'w Manager outcome" where
  "UpsertStream now i url rc lz tr ta disabled m =
     (case streams m i of
        Some a \<Rightarrow>
          (case objs m a of
             None \<Rightarrow> Inl NilDeref
           | Some existing \<Rightarrow>
               if disabled then stop_obj a (m\<lparr>streams := (streams m)(i := None)\<rparr>)
               else if MatchesConfig existing url rc lz tr ta then Inr m
               else and_then (spawn now i url rc lz tr ta m) (stop_obj a))
      | None \<Rightarrow> if disabled then Inr m else spawn now i url rc lz tr ta m)"

text \<open>The first loop of \<open>SyncWithStorage\<close>, for one camera; the streams to stop are collected.\<close>

definition sync_camera :: "int \<Rightarrow> CameraConfig \<Rightarrow> 'w Manager \<times> stream_id list \<Rightarrow> ('w Manager \<times> stream_id list) outcome" where
  "sync_camera now cam = (\<lambda>(m, toStop).
     if Disabled cam then Inr (m, toStop)
     else
       let new = spawn now (ID cam) (URL cam) (Record cam) (LazyHLS cam) (Transport cam) (TokenAuth cam) m in
       (case streams m (ID cam) of
          Some a \<Rightarrow>
            (case objs m a of
               None \<Rightarrow> Inl NilDeref
             | Some existing \<Rightarrow>
                 if MatchesConfig existing (URL cam) (Record cam) (LazyHLS cam) (Transport cam) (TokenAuth cam)
                 then Inr (m, toStop)
                 else and_then new (\<lambda>m'. Inr (m', toStop @ [a])))
        | None \<Rightarrow> and_then new (\<lambda>m'. Inr (m', toStop))))"

text \<open>The second loop, for one registered identifier.\<close>

definition sync_prune :: "string set \<Rightarrow> string \<Rightarrow> 'w Manager \<times> stream_id list \<Rightarrow> 'w Manager \<times> stream_id list" where
  "sync_prune active i = (\<lambda>(m, toStop).
     case streams m i of
       Some a \<Rightarrow> if i \<in> active then (m, toStop) else (m\<lparr>streams := (streams m)(i := None)\<rparr>, toStop @ [a])
     | None \<Rightarrow> (m, toStop))"

definition active_ids :: "CameraConfig list \<Rightarrow> string set" where
  "active_ids cams = {ID c | c. c \<in> set cams \<and> \<not> Disabled c}"

definition SyncWithStorage :: "int \<Rightarrow> store_err + CameraConfig list \<Rightarrow> string list \<Rightarrow> 'w Manager \<Rightarrow> (store_err option \<times> 'w Manager) outcome" where
  "SyncWithStorage now listed order m =
     (case listed of
        Inl e \<Rightarrow> Inr (Some e, m)
      | Inr cams \<Rightarrow>
          and_then (for_each (sync_camera now) cams (m, [])) (\<lambda>r.
            case fold (sync_prune (active_ids cams)) order r of
              (m1, toStop) \<Rightarrow> and_then (for_each stop_obj toStop m1) (\<lambda>m2. Inr (None, m2))))"

definition Manager_Close :: "string list \<Rightarrow> 'w Manager \<Rightarrow> 'w Manager outcome" where
  "Manager_Close order m =
     for_each stop_obj (map (\<lambda>i. the (streams m i)) order) (m\<lparr>streams := Map.empty\<rparr>)"

text \<open>One tick of the housekeeping loop; a panic in one stream's housekeeping is recovered.\<close>

definition tick_stream :: "int \<Rightarrow> string \<Rightarrow> 'w Manager \<Rightarrow> 'w Manager" where
  "tick_stream now i m =
     (case streams m i of
        None \<Rightarrow> m
      | Some a \<Rightarrow>
          (case objs m a of
             None \<Rightarrow> m
           | Some st \<Rightarrow>
               (case TickHousekeeping now st of Inl _ \<Rightarrow> m | Inr st' \<Rightarrow> m\<lparr>objs := (objs m)(a \<mapsto> st')\<rparr>)))"

definition housekeeping_tick :: "int \<Rightarrow> string list \<Rightarrow> 'w Manager \<Rightarrow> 'w Manager" where
  "housekeeping_tick now order m = fold (tick_stream now) order m"

subsection \<open>Billing\<close>

definition at0 :: "(string \<rightharpoonup> nat) \<Rightarrow> string \<Rightarrow> nat" where
  "at0 m i = (case m i of Some n \<Rightarrow> n | None \<Rightarrow> 0)"

definition collect_one :: "'w Stream \<Rightarrow> (string \<rightharpoonup> nat) \<times> (string \<rightharpoonup> nat) \<Rightarrow> (string \<rightharpoonup> nat) \<times> (string \<rightharpoonup> nat)" where
  "collect_one st = (\<lambda>(lastB, pending).
     let i = st_ID st; current = cs_BytesReceived (GetStats 0 st); prev = at0 lastB i;
         pending' =
           (if prev < current then pending(i \<mapsto> u64 (at0 pending i + (current - prev)))
            else if current < prev then pending(i \<mapsto> u64 (at0 pending i + current))
            else pending)
     in (lastB(i \<mapsto> current), pending'))"

definition collectBillingDelta :: "string list \<Rightarrow> 'w Manager \<Rightarrow> (string \<rightharpoonup> nat) \<times> (string \<rightharpoonup> nat) \<Rightarrow> (string \<rightharpoonup> nat) \<times> (string \<rightharpoonup> nat)" where
  "collectBillingDelta order m lp =
     (case fold collect_one (GetStreams order m) lp of
        (lastB, pending) \<Rightarrow> (lastB |` set (map st_ID (GetStreams order m)), pending))"

text \<open>One tick: collect, flush the pending deltas (in the order \<open>us\<close> of ranging over the map) and forget
  them if the flush succeeded.\<close>

definition billing_tick ::
  "('d, 't) badger_ops \<Rightarrow> string \<Rightarrow> string list \<Rightarrow> string list \<Rightarrow> 'w Manager \<Rightarrow>
   (string \<rightharpoonup> nat) \<times> (string \<rightharpoonup> nat) \<times> 'd Storage \<Rightarrow> (string \<rightharpoonup> nat) \<times> (string \<rightharpoonup> nat) \<times> 'd Storage" where
  "billing_tick B nowMonth order keys m = (\<lambda>(lastB, pending, s).
     case collectBillingDelta order m (lastB, pending) of
       (lastB1, pending1) \<Rightarrow>
         if pending1 = Map.empty then (lastB1, pending1, s)
         else (case BatchUpdateTraffic B (map (\<lambda>i. (i, at0 pending1 i)) keys) nowMonth s of
                 (None, s1) \<Rightarrow> (lastB1, Map.empty, s1)
               | (Some _, s1) \<Rightarrow> (lastB1, pending1, s1)))"

subsection \<open>Invariant\<close>

text \<open>Every registered identifier has its own running stream; a running stream is registered or about
  to be stopped.\<close>

definition mgr_inv :: "'w Manager \<Rightarrow> stream_id list \<Rightarrow> bool" where
  "mgr_inv m toStop \<longleftrightarrow> finite (dom (streams m)) \<and>
     (\<forall>i a. streams m i = Some a \<longrightarrow> a \<notin> set toStop \<and> (\<exists>s. objs m a = Some s \<and> \<not> ctx_done s \<and> st_ID s = i)) \<and>
     (\<forall>a s. objs m a = Some s \<longrightarrow> a < mgr_fresh m \<and> stream_inv s \<and> (a \<notin> ran (streams m) \<and> a \<notin> set toStop \<longrightarrow> ctx_done s)) \<and>
     set toStop \<subseteq> dom (objs m) \<and> distinct toStop"

definition matches_cam :: "'w Stream \<Rightarrow> CameraConfig \<Rightarrow> bool" where
  "matches_cam s c = MatchesConfig s (URL c) (Record c) (LazyHLS c) (Transport c) (TokenAuth c)"

text \<open>A camera is served from \<open>m\<close> to \<open>m'\<close>: its stream runs with the camera's settings, and it is the stream
  that ran before if that one had these settings.\<close>

definition served :: "CameraConfig \<Rightarrow> 'w Manager \<Rightarrow> 'w Manager \<Rightarrow> bool" where
  "served c m m' \<longleftrightarrow> (\<exists>a s. streams m' (ID c) = Some a \<and> objs m' a = Some s \<and> matches_cam s c \<and>
     (\<forall>a0 s0. streams m (ID c) = Some a0 \<and> objs m a0 = Some s0 \<and> matches_cam s0 c \<longrightarrow> a = a0 \<and> s = s0))"

text \<open>What a collection adds to the pending traffic of a camera: the growth of its stream's counter, or
  the whole counter after a restart.\<close>

definition growth :: "nat \<Rightarrow> nat \<Rightarrow> nat" where
  "growth prev current = (if prev \<le> current then current - prev else current)"

lemma mgr_invD:
  assumes "mgr_inv m ts"
  shows "finite (dom (streams m))"
    and "streams m i = Some a \<Longrightarrow> a \<notin> set ts"
    and "streams m i = Some a \<Longrightarrow> \<exists>s. objs m a = Some s \<and> stream_inv s \<and> \<not> ctx_done s \<and> st_ID s = i"
    and "objs m a = Some s \<Longrightarrow> a < mgr_fresh m" and "objs m a = Some s \<Longrightarrow> stream_inv s"
    and "objs m a = Some s \<Longrightarrow> a \<notin> ran (streams m) \<Longrightarrow> a \<notin> set ts \<Longrightarrow> ctx_done s"
    and "set ts \<subseteq> dom (objs m)" and "distinct ts"
  using assms unfolding mgr_inv_def by (blast | metis)+

lemma mgr_invI:
  assumes "finite (dom (streams m))" "\<And>i a. streams m i = Some a \<Longrightarrow> a \<notin> set ts"
    and "\<And>i a. streams m i = Some a \<Longrightarrow> \<exists>s. objs m a = Some s \<and> \<not> ctx_done s \<and> st_ID s = i"
    and "\<And>a s. objs m a = Some s \<Longrightarrow> a < mgr_fresh m" "\<And>a s. objs m a = Some s \<Longrightarrow> stream_inv s"
    and "\<And>a s. objs m a = Some s \<Longrightarrow> a \<notin> ran (streams m) \<Longrightarrow> a \<notin> set ts \<Longrightarrow> ctx_done s"
    and "set ts \<subseteq> dom (objs m)" "distinct ts"
  shows "mgr_inv m ts"
  using assms unfolding mgr_inv_def by blast

lemma mgr_inv_snoc: "mgr_inv m (ts @ [a]) \<longleftrightarrow> mgr_inv m (a # ts)"
  unfolding mgr_inv_def by auto

lemma one_id: "mgr_inv m ts \<Longrightarrow> streams m i = Some a \<Longrightarrow> streams m j = Some a \<Longrightarrow> i = j"
  using mgr_invD(3) by (metis option.inject)

lemma mgr_inv_New: "mgr_inv NewManager []"
  by (simp add: mgr_inv_def NewManager_def)

lemma unregister_ok:
  assumes "mgr_inv m ts" "streams m i = Some a"
  shows "mgr_inv (m\<lparr>streams := (streams m)(i := None)\<rparr>) (a # ts)" (is "mgr_inv ?m _")
proof (rule mgr_invI)
  note d = mgr_invD [OF assms(1)]
  show "finite (dom (streams ?m))" using d(1) by simp
  show "b \<notin> set (a # ts)" if "streams ?m j = Some b" for j b
    using that d(2) one_id [OF assms] by (auto split: if_splits)
  show "\<exists>s. objs ?m b = Some s \<and> \<not> ctx_done s \<and> st_ID s = j" if "streams ?m j = Some b" for j b
    using that d(3) by (auto split: if_splits)
  show "b < mgr_fresh ?m" "stream_inv s" if "objs ?m b = Some s" for b s using that d(4,5) by auto
  show "ctx_done s" if "objs ?m b = Some s" "b \<notin> ran (streams ?m)" "b \<notin> set (a # ts)" for b s
  proof -
    have "b \<notin> ran (streams m)"
    proof
      assume "b \<in> ran (streams m)"
      then obtain j where "streams m j = Some b" by (auto simp: ran_def)
      moreover from this that(3) assms(2) have "j \<noteq> i" by auto
      ultimately have "streams ?m j = Some b" by simp
      then show False using that(2) by (metis ranI)
    qed
    then show ?thesis using that d(6) by simp
  qed
  show "set (a # ts) \<subseteq> dom (objs ?m)" using d(3) [OF assms(2)] d(7) by auto
  show "distinct (a # ts)" using d(2) [OF assms(2)] d(8) by simp
qed

lemma spawn_fresh:
  assumes "mgr_inv m ts" "streams m i = None"
  shows "\<exists>m' s. spawn now i url rc lz tr ta m = Inr m' \<and> mgr_inv m' ts \<and> streams m' = (streams m)(i \<mapsto> mgr_fresh m) \<and>
    objs m' = (objs m)(mgr_fresh m \<mapsto> s) \<and> MatchesConfig s url rc lz tr ta"
proof -
  note d = mgr_invD [OF assms(1)]
  obtain s :: "'a Stream" where s: "NewStream now i url rc lz tr ta = Inr s" "stream_inv s" "\<not> ctx_done s" "st_ID s = i"
    "MatchesConfig s url rc lz tr ta"
    using NewStream_ok [of now i url rc lz tr ta] by blast
  have nf: "objs m (mgr_fresh m) = None" using d(4) by (metis less_irrefl not_Some_eq)
  have old: "a \<noteq> mgr_fresh m" if "streams m j = Some a" for j a using d(3) [OF that] nf by auto
  let ?m = "m\<lparr>streams := (streams m)(i \<mapsto> mgr_fresh m), objs := (objs m)(mgr_fresh m \<mapsto> s), mgr_fresh := mgr_fresh m + 1\<rparr>"
  have "mgr_inv ?m ts"
  proof (rule mgr_invI)
    show "finite (dom (streams ?m))" using d(1) by simp
    show "a \<notin> set ts" if "streams ?m j = Some a" for j a
      using that d(2,7) nf by (auto split: if_splits)
    show "\<exists>t. objs ?m a = Some t \<and> \<not> ctx_done t \<and> st_ID t = j" if "streams ?m j = Some a" for j a
      using that d(3) old s by (auto split: if_splits)
    show "a < mgr_fresh ?m" if "objs ?m a = Some t" for a t
      using that d(4) [of a t] by (auto split: if_splits)
    show "stream_inv t" if "objs ?m a = Some t" for a t
      using that d(5) s(2) by (auto split: if_splits)
    show "ctx_done t" if "objs ?m a = Some t" "a \<notin> ran (streams ?m)" "a \<notin> set ts" for a t
      using that d(6) assms(2) by (auto split: if_splits)
    show "set ts \<subseteq> dom (objs ?m)" using d(7) by auto
    show "distinct ts" using d(8) .
  qed
  then show ?thesis using s by (intro exI [of _ ?m] exI [of _ s]) (simp add: spawn_def)
qed

lemma spawn_replace:
  assumes "mgr_inv m ts" "streams m i = Some a"
  shows "\<exists>m' s. spawn now i url rc lz tr ta m = Inr m' \<and> mgr_inv m' (a # ts) \<and> streams m' = (streams m)(i \<mapsto> mgr_fresh m) \<and>
    objs m' = (objs m)(mgr_fresh m \<mapsto> s) \<and> MatchesConfig s url rc lz tr ta"
proof -
  let ?m = "m\<lparr>streams := (streams m)(i := None)\<rparr>"
  obtain m' s where "spawn now i url rc lz tr ta ?m = Inr m'" "mgr_inv m' (a # ts)" "streams m' = (streams m)(i \<mapsto> mgr_fresh m)"
    "objs m' = (objs m)(mgr_fresh m \<mapsto> s)" "MatchesConfig s url rc lz tr ta"
    using spawn_fresh [OF unregister_ok [OF assms], of i now url rc lz tr ta] by auto
  moreover have "spawn now i url rc lz tr ta ?m = spawn now i url rc lz tr ta m"
    by (simp add: spawn_def)
  ultimately show ?thesis by auto
qed

lemma stop_ok:
  assumes "mgr_inv m (a # ts)"
  shows "\<exists>m' s'. stop_obj a m = Inr m' \<and> mgr_inv m' ts \<and> m' = m\<lparr>objs := (objs m)(a \<mapsto> s')\<rparr> \<and> ctx_done s'"
proof -
  note d = mgr_invD [OF assms]
  obtain s where s: "objs m a = Some s" using d(7) by auto
  obtain s' where s': "Stream_Stop s = Inr s'" "stream_inv s'" "ctx_done s'" using Stream_Stop_ok d(5) [OF s] by blast
  have na: "b \<noteq> a" if "streams m i = Some b" for i b using d(2) [OF that] by auto
  let ?m = "m\<lparr>objs := (objs m)(a \<mapsto> s')\<rparr>"
  have "mgr_inv ?m ts"
  proof (rule mgr_invI)
    show "finite (dom (streams ?m))" using d(1) by simp
    show "b \<notin> set ts" if "streams ?m i = Some b" for i b using that d(2) by auto
    show "\<exists>t. objs ?m b = Some t \<and> \<not> ctx_done t \<and> st_ID t = i" if "streams ?m i = Some b" for i b
      using that d(3) [of i b] na [of i b] by auto
    show "b < mgr_fresh ?m" "stream_inv t" if "objs ?m b = Some t" for b t
      using that d(4) [OF s] d(4) [of b t] d(5) [of b t] s'(2) by (auto split: if_splits)
    show "ctx_done t" if "objs ?m b = Some t" "b \<notin> ran (streams ?m)" "b \<notin> set ts" for b t
      using that d(6) [of b t] s'(3) by (auto split: if_splits)
    show "set ts \<subseteq> dom (objs ?m)" "distinct ts" using d(7,8) by auto
  qed
  then show ?thesis using s s' by (intro exI [of _ ?m] exI [of _ s']) (simp add: stop_obj_def)
qed

lemma stop_all_ok:
  assumes "mgr_inv m ts"
  shows "\<exists>m'. for_each stop_obj ts m = Inr m' \<and> mgr_inv m' [] \<and> streams m' = streams m \<and>
    (\<forall>b. b \<notin> set ts \<longrightarrow> objs m' b = objs m b)"
  using assms
proof (induction ts arbitrary: m)
  case (Cons a ts)
  obtain m1 s' where m1: "stop_obj a m = Inr m1" "mgr_inv m1 ts" "m1 = m\<lparr>objs := (objs m)(a \<mapsto> s')\<rparr>"
    using stop_ok [OF Cons.prems] by blast
  from Cons.IH [OF m1(2)] m1 show ?case by auto
qed simp

lemma sync_camera_ok:
  assumes "mgr_inv m ts"
  shows "\<exists>m' ts'. sync_camera now cam (m, ts) = Inr (m', ts') \<and> mgr_inv m' ts' \<and>
    (\<forall>i. i \<noteq> ID cam \<or> Disabled cam \<longrightarrow> streams m' i = streams m i) \<and>
    (\<forall>b s. objs m b = Some s \<longrightarrow> objs m' b = Some s) \<and>
    (\<not> Disabled cam \<longrightarrow> served cam m m')"
proof -
  note d = mgr_invD [OF assms]
  have old: "b \<noteq> mgr_fresh m" if "objs m b = Some s" for b s using d(4) [OF that] by auto
  consider "Disabled cam" | (new) "\<not> Disabled cam" "streams m (ID cam) = None"
    | (same) a s where "\<not> Disabled cam" "streams m (ID cam) = Some a" "objs m a = Some s"
        "MatchesConfig s (URL cam) (Record cam) (LazyHLS cam) (Transport cam) (TokenAuth cam)"
    | (change) a s where "\<not> Disabled cam" "streams m (ID cam) = Some a" "objs m a = Some s"
        "\<not> MatchesConfig s (URL cam) (Record cam) (LazyHLS cam) (Transport cam) (TokenAuth cam)"
    using d(3) [of "ID cam"] by (cases "Disabled cam"; cases "streams m (ID cam)") auto
  then show ?thesis
  proof cases
    case new
    with spawn_fresh [OF assms new(2), of now "URL cam" "Record cam" "LazyHLS cam" "Transport cam" "TokenAuth cam"] old
    show ?thesis by (auto simp: sync_camera_def Let_def served_def matches_cam_def)
  next
    case change
    with spawn_replace [OF assms change(2), of now "URL cam" "Record cam" "LazyHLS cam" "Transport cam" "TokenAuth cam"] old
    show ?thesis by (auto simp: sync_camera_def Let_def served_def matches_cam_def mgr_inv_snoc)
  qed (use assms in \<open>auto simp: sync_camera_def Let_def served_def matches_cam_def\<close>)
qed

lemma sync_cameras_ok:
  assumes "mgr_inv m ts" "distinct (map ID cams)"
  shows "\<exists>m' ts'. for_each (sync_camera now) cams (m, ts) = Inr (m', ts') \<and> mgr_inv m' ts' \<and>
    (\<forall>i. i \<notin> active_ids cams \<longrightarrow> streams m' i = streams m i) \<and>
    (\<forall>b s. objs m b = Some s \<longrightarrow> objs m' b = Some s) \<and>
    (\<forall>c\<in>set cams. \<not> Disabled c \<longrightarrow> served c m m')"
  using assms
proof (induction cams arbitrary: m ts)
  case (Cons c cams)
  obtain m1 ts1 where m1: "sync_camera now c (m, ts) = Inr (m1, ts1)" "mgr_inv m1 ts1"
    "\<And>i. i \<noteq> ID c \<or> Disabled c \<Longrightarrow> streams m1 i = streams m i" "\<And>b s. objs m b = Some s \<Longrightarrow> objs m1 b = Some s"
    "\<not> Disabled c \<Longrightarrow> served c m m1"
    using sync_camera_ok [OF Cons.prems(1), of now c] by blast
  obtain m' ts' where m': "for_each (sync_camera now) cams (m1, ts1) = Inr (m', ts')" "mgr_inv m' ts'"
    "\<And>i. i \<notin> active_ids cams \<Longrightarrow> streams m' i = streams m1 i" "\<And>b s. objs m1 b = Some s \<Longrightarrow> objs m' b = Some s"
    "\<And>c'. c' \<in> set cams \<Longrightarrow> \<not> Disabled c' \<Longrightarrow> served c' m1 m'"
    using Cons.IH [OF m1(2)] Cons.prems(2) by auto
  have notin: "ID c \<notin> active_ids cams" using Cons.prems(2) by (force simp: active_ids_def)
  have "served c m m'" if "\<not> Disabled c"
    using m1(5) [OF that] m'(3) [OF notin] m'(4) unfolding served_def by force
  moreover have "served c' m m'" if "c' \<in> set cams" "\<not> Disabled c'" for c'
  proof -
    have "ID c' \<noteq> ID c" using imageI [OF that(1), of ID] Cons.prems(2) by auto
    then show ?thesis using m'(5) [OF that] m1(3) [of "ID c'"] m1(4) unfolding served_def by metis
  qed
  moreover have "streams m' i = streams m i" if "i \<notin> active_ids (c # cams)" for i
  proof -
    have "i \<notin> active_ids cams" "i \<noteq> ID c \<or> Disabled c" using that by (auto simp: active_ids_def)
    then show ?thesis using m'(3) m1(3) by simp
  qed
  moreover have "objs m' b = Some s" if "objs m b = Some s" for b s using m1(4) m'(4) that by blast
  ultimately show ?case using m1(1) m'(1,2) by auto
qed simp

lemma sync_prune_ok:
  assumes "mgr_inv m ts"
  shows "\<exists>m' ts'. fold (sync_prune A) order (m, ts) = (m', ts') \<and> mgr_inv m' ts' \<and> objs m' = objs m \<and>
    streams m' = (\<lambda>i. if i \<in> set order \<and> i \<notin> A then None else streams m i)"
  using assms
proof (induction order arbitrary: m ts)
  case (Cons j order)
  show ?case
  proof (cases "j \<notin> A \<and> streams m j \<noteq> None")
    case True
    then obtain a where a: "streams m j = Some a" by blast
    let ?m = "m\<lparr>streams := (streams m)(j := None)\<rparr>"
    have st: "sync_prune A j (m, ts) = (?m, ts @ [a])" using True a by (simp add: sync_prune_def)
    from Cons.IH [OF unregister_ok [OF Cons.prems a, folded mgr_inv_snoc]] obtain m' ts' where
      "fold (sync_prune A) order (?m, ts @ [a]) = (m', ts')" "mgr_inv m' ts'" "objs m' = objs m"
      "streams m' = (\<lambda>i. if i \<in> set order \<and> i \<notin> A then None else streams ?m i)" by auto
    then show ?thesis using st True by (auto simp: fun_eq_iff)
  next
    case False
    then have st: "sync_prune A j (m, ts) = (m, ts)" by (auto simp: sync_prune_def split: option.splits)
    from Cons.IH [OF Cons.prems] obtain m' ts' where
      "fold (sync_prune A) order (m, ts) = (m', ts')" "mgr_inv m' ts'" "objs m' = objs m"
      "streams m' = (\<lambda>i. if i \<in> set order \<and> i \<notin> A then None else streams m i)" by blast
    then show ?thesis using st False by (auto simp: fun_eq_iff)
  qed
qed auto

lemma active_ids_simps:
  "active_ids [] = {}" "active_ids (c # cs) = (if Disabled c then {} else {ID c}) \<union> active_ids cs"
  by (auto simp: active_ids_def)

lemma GetStreams_ids:
  assumes "mgr_inv m []" "set order \<subseteq> dom (streams m)"
  shows "map st_ID (GetStreams order m) = order"
proof -
  have "st_ID (the (objs m (the (streams m i)))) = i" if "i \<in> set order" for i
    using assms(2) that mgr_invD(3) [OF assms(1), of i] by fastforce
  then show ?thesis by (simp add: GetStreams_def map_idI)
qed

lemma GetStats_counters:
  "cs_BytesReceived (GetStats t st) = bytesReceived st" "cs_Frames (GetStats t st) = framesReceived st"
  "cs_BytesSent (GetStats t st) = bytesSent st" "cs_Reconnects (GetStats t st) = reconnects st"
  by (simp_all add: GetStats_def Let_def split: prod.splits)

lemma collect_one_eq:
  "collect_one st (l, p) = (l(st_ID st \<mapsto> bytesReceived st),
     if bytesReceived st = at0 l (st_ID st) then p
     else p(st_ID st \<mapsto> u64 (at0 p (st_ID st) + growth (at0 l (st_ID st)) (bytesReceived st))))"
  by (simp add: collect_one_def GetStats_counters Let_def growth_def)

lemma growth_self: "growth n n = 0"
  by (simp add: growth_def)

lemma at0_upd: "at0 (m(i \<mapsto> n)) i = n"
  by (simp add: at0_def)

lemma collect_one_at:
  assumes "collect_one st (l, p) = (l', p')"
  shows "at0 l' (st_ID st) = bytesReceived st"
    and "at0 p (st_ID st) + bytesReceived st < 2 ^ 64 \<Longrightarrow>
      at0 p' (st_ID st) = at0 p (st_ID st) + growth (at0 l (st_ID st)) (bytesReceived st)"
    and "i \<noteq> st_ID st \<Longrightarrow> l' i = l i \<and> p' i = p i"
proof -
  note e = assms [unfolded collect_one_eq prod.inject, THEN conjunct1, symmetric]
    assms [unfolded collect_one_eq prod.inject, THEN conjunct2, symmetric]
  show "at0 l' (st_ID st) = bytesReceived st" using e by (simp add: at0_upd)
  show "i \<noteq> st_ID st \<Longrightarrow> l' i = l i \<and> p' i = p i" using e by simp
  assume "at0 p (st_ID st) + bytesReceived st < 2 ^ 64"
  moreover have "growth (at0 l (st_ID st)) (bytesReceived st) \<le> bytesReceived st" by (simp add: growth_def)
  ultimately have "u64 (at0 p (st_ID st) + growth (at0 l (st_ID st)) (bytesReceived st)) = at0 p (st_ID st) + growth (at0 l (st_ID st)) (bytesReceived st)"
    by (simp add: u64_def)
  then show "at0 p' (st_ID st) = at0 p (st_ID st) + growth (at0 l (st_ID st)) (bytesReceived st)"
    using e(2) growth_self by (simp add: at0_upd)
qed

lemma collect_other:
  "i \<notin> set (map st_ID sts) \<Longrightarrow> fold collect_one sts (l, p) = (l', p') \<Longrightarrow> l' i = l i \<and> p' i = p i"
proof (induction sts arbitrary: l p)
  case (Cons st sts)
  obtain l1 p1 where c: "collect_one st (l, p) = (l1, p1)" by force
  with Cons collect_one_at(3) [OF c, of i] show ?case by simp
qed simp

lemma collect_at:
  assumes "distinct (map st_ID sts)" "st \<in> set sts" "fold collect_one sts (l, p) = (l', p')"
    "at0 p (st_ID st) + bytesReceived st < 2 ^ 64"
  shows "at0 l' (st_ID st) = bytesReceived st \<and>
    at0 p' (st_ID st) = at0 p (st_ID st) + growth (at0 l (st_ID st)) (bytesReceived st)"
  using assms
proof (induction sts arbitrary: l p)
  case (Cons x sts)
  obtain l1 p1 where c: "collect_one x (l, p) = (l1, p1)" by force
  then have f: "fold collect_one sts (l1, p1) = (l', p')" using Cons.prems(3) by simp
  show ?case
  proof (cases "x = st")
    case True
    then have "l' (st_ID st) = l1 (st_ID st) \<and> p' (st_ID st) = p1 (st_ID st)"
      using collect_other [OF _ f, of "st_ID st"] Cons.prems(1) by auto
    then show ?thesis using collect_one_at(1,2) [OF c] Cons.prems(4) True by (simp add: at0_def)
  next
    case False
    then have "st \<in> set sts" using Cons.prems(2) by simp
    moreover from this have "st_ID st \<noteq> st_ID x" using Cons.prems(1) by (metis distinct.simps(2) imageI list.simps(9) set_map)
    ultimately show ?thesis using Cons.IH [OF _ _ f] Cons.prems(1,4) collect_one_at(3) [OF c, of "st_ID st"] by (simp add: at0_def)
  qed
qed simp

lemma collectBillingDelta_at:
  assumes "mgr_inv m []" "distinct order" "set order = dom (streams m)" "streams m i = Some a" "objs m a = Some st"
    "collectBillingDelta order m (l, p) = (l', p')" "at0 p i + bytesReceived st < 2 ^ 64"
  shows "at0 l' i = bytesReceived st" "at0 p' i = at0 p i + growth (at0 l i) (bytesReceived st)"
proof -
  note ids = GetStreams_ids [OF assms(1) equalityD1 [OF assms(3)]]
  obtain l1 where f: "fold collect_one (GetStreams order m) (l, p) = (l1, p')" "l' = l1 |` set order"
    using assms(6) ids by (auto simp: collectBillingDelta_def simp del: set_map split: prod.splits)
  have st: "st_ID st = i" using mgr_invD(3) [OF assms(1,4)] assms(5) by auto
  have i: "i \<in> set order" using assms(3,4) by auto
  then have "st \<in> set (GetStreams order m)" using assms(4,5) by (auto simp: GetStreams_def intro!: image_eqI [of _ _ i])
  then have "at0 l1 i = bytesReceived st \<and> at0 p' i = at0 p i + growth (at0 l i) (bytesReceived st)"
    using collect_at [OF _ _ f(1), of st] ids assms(2,7) st by simp
  then show "at0 l' i = bytesReceived st" "at0 p' i = at0 p i + growth (at0 l i) (bytesReceived st)"
    using i f(2) by (simp_all add: at0_def)
qed

lemma chunks_single: "us \<noteq> [] \<Longrightarrow> length us \<le> n \<Longrightarrow> chunks n us = [us]"
  by (cases n) (simp_all add: chunks.simps)

text \<open>A batch of at most 200 entries is one transaction.\<close>

lemma small_batch:
  assumes "store_ok B s" "us \<noteq> []" "length us \<le> 200" "distinct (map fst us)" "BatchUpdateTraffic B us mo s = (e, s')"
  shows "store_ok B s' \<and> (\<forall>i. coll_map (GetCamera B) s' i =
    (case (if e = None then map_of us i else None) of
       None \<Rightarrow> coll_map (GetCamera B) s i
     | Some d \<Rightarrow> map_option (bill mo d) (coll_map (GetCamera B) s i)))"
proof -
  have bo: "badger_ok B" "data_ok (reads B (invalidateCameraCache s))" using assms(1) by (simp_all add: store_ok_def)
  have "bill_chunks B mo [us] (invalidateCameraCache s) = (e, s')"
    using assms(2,3,5) by (simp add: BatchUpdateTraffic_def chunks_single)
  from bill_chunks_law [OF bo this] obtain k where k: "data_ok (reads B s')" "cachedCameras s' = None"
    "cam_at (reads B s') = bill_map mo (concat (take k [us])) (cam_at (reads B s))"
    "if e = None then k = 1 else k = 0" by (auto split: if_splits)
  then have "cam_at (reads B s') = bill_map mo (if e = None then us else []) (cam_at (reads B s))" by (auto split: if_splits)
  then show ?thesis
    using k(1,2) bo(1) bill_map_lookup [OF assms(4)] unfolding cam_at_GetCamera
    by (auto simp: bill_map_def intro!: store_okI_uncached split: if_splits)
qed

text \<open>Adding, removing, replacing or disabling a stream keeps the invariant.\<close>

lemma AddStream_ok:
  assumes "mgr_inv m []" "streams m i = None"
  shows "\<exists>m' s. AddStream now i url rc lz tr ta m = Inr (None, m') \<and> mgr_inv m' [] \<and> streams m' = (streams m)(i \<mapsto> mgr_fresh m) \<and>
    objs m' = (objs m)(mgr_fresh m \<mapsto> s) \<and> MatchesConfig s url rc lz tr ta"
  using spawn_fresh [OF assms, of now url rc lz tr ta] assms(2) by (auto simp: AddStream_def)

lemma RemoveStream_ok:
  assumes "mgr_inv m []"
  shows "\<exists>m'. RemoveStream i m = Inr m' \<and> mgr_inv m' [] \<and> streams m' = (streams m)(i := None) \<and>
    (\<forall>b. streams m i \<noteq> Some b \<longrightarrow> objs m' b = objs m b)"
proof (cases "streams m i")
  case None
  then show ?thesis using assms by (auto simp: RemoveStream_def fun_upd_idem)
next
  case (Some a)
  then obtain st where st: "objs m a = Some st" using mgr_invD(3) [OF assms] by blast
  let ?m = "m\<lparr>streams := (streams m)(i := None), cumFrames := u64 (cumFrames m + framesReceived st),
    cumBytes := u64 (cumBytes m + bytesReceived st), cumBytesSent := u64 (cumBytesSent m + bytesSent st),
    cumReconnects := u64 (cumReconnects m + reconnects st), cumDrops := u64 (cumDrops m + GetTotalDrops (ringBuffer st))\<rparr>"
  have "mgr_inv ?m [a]" using unregister_ok [OF assms Some] unfolding mgr_inv_def by simp
  from stop_ok [OF this] obtain s' where "stop_obj a ?m = Inr (?m\<lparr>objs := (objs ?m)(a \<mapsto> s')\<rparr>)"
    "mgr_inv (?m\<lparr>objs := (objs ?m)(a \<mapsto> s')\<rparr>) []" by blast
  then show ?thesis using Some st by (auto simp: RemoveStream_def)
qed

lemma UpsertStream_ok:
  assumes "mgr_inv m []"
  shows "\<exists>m'. UpsertStream now i url rc lz tr ta dis m = Inr m' \<and> mgr_inv m' [] \<and>
    (if dis then streams m' i = None
     else \<exists>a s. streams m' i = Some a \<and> objs m' a = Some s \<and> MatchesConfig s url rc lz tr ta) \<and>
    (\<forall>j. j \<noteq> i \<longrightarrow> streams m' j = streams m j) \<and>
    (\<forall>j b. j \<noteq> i \<and> streams m j = Some b \<longrightarrow> objs m' b = objs m b)"
proof (cases "streams m i")
  case None
  have "b \<noteq> mgr_fresh m" if "streams m j = Some b" for j b using mgr_invD(3,4) [OF assms] that by (metis less_irrefl)
  then show ?thesis using assms None spawn_fresh [OF assms None, of now url rc lz tr ta] by (auto simp: UpsertStream_def)
next
  case (Some a)
  then obtain st where st: "objs m a = Some st" using mgr_invD(3) [OF assms] by blast
  have oth: "b \<noteq> a \<and> b \<noteq> mgr_fresh m" if "j \<noteq> i" "streams m j = Some b" for j b
    using one_id [OF assms Some, of j] mgr_invD(3,4) [OF assms] that by (metis less_irrefl)
  consider (off) "dis" | (same) "\<not> dis" "MatchesConfig st url rc lz tr ta" | (new) "\<not> dis" "\<not> MatchesConfig st url rc lz tr ta" by blast
  then show ?thesis
  proof cases
    case off
    from stop_ok [OF unregister_ok [OF assms Some]] off Some st show ?thesis
      using oth by (auto simp: UpsertStream_def)
  next
    case same
    then show ?thesis using assms Some st by (simp add: UpsertStream_def)
  next
    case new
    obtain m1 s where m1: "spawn now i url rc lz tr ta m = Inr m1" "mgr_inv m1 [a]" "streams m1 = (streams m)(i \<mapsto> mgr_fresh m)"
      "objs m1 = (objs m)(mgr_fresh m \<mapsto> s)" "MatchesConfig s url rc lz tr ta"
      using spawn_replace [OF assms Some, of now url rc lz tr ta] by blast
    have "a \<noteq> mgr_fresh m" using mgr_invD(4) [OF assms st] by simp
    then show ?thesis using new m1 Some st stop_ok [OF m1(2)] oth by (auto simp: UpsertStream_def)
  qed
qed

lemma SyncWithStorage_ok:
  assumes "mgr_inv m []" "distinct (map ID cams)" "dom (streams m) \<union> active_ids cams \<subseteq> set order"
  shows "\<exists>m'. SyncWithStorage now (Inr cams) order m = Inr (None, m') \<and> mgr_inv m' [] \<and>
    dom (streams m') = active_ids cams \<and> (\<forall>c\<in>set cams. \<not> Disabled c \<longrightarrow> served c m m')"
proof -
  obtain m1 ts1 where m1: "for_each (sync_camera now) cams (m, []) = Inr (m1, ts1)" "mgr_inv m1 ts1"
    "\<And>i. i \<notin> active_ids cams \<Longrightarrow> streams m1 i = streams m i" "\<And>c. c \<in> set cams \<Longrightarrow> \<not> Disabled c \<Longrightarrow> served c m m1"
    using sync_cameras_ok [OF assms(1,2), of now] by blast
  obtain m2 ts2 where m2: "fold (sync_prune (active_ids cams)) order (m1, ts1) = (m2, ts2)" "mgr_inv m2 ts2" "objs m2 = objs m1"
    "streams m2 = (\<lambda>i. if i \<in> set order \<and> i \<notin> active_ids cams then None else streams m1 i)"
    using sync_prune_ok [OF m1(2)] by blast
  obtain m3 where m3: "for_each stop_obj ts2 m2 = Inr m3" "mgr_inv m3 []" "streams m3 = streams m2"
    "\<And>b. b \<notin> set ts2 \<Longrightarrow> objs m3 b = objs m2 b"
    using stop_all_ok [OF m2(2)] by blast
  have "streams m3 i = None" if "i \<notin> active_ids cams" for i
    using that m1(3) [OF that] assms(3) m2(4) m3(3) by (cases "i \<in> dom (streams m)") auto
  moreover have "streams m3 i \<noteq> None" if i: "i \<in> active_ids cams" for i
  proof -
    obtain c where c: "c \<in> set cams" "\<not> Disabled c" "i = ID c" using i by (auto simp: active_ids_def)
    with m1(4) [OF c(1,2)] show ?thesis using i m2(4) m3(3) by (auto simp: served_def)
  qed
  ultimately have "i \<in> dom (streams m3) \<longleftrightarrow> i \<in> active_ids cams" for i by (metis domIff)
  then have "dom (streams m3) = active_ids cams" by (rule set_eqI)
  moreover have "served c m m3" if c: "c \<in> set cams" "\<not> Disabled c" for c
  proof -
    have act: "ID c \<in> active_ids cams" using c by (auto simp: active_ids_def)
    then have eq: "streams m3 (ID c) = streams m1 (ID c)" "streams m2 (ID c) = streams m1 (ID c)" using m2(4) m3(3) by simp_all
    obtain a s where a: "streams m1 (ID c) = Some a" "objs m1 a = Some s" "matches_cam s c"
      "\<forall>a0 s0. streams m (ID c) = Some a0 \<and> objs m a0 = Some s0 \<and> matches_cam s0 c \<longrightarrow> a = a0 \<and> s = s0"
      using m1(4) [OF c] unfolding served_def by blast
    have "objs m3 a = Some s" using m3(4) [of a] m2(3) mgr_invD(2) [OF m2(2), of "ID c" a] a eq by simp
    with a eq show ?thesis unfolding served_def by auto
  qed
  ultimately show ?thesis using m1(1) m2(1) m3(1,2) by (auto simp: SyncWithStorage_def)
qed

subsection \<open>Properties\<close>

text \<open>C17: Synchronising with the stored cameras. \<open>SyncWithStorage\<close> succeeds, and afterwards the registered
  streams are exactly those of the enabled cameras, each running with its camera's settings; a
  stream whose settings had not changed is the same, untouched stream; every other stream, whether
  replaced or pruned, has been stopped (the invariant says that a stream object which is not
  registered is stopped).\<close>

theorem sync_reconciles:
  assumes "mgr_inv m []" "distinct (map ID cams)" "dom (streams m) \<union> active_ids cams \<subseteq> set order"
  shows "\<exists>m'. SyncWithStorage now (Inr cams) order m = Inr (None, m') \<and> mgr_inv m' [] \<and>
    dom (streams m') = active_ids cams \<and> (\<forall>c\<in>set cams. \<not> Disabled c \<longrightarrow> served c m m')"
  using assms by (rule SyncWithStorage_ok)

lemma sync_reconciles_witness:
  "\<exists>m'. SyncWithStorage 1 (Inr [zero_camera\<lparr>ID := ''a''\<rparr>, zero_camera\<lparr>ID := ''b'', Disabled := True\<rparr>]) [''a''] (NewManager :: bytes Manager) =
     Inr (None, m') \<and> dom (streams m') = {''a''}"
proof -
  let ?cs = "[zero_camera\<lparr>ID := ''a''\<rparr>, zero_camera\<lparr>ID := ''b'', Disabled := True\<rparr>]"
  have act: "active_ids ?cs = {''a''}" by (simp add: active_ids_simps zero_camera_def)
  have d: "distinct (map ID ?cs)" "dom (streams (NewManager :: bytes Manager)) \<union> active_ids ?cs \<subseteq> set [''a'']"
    by (simp_all add: active_ids_simps zero_camera_def NewManager_def)
  show ?thesis using sync_reconciles [OF mgr_inv_New d, of 1] act by auto
qed


lemma received_ok:
  assumes "mgr_inv m ts" "objs m a = Some s"
  shows "mgr_inv (m\<lparr>objs := (objs m)(a \<mapsto> AddBytesReceived n s)\<rparr>) ts"
proof -
  have "stream_inv (AddBytesReceived n s)" using mgr_invD(5) [OF assms] by (simp add: stream_inv_def AddBytesReceived_def)
  moreover have "\<not> ctx_done s \<and> st_ID s = i" if "streams m i = Some a" for i using mgr_invD(3) [OF assms(1) that] assms(2) by auto
  ultimately show ?thesis using assms unfolding mgr_inv_def by (auto simp: AddBytesReceived_def split: if_splits)
qed


text \<open>Removing a stream keeps the lifetime totals: what the removed stream counted moves into the
  manager's own counters. Reconfiguring one does not: the replaced stream's counts are gone.\<close>

lemma GetStreams_cong:
  assumes "\<And>i a. i \<in> set order \<Longrightarrow> streams m i = Some a \<Longrightarrow> objs m' a = objs m a" "set order \<subseteq> dom (streams m)"
    "\<And>i. i \<in> set order \<Longrightarrow> streams m' i = streams m i"
  shows "GetStreams order m' = GetStreams order m"
  unfolding GetStreams_def using assms by (fastforce intro!: map_cong)

lemma RemoveStream_keeps_totals:
  assumes "mgr_inv m []" "i \<in> dom (streams m)" "i \<notin> set order" "set order \<subseteq> dom (streams m)" "RemoveStream i m = Inr m'"
  shows "GetCumulativeStats order m' = GetCumulativeStats (i # order) m"
proof -
  obtain a where a: "streams m i = Some a" using assms(2) by auto
  then obtain st where st: "objs m a = Some st" using mgr_invD(3) [OF assms(1)] by blast
  have o: "streams m' = (streams m)(i := None)" "\<And>b. b \<noteq> a \<Longrightarrow> objs m' b = objs m b"
    using RemoveStream_ok [OF assms(1), of i] assms(5) a by auto
  have "GetStreams order m' = GetStreams order m"
  proof (rule GetStreams_cong)
    fix j b assume j: "j \<in> set order" "streams m j = Some b"
    then have "b \<noteq> a" using one_id [OF assms(1) a, of j] assms(3) by auto
    then show "objs m' b = objs m b" by (rule o(2))
  next
    fix j assume "j \<in> set order"
    then show "streams m' j = streams m j" using o(1) assms(3) by auto
  qed (rule assms(4))
  moreover have "(cumFrames m', cumBytes m', cumBytesSent m', cumDrops m', cumReconnects m') =
      add_totals (cumFrames m, cumBytes m, cumBytesSent m, cumDrops m, cumReconnects m) (stream_totals st)"
    using assms(5) a st by (auto simp: RemoveStream_def stop_obj_def add_totals_def stream_totals_def Let_def GetStats_counters and_then_def split: option.splits sum.splits)
  moreover have "GetStreams (i # order) m = st # GetStreams order m" using a st by (simp add: GetStreams_def)
  ultimately show ?thesis by (simp add: GetCumulativeStats_def)
qed

lemma UpsertStream_forgets_counters:
  assumes "mgr_inv m []" "streams m i = Some a" "objs m a = Some st" "\<not> MatchesConfig st url rc lz tr ta"
    "UpsertStream now i url rc lz tr ta False m = Inr m'"
  shows "fst (GetCumulativeStats [i] m') = u64 (cumFrames m)"
proof -
  obtain s :: "'a Stream" where s: "NewStream now i url rc lz tr ta = Inr s" "framesReceived s = 0"
    using NewStream_ok [of now i url rc lz tr ta] by blast
  have "a \<noteq> mgr_fresh m" using mgr_invD(4) [OF assms(1,3)] by simp
  then have "cumFrames m' = cumFrames m" "streams m' i = Some (mgr_fresh m)" "objs m' (mgr_fresh m) = Some s"
    using assms(2-5) s(1) by (auto simp: UpsertStream_def spawn_def stop_obj_def and_then_def split: option.splits sum.splits)
  then show ?thesis using s(2) by (simp add: GetCumulativeStats_def GetStreams_def add_totals_def stream_totals_def Let_def GetStats_counters split: prod.splits)
qed

end
