(* ===== verification/Go_Hash.thy ===== *)
theory Go_Hash
  imports Prelude
begin

unbundle bit_operations_syntax

text \<open>
  The 32-bit FNV-1a hash (\<open>hash/fnv\<close>, and the same loop written out in the client tracker), on
  32-bit words: exclusive or with each byte, then a wrapping multiplication by the FNV prime.
\<close>

definition fnv32a_step :: "char \<Rightarrow> 32 word \<Rightarrow> 32 word" where
  "fnv32a_step c h = (h XOR of_nat (of_char c)) * 16777619"

definition fnv32a :: "string \<Rightarrow> 32 word" where
  "fnv32a s = fold fnv32a_step s 2166136261"

lemma fnv32a_append: "fnv32a (s @ t) = fold fnv32a_step t (fnv32a s)"
  by (simp add: fnv32a_def)

text \<open>The reduction of a hash to one of \<open>n\<close> shards.\<close>

definition shard_of :: "nat \<Rightarrow> 32 word \<Rightarrow> nat" where
  "shard_of n h = unat h mod n"

lemma shard_of_less [simp]: "0 < n \<Longrightarrow> shard_of n h < n"
  by (simp add: shard_of_def)

end
