(* ===== verification/EventBus.thy ===== *)
theory EventBus
  imports Go_Chan Go_Hash Config
begin

text \<open>
  The event bus (\<open>pkg/eventbus\<close>): publishing hashes the camera to a worker's channel without
  blocking, workers drain their channel and post each event to the webhooks whose circuit is
  closed, \<open>Stop\<close> closes the channels. Publishing, receiving and stopping are atomic steps of a
  transition system that also records what was accepted and what each worker took.

  Shown: in every interleaving a worker takes exactly the accepted events of its cameras, in
  the order they were published, none is lost by \<open>Stop\<close>, and nothing panics; a webhook with an
  open circuit is not contacted, and a failure opens the circuit of its address only.
\<close>

record 'd Event =
  ev_TimestampMs :: int
  ev_Topic :: string
  ev_CameraID :: string
  ev_Data :: 'd

record 'd EventBus =
  eb_webhooks :: "WebhookConfig list"
  eb_workers :: "'d Event chan list"
  circuitBreakers :: "string \<rightharpoonup> int"
  eb_stopped :: bool

definition New :: "WebhookConfig list \<Rightarrow> int \<Rightarrow> 'd EventBus" where
  "New webhooks numWorkers =
     (let n = (if numWorkers \<le> 0 then 4 else numWorkers) in
      \<lparr>eb_webhooks = webhooks, eb_workers = map (\<lambda>_. make_chan 1000) [0..<nat n], circuitBreakers = Map.empty, eb_stopped = False\<rparr>)"

definition event_key :: "'d Event \<Rightarrow> string" where
  "event_key e = (if ev_CameraID e = [] then ev_Topic e else ev_CameraID e)"

text \<open>The flag tells whether the event was enqueued.\<close>

definition Publish :: "int \<Rightarrow> string \<Rightarrow> string \<Rightarrow> 'd \<Rightarrow> 'd EventBus \<Rightarrow> ('d EventBus \<times> bool) outcome" where
  "Publish nowMs topic cameraID data b =
     (if eb_stopped b \<or> eb_webhooks b = [] then Inr (b, False)
      else
        let event = \<lparr>ev_TimestampMs = nowMs, ev_Topic = topic, ev_CameraID = cameraID, ev_Data = data\<rparr>;
            workerID = shard_of (length (eb_workers b)) (fnv32a (event_key event))
        in if workerID < length (eb_workers b)
           then and_then (offer event (eb_workers b ! workerID)) (\<lambda>(ch, sent). Inr (b\<lparr>eb_workers := (eb_workers b)[workerID := ch]\<rparr>, sent))
           else Inl IndexOutOfRange)"

fun close_all :: "'a chan list \<Rightarrow> 'a chan list outcome" where
  "close_all [] = Inr []"
| "close_all (c # cs) = and_then (close_chan c) (\<lambda>c'. and_then (close_all cs) (\<lambda>cs'. Inr (c' # cs')))"

text \<open>\<open>Stop\<close> runs once; waiting for the workers is their draining in later steps.\<close>

definition Bus_Stop :: "'d EventBus \<Rightarrow> 'd EventBus outcome" where
  "Bus_Stop b =
     (if eb_stopped b then Inr b
      else and_then (close_all (eb_workers b)) (\<lambda>ws. Inr (b\<lparr>eb_stopped := True, eb_workers := ws\<rparr>)))"

subsection \<open>Delivery\<close>

definition matchesTopic :: "string list option \<Rightarrow> string \<Rightarrow> bool" where
  "matchesTopic allowedTopics topic =
     (case allowedTopics of None \<Rightarrow> True | Some ts \<Rightarrow> ts = [] \<or> (\<exists>t\<in>set ts. t = ''*'' \<or> t = topic))"

record http_request =
  hr_URL :: string
  hr_Header :: "(string \<times> string) list"
  hr_Body :: bytes

text \<open>\<open>client_Do\<close> answers the status of the response, or nothing on a transport error.\<close>

definition sendWebhook :: "(string \<Rightarrow> bytes \<Rightarrow> bytes) \<Rightarrow> (http_request \<Rightarrow> nat option) \<Rightarrow> WebhookConfig \<Rightarrow> bytes \<Rightarrow> bool" where
  "sendWebhook hmac client_Do wh payload =
     (let header = (''Content-Type'', ''application/json'') #
            (if wh_Secret wh \<noteq> [] then [(''X-Signature'', HexEncode (hmac (wh_Secret wh) payload))] else [])
      in case client_Do \<lparr>hr_URL = wh_URL wh, hr_Header = header, hr_Body = payload\<rparr> of
           None \<Rightarrow> False
         | Some statusCode \<Rightarrow> \<not> (statusCode < 200 \<or> 300 \<le> statusCode))"

text \<open>One webhook of the loop: \<open>now\<close> is the time of the circuit check, \<open>later\<close> that of a failure. The
  second component collects the addresses contacted.\<close>

definition try_webhook :: "(WebhookConfig \<Rightarrow> bool) \<Rightarrow> int \<Rightarrow> int \<Rightarrow> string \<Rightarrow> WebhookConfig \<Rightarrow>
    (string \<rightharpoonup> int) \<times> string list \<Rightarrow> (string \<rightharpoonup> int) \<times> string list" where
  "try_webhook send now later topic wh = (\<lambda>(cb, sent).
     if \<not> matchesTopic (wh_Topics wh) topic then (cb, sent)
     else
       let isOpen = (cb (wh_URL wh) \<noteq> None) in
       if (case cb (wh_URL wh) of Some unlockTime \<Rightarrow> now < unlockTime | None \<Rightarrow> False) then (cb, sent)
       else if \<not> send wh then (cb(wh_URL wh \<mapsto> later + 30 * second), sent @ [wh_URL wh])
       else if isOpen then (cb(wh_URL wh := None), sent @ [wh_URL wh])
       else (cb, sent @ [wh_URL wh]))"

text \<open>The event as JSON (\<open>enc\<close> encodes the payload, \<open>None\<close> for nil data, which is omitted).\<close>

definition event_json :: "('d \<Rightarrow> json option) \<Rightarrow> 'd Event \<Rightarrow> json" where
  "event_json enc e =
     JObj ([(''timestamp_ms'', JInt (ev_TimestampMs e)), (''topic'', JStr (ev_Topic e))] @
           (if ev_CameraID e = [] then [] else [(''camera_id'', JStr (ev_CameraID e))]) @
           (case enc (ev_Data e) of None \<Rightarrow> [] | Some j \<Rightarrow> [(''data'', j)]))"

definition handle_event ::
  "(string \<Rightarrow> bytes \<Rightarrow> bytes) \<Rightarrow> (json \<Rightarrow> bytes) \<Rightarrow> ('d \<Rightarrow> json option) \<Rightarrow> (http_request \<Rightarrow> nat option) \<Rightarrow> int \<Rightarrow> int \<Rightarrow>
   'd Event \<Rightarrow> 'd EventBus \<Rightarrow> 'd EventBus \<times> string list" where
  "handle_event hmac print enc client_Do now later e b =
     (let payload = print (event_json enc e) in
      case fold (try_webhook (\<lambda>wh. sendWebhook hmac client_Do wh payload) now later (ev_Topic e)) (eb_webhooks b) (circuitBreakers b, []) of
        (cb, sent) \<Rightarrow> (b\<lparr>circuitBreakers := cb\<rparr>, sent))"

subsection \<open>The transition system\<close>

record 'd bus_world =
  bus :: "'d EventBus"
  accepted :: "'d Event list"
  taken :: "nat \<Rightarrow> 'd Event list"

inductive bus_step :: "'d bus_world \<Rightarrow> 'd bus_world \<Rightarrow> bool" where
  publish: "Publish nowMs topic cam d (bus w) = Inr (b', sent) \<Longrightarrow>
    bus_step w (w\<lparr>bus := b', accepted := accepted w @
      (if sent then [\<lparr>ev_TimestampMs = nowMs, ev_Topic = topic, ev_CameraID = cam, ev_Data = d\<rparr>] else [])\<rparr>)"
| take: "i < length (eb_workers (bus w)) \<Longrightarrow> recv (eb_workers (bus w) ! i) = Received e ch \<Longrightarrow>
    handle_event hmac print enc client_Do now later e (bus w\<lparr>eb_workers := (eb_workers (bus w))[i := ch]\<rparr>) = (b', sent) \<Longrightarrow>
    bus_step w (w\<lparr>bus := b', taken := (taken w)(i := taken w i @ [e])\<rparr>)"
| stop: "Bus_Stop (bus w) = Inr b' \<Longrightarrow> bus_step w (w\<lparr>bus := b'\<rparr>)"

inductive bus_reach :: "WebhookConfig list \<Rightarrow> int \<Rightarrow> 'd bus_world \<Rightarrow> bool" for whs n where
  start: "bus_reach whs n \<lparr>bus = New whs n, accepted = [], taken = (\<lambda>_. [])\<rparr>"
| step: "bus_reach whs n w \<Longrightarrow> bus_step w w' \<Longrightarrow> bus_reach whs n w'"

definition worker_of :: "'d EventBus \<Rightarrow> string \<Rightarrow> nat" where
  "worker_of b k = shard_of (length (eb_workers b)) (fnv32a k)"

definition circuit_open :: "(string \<rightharpoonup> int) \<Rightarrow> int \<Rightarrow> string \<Rightarrow> bool" where
  "circuit_open cb now u \<longleftrightarrow> (case cb u of Some unlockTime \<Rightarrow> now < unlockTime | None \<Rightarrow> False)"

definition bus_inv :: "'d bus_world \<Rightarrow> bool" where
  "bus_inv w \<longleftrightarrow> eb_workers (bus w) \<noteq> [] \<and>
     (\<forall>i<length (eb_workers (bus w)).
        ch_closed (eb_workers (bus w) ! i) = eb_stopped (bus w) \<and>
        taken w i @ ch_buf (eb_workers (bus w) ! i) = filter (\<lambda>e. worker_of (bus w) (event_key e) = i) (accepted w))"

definition queued :: "'d bus_world \<Rightarrow> nat" where
  "queued w = sum_list (map (\<lambda>c. length (ch_buf c)) (eb_workers (bus w)))"

lemma worker_of_less: "eb_workers b \<noteq> [] \<Longrightarrow> worker_of b k < length (eb_workers b)"
  by (simp add: worker_of_def)

lemma worker_of_update [simp]: "worker_of (b\<lparr>eb_workers := (eb_workers b)[i := c]\<rparr>) k = worker_of b k"
  by (simp add: worker_of_def)

lemma close_all_open:
  "\<forall>c\<in>set cs. \<not> ch_closed c \<Longrightarrow> close_all cs = Inr (map (\<lambda>c. c\<lparr>ch_closed := True\<rparr>) cs)"
  by (induction cs) (simp_all add: close_chan_def)

lemma Publish_inv:
  assumes "bus_inv w"
  shows "\<exists>b' sent. Publish nowMs topic cam d (bus w) = Inr (b', sent) \<and>
    bus_inv (w\<lparr>bus := b', accepted := accepted w @
      (if sent then [\<lparr>ev_TimestampMs = nowMs, ev_Topic = topic, ev_CameraID = cam, ev_Data = d\<rparr>] else [])\<rparr>)"
proof (cases "eb_stopped (bus w) \<or> eb_webhooks (bus w) = []")
  case True
  then show ?thesis using assms by (auto simp: Publish_def bus_inv_def)
next
  case False
  let ?e = "\<lparr>ev_TimestampMs = nowMs, ev_Topic = topic, ev_CameraID = cam, ev_Data = d\<rparr>"
  let ?ws = "eb_workers (bus w)"
  define i where "i = worker_of (bus w) (event_key ?e)"
  have i: "i < length ?ws" "\<not> ch_closed (?ws ! i)"
    using assms False worker_of_less unfolding i_def bus_inv_def by auto
  obtain ch sent where o: "offer ?e (?ws ! i) = Inr (ch, sent)" using chan_q.off_total [OF i(2), of ?e] by blast
  have p: "Publish nowMs topic cam d (bus w) = Inr ((bus w)\<lparr>eb_workers := ?ws[i := ch]\<rparr>, sent)"
    using False i(1) o by (simp add: Publish_def Let_def i_def worker_of_def)
  from o have "bus_inv (w\<lparr>bus := (bus w)\<lparr>eb_workers := ?ws[i := ch]\<rparr>, accepted := accepted w @ (if sent then [?e] else [])\<rparr>)"
  proof (cases rule: offer_cases)
    case accepted
    then show ?thesis using assms i(1) unfolding bus_inv_def
      by (auto simp: nth_list_update i_def [symmetric] simp flip: append_assoc)
  next
    case dropped
    then show ?thesis using assms i(1) unfolding bus_inv_def by (auto simp: nth_list_update)
  qed
  with p show ?thesis by blast
qed

lemma Bus_Stop_inv:
  assumes "bus_inv w"
  shows "\<exists>b'. Bus_Stop (bus w) = Inr b' \<and> bus_inv (w\<lparr>bus := b'\<rparr>)"
proof (cases "eb_stopped (bus w)")
  case False
  then have "\<forall>c\<in>set (eb_workers (bus w)). \<not> ch_closed c" using assms by (auto simp: bus_inv_def in_set_conv_nth)
  then show ?thesis using False assms by (auto simp: Bus_Stop_def close_all_open bus_inv_def worker_of_def)
qed (use assms in \<open>auto simp: Bus_Stop_def\<close>)

lemma handle_event_workers:
  "handle_event hmac print enc client_Do now later e b = (b', sent) \<Longrightarrow>
   eb_workers b' = eb_workers b \<and> eb_stopped b' = eb_stopped b"
  by (auto simp: handle_event_def Let_def split: prod.splits)

lemma bus_step_inv: "bus_step w w' \<Longrightarrow> bus_inv w \<Longrightarrow> bus_inv w'"
proof (induction rule: bus_step.induct)
  case (publish nowMs topic cam d w b' sent)
  then show ?case using Publish_inv [of w nowMs topic cam d] by auto
next
  case (take i w e ch hmac print enc client_Do now later b' sent)
  have "ch_buf (eb_workers (bus w) ! i) = e # ch_buf ch" "ch_closed ch = ch_closed (eb_workers (bus w) ! i)"
    using take.hyps(2) by (auto simp: recv_def split: list.splits if_splits)
  then show ?case
    using take.prems take.hyps(1) handle_event_workers [OF take.hyps(3)]
    unfolding bus_inv_def by (auto simp: nth_list_update worker_of_def)
next
  case (stop w b')
  then show ?case using Bus_Stop_inv [of w] by auto
qed

lemma bus_reach_inv: "bus_reach whs n w \<Longrightarrow> bus_inv w"
proof (induction rule: bus_reach.induct)
  case start
  show ?case by (auto simp: bus_inv_def New_def)
qed (rule bus_step_inv)

lemma filter_key_camera:
  assumes "cam \<noteq> []"
  shows "filter (\<lambda>e. ev_CameraID e = cam) (filter (\<lambda>e. worker_of b (event_key e) = i) es) =
    (if worker_of b cam = i then filter (\<lambda>e. ev_CameraID e = cam) es else [])"
  using assms by (induction es) (auto simp: event_key_def)

lemma try_webhook_cases:
  "try_webhook send now later topic wh (cb, sent) =
     (if matchesTopic (wh_Topics wh) topic \<and> \<not> circuit_open cb now (wh_URL wh)
      then (cb(wh_URL wh := (if send wh then None else Some (later + 30 * second))), sent @ [wh_URL wh]) else (cb, sent))"
  by (auto simp: try_webhook_def circuit_open_def Let_def fun_upd_idem split: option.splits)

lemma deliver_fold:
  assumes "fold (try_webhook send now later topic) whs (cb, sent) = (cb', sent')"
  shows "\<exists>new. sent' = sent @ new \<and> (circuit_open cb now u \<longrightarrow> u \<notin> set new) \<and> (u \<notin> set new \<longrightarrow> cb' u = cb u) \<and>
    (\<not> circuit_open cb now u \<longrightarrow> (u \<in> set new \<longleftrightarrow> (\<exists>wh\<in>set whs. wh_URL wh = u \<and> matchesTopic (wh_Topics wh) topic))) \<and>
    (u \<in> set new \<longrightarrow> now \<le> later \<longrightarrow> (\<forall>wh\<in>set whs. wh_URL wh = u \<longrightarrow> \<not> send wh) \<longrightarrow> cb' u = Some (later + 30 * second)) \<and>
    (u \<in> set new \<longrightarrow> (\<forall>wh\<in>set whs. wh_URL wh = u \<longrightarrow> send wh) \<longrightarrow> cb' u = None)"
  using assms
proof (induction whs arbitrary: cb sent)
  case (Cons wh whs)
  show ?case
  proof (cases "matchesTopic (wh_Topics wh) topic \<and> \<not> circuit_open cb now (wh_URL wh)")
    case False
    then have "try_webhook send now later topic wh (cb, sent) = (cb, sent)" unfolding try_webhook_cases by (rule if_not_P)
    then have f: "fold (try_webhook send now later topic) whs (cb, sent) = (cb', sent')" using Cons.prems by simp
    from Cons.IH [OF f] False show ?thesis by auto
  next
    case True
    let ?cb = "cb(wh_URL wh := (if send wh then None else Some (later + 30 * second)))"
    have "try_webhook send now later topic wh (cb, sent) = (?cb, sent @ [wh_URL wh])"
      unfolding try_webhook_cases using True by (rule if_P)
    then have f: "fold (try_webhook send now later topic) whs (?cb, sent @ [wh_URL wh]) = (cb', sent')" using Cons.prems by simp
    from Cons.IH [OF f] obtain new where new: "sent' = (sent @ [wh_URL wh]) @ new" "circuit_open ?cb now u \<longrightarrow> u \<notin> set new"
      "u \<notin> set new \<longrightarrow> cb' u = ?cb u"
      "\<not> circuit_open ?cb now u \<longrightarrow> (u \<in> set new \<longleftrightarrow> (\<exists>wh\<in>set whs. wh_URL wh = u \<and> matchesTopic (wh_Topics wh) topic))"
      "u \<in> set new \<longrightarrow> now \<le> later \<longrightarrow> (\<forall>wh\<in>set whs. wh_URL wh = u \<longrightarrow> \<not> send wh) \<longrightarrow> cb' u = Some (later + 30 * second)"
      "u \<in> set new \<longrightarrow> (\<forall>wh\<in>set whs. wh_URL wh = u \<longrightarrow> send wh) \<longrightarrow> cb' u = None" by blast
    show ?thesis
    proof (cases "u = wh_URL wh")
      case u: True
      show ?thesis using new u True by (intro exI [of _ "wh_URL wh # new"]) auto
    next
      case False
      then have "circuit_open ?cb now u = circuit_open cb now u" "?cb u = cb u" by (simp_all add: circuit_open_def)
      then show ?thesis using new False by (intro exI [of _ "wh_URL wh # new"]) auto
    qed
  qed
qed simp

subsection \<open>Properties\<close>

text \<open>C29: Per-camera order. In every interleaving of publishers, workers and \<open>Stop\<close>, publishing and stopping
  return without panic; the events of a camera are taken by one worker only, which has taken a
  prefix of those accepted, in the order of publication; and a worker that finds its channel
  closed has taken all of them, so stopping loses nothing.\<close>

theorem events_in_order:
  assumes "bus_reach whs n w" "cam \<noteq> []" "i < length (eb_workers (bus w))"
  shows "filter (\<lambda>e. ev_CameraID e = cam) (taken w i @ ch_buf (eb_workers (bus w) ! i)) =
      (if worker_of (bus w) cam = i then filter (\<lambda>e. ev_CameraID e = cam) (accepted w) else []) \<and>
    (recv (eb_workers (bus w) ! i) = RecvClosed \<longrightarrow>
      taken w i = filter (\<lambda>e. worker_of (bus w) (event_key e) = i) (accepted w)) \<and>
    is_ok (Publish nowMs topic cam d (bus w)) \<and> is_ok (Bus_Stop (bus w))"
proof -
  note inv = bus_reach_inv [OF assms(1)]
  then have s: "taken w i @ ch_buf (eb_workers (bus w) ! i) = filter (\<lambda>e. worker_of (bus w) (event_key e) = i) (accepted w)"
    using assms(3) by (simp add: bus_inv_def)
  show ?thesis
    unfolding s filter_key_camera [OF assms(2)] is_ok_def
    using s Publish_inv [OF inv, of nowMs topic cam d] Bus_Stop_inv [OF inv] by (auto simp: recv_closed_iff)
qed

lemma events_in_order_witness:
  "\<exists>w. bus_reach [\<lparr>wh_URL = ''u'', wh_Topics = None, wh_Secret = []\<rparr>] 1 (w :: nat bus_world) \<and>
     map ev_Data (filter (\<lambda>e. ev_CameraID e = ''a'') (taken w 0 @ ch_buf (eb_workers (bus w) ! 0))) = [7]"
proof -
  let ?whs = "[\<lparr>wh_URL = ''u'', wh_Topics = None, wh_Secret = []\<rparr>]"
  let ?w = "\<lparr>bus = New ?whs 1, accepted = [], taken = (\<lambda>_. [])\<rparr> :: nat bus_world"
  let ?e = "\<lparr>ev_TimestampMs = 1, ev_Topic = ''t'', ev_CameraID = ''a'', ev_Data = 7 :: nat\<rparr>"
  have p: "Publish 1 ''t'' ''a'' 7 (New ?whs 1) = Inr ((New ?whs 1)\<lparr>eb_workers := [(make_chan 1000)\<lparr>ch_buf := [?e]\<rparr>]\<rparr>, True)"
    by (simp add: Publish_def New_def Let_def shard_of_def offer_def)
  define w where "w = ?w\<lparr>bus := (New ?whs 1)\<lparr>eb_workers := [(make_chan 1000)\<lparr>ch_buf := [?e]\<rparr>]\<rparr>, accepted := [?e]\<rparr>"
  have "bus_step ?w w" using bus_step.publish [of 1 "''t''" "''a''" 7 ?w] p by (simp add: w_def)
  then have r: "bus_reach ?whs 1 w" by (rule bus_reach.step [OF bus_reach.start])
  have l: "0 < length (eb_workers (bus w))" "worker_of (bus w) ''a'' = 0" "accepted w = [?e]" by (simp_all add: w_def worker_of_def shard_of_def)
  from events_in_order [OF r _ l(1), of "''a''"] l(2,3) r show ?thesis by (intro exI [of _ w]) simp
qed

text \<open>C30: Circuit breakers. Handling an event contacts a subscribed webhook address exactly if its circuit is not
  open; an address that fails has its circuit opened for thirty seconds, one that answers has it
  closed, and no other address is affected.\<close>

theorem circuit_breaker:
  assumes "handle_event hmac print enc client_Do now later e b = (b', sent)" "now \<le> later"
    and "\<forall>wh\<in>set (eb_webhooks b). wh_URL wh = u \<longrightarrow> sendWebhook hmac client_Do wh (print (event_json enc e)) = answers"
  shows "(u \<in> set sent \<longleftrightarrow> \<not> circuit_open (circuitBreakers b) now u \<and>
      (\<exists>wh\<in>set (eb_webhooks b). wh_URL wh = u \<and> matchesTopic (wh_Topics wh) (ev_Topic e))) \<and>
    circuitBreakers b' u = (if u \<notin> set sent then circuitBreakers b u else if answers then None else Some (later + 30 * second))"
proof -
  have f: "fold (try_webhook (\<lambda>wh. sendWebhook hmac client_Do wh (print (event_json enc e))) now later (ev_Topic e)) (eb_webhooks b)
      (circuitBreakers b, []) = (circuitBreakers b', sent)"
    using assms(1) by (auto simp: handle_event_def Let_def split: prod.splits)
  from deliver_fold [OF f, of u] show ?thesis using assms(2,3) by (cases answers) auto
qed

lemma circuit_breaker_witness:
  "\<exists>b' :: nat EventBus. handle_event (\<lambda>_ _. []) (\<lambda>_. []) (\<lambda>_. None) (\<lambda>_. Some 503) 5 6
     \<lparr>ev_TimestampMs = 1, ev_Topic = ''t'', ev_CameraID = ''a'', ev_Data = 7\<rparr>
     (New [\<lparr>wh_URL = ''u'', wh_Topics = None, wh_Secret = []\<rparr>] 1) = (b', [''u'']) \<and> circuitBreakers b' ''u'' = Some 30000000006"
proof -
  let ?b = "New [\<lparr>wh_URL = ''u'', wh_Topics = None, wh_Secret = []\<rparr>] 1 :: nat EventBus"
  let ?e = "\<lparr>ev_TimestampMs = 1, ev_Topic = ''t'', ev_CameraID = ''a'', ev_Data = 7 :: nat\<rparr>"
  obtain b' where h: "handle_event (\<lambda>_ _. []) (\<lambda>_. []) (\<lambda>_. None) (\<lambda>_. Some 503) 5 6 ?e ?b = (b', [''u''])"
    by (simp add: handle_event_def New_def try_webhook_cases matchesTopic_def circuit_open_def)
  from circuit_breaker [OF h, of "''u''" False] h show ?thesis by (auto simp: New_def sendWebhook_def Let_def)
qed

lemma sum_list_update_less:
  "i < length xs \<Longrightarrow> f x < f (xs ! i) \<Longrightarrow> sum_list (map f (xs[i := x])) < (sum_list (map f xs) :: nat)"
proof (induction xs arbitrary: i)
  case (Cons y ys)
  then show ?case by (cases i) auto
qed simp

lemma queued_pos: "queued w > 0 \<longleftrightarrow> (\<exists>c\<in>set (eb_workers (bus w)). ch_buf c \<noteq> [])"
proof -
  have "0 < sum_list (map (\<lambda>c. length (ch_buf c)) cs) \<longleftrightarrow> (\<exists>c\<in>set cs. ch_buf c \<noteq> [])" for cs :: "'a Event chan list"
    by (induction cs) auto
  then show ?thesis by (simp add: queued_def)
qed

text \<open>C31: Stopping ends. Once the bus is stopped, every step either changes nothing or takes one of the finitely
  many queued events off its queue, so the workers come to rest after at most that many steps;
  and they rest exactly when each of them finds its channel closed and returns, which is what
  \<open>Stop\<close> waits for.\<close>

theorem stop_terminates:
  assumes "bus_reach whs n w" "eb_stopped (bus w)"
  shows "(bus_step w w' \<longrightarrow> eb_stopped (bus w') \<and> (w' = w \<or> queued w' < queued w)) \<and>
    (queued w = 0 \<longleftrightarrow> (\<forall>c\<in>set (eb_workers (bus w)). recv c = RecvClosed)) \<and>
    (queued w > 0 \<longrightarrow> (\<exists>w'. bus_step w w' \<and> queued w' < queued w))"
proof -
  note inv = bus_reach_inv [OF assms(1)]
  have closed: "ch_closed c" if "c \<in> set (eb_workers (bus w))" for c
    using inv that assms(2) by (auto simp: bus_inv_def in_set_conv_nth)
  have tk: "queued v < queued w"
    if "i < length (eb_workers (bus w))" "recv (eb_workers (bus w) ! i) = Received e ch" "eb_workers (bus v) = (eb_workers (bus w))[i := ch]"
    for i e ch and v :: "'a bus_world"
    using that sum_list_update_less [of i "eb_workers (bus w)" "\<lambda>c. length (ch_buf c)" ch]
    by (auto simp: queued_def recv_def split: list.splits if_splits)
  have dec: "eb_stopped (bus w') \<and> (w' = w \<or> queued w' < queued w)" if "bus_step w w'"
    using that
  proof cases
    case (publish nowMs topic cam d b' sent)
    then show ?thesis using assms(2) by (simp add: Publish_def)
  next
    case (take i e ch hmac print enc client_Do now later b' sent)
    then show ?thesis using tk [of i e ch w'] handle_event_workers [OF take(4)] assms(2) by simp
  next
    case (stop b')
    then show ?thesis using assms(2) by (simp add: Bus_Stop_def)
  qed
  have "\<exists>w'. bus_step w w' \<and> queued w' < queued w" if q: "queued w > 0"
  proof -
    from q obtain c where "c \<in> set (eb_workers (bus w))" "ch_buf c \<noteq> []" unfolding queued_pos by blast
    then obtain i where i: "i < length (eb_workers (bus w))" "ch_buf (eb_workers (bus w) ! i) \<noteq> []" by (auto simp: in_set_conv_nth)
    then obtain e ch where r: "recv (eb_workers (bus w) ! i) = Received e ch"
      by (cases "ch_buf (eb_workers (bus w) ! i)") (simp_all add: recv_def)
    obtain b' sent where h: "handle_event (\<lambda>_ _. []) (\<lambda>_. []) (\<lambda>_. None) (\<lambda>_. None) 0 0 e (bus w\<lparr>eb_workers := (eb_workers (bus w))[i := ch]\<rparr>) = (b', sent)"
      by force
    show ?thesis using bus_step.take [OF i(1) r h] tk [OF i(1) r] handle_event_workers [OF h] by fastforce
  qed
  moreover have "queued w = 0 \<longleftrightarrow> (\<forall>c\<in>set (eb_workers (bus w)). recv c = RecvClosed)"
    using closed queued_pos [of w] by (auto simp: recv_closed_iff)
  ultimately show ?thesis using dec by blast
qed

lemma stop_terminates_witness:
  "\<exists>w. bus_reach [] 1 (w :: nat bus_world) \<and> eb_stopped (bus w) \<and> queued w = 0 \<and> (\<forall>c\<in>set (eb_workers (bus w)). recv c = RecvClosed)"
proof -
  let ?w = "\<lparr>bus = New [] 1, accepted = [], taken = (\<lambda>_. [])\<rparr> :: nat bus_world"
  let ?b = "(New [] 1)\<lparr>eb_stopped := True, eb_workers := [(make_chan 1000)\<lparr>ch_closed := True\<rparr>]\<rparr> :: nat EventBus"
  have "Bus_Stop (bus ?w) = Inr ?b" by (simp add: Bus_Stop_def New_def close_chan_def)
  then have r: "bus_reach [] 1 (?w\<lparr>bus := ?b\<rparr>)" by (rule bus_reach.step [OF bus_reach.start bus_step.stop])
  moreover have q: "eb_stopped (bus (?w\<lparr>bus := ?b\<rparr>))" "queued (?w\<lparr>bus := ?b\<rparr>) = 0" by (simp_all add: queued_def)
  ultimately show ?thesis using stop_terminates [OF r q(1)] by blast
qed

end
