(* ===== verification/Auth.thy ===== *)
theory Auth
  imports Storage Go_Path
begin

text \<open>
  Authentication (\<open>pkg/auth/local.go\<close>): the first administrator, login, the access-token and
  stream-token checks and the role check. A handler or middleware is a function of the request's
  parts, the clock (in nanoseconds) and the store; a middleware aborts with a reply or passes
  the context on. The JWT and bcrypt libraries are parameters: \<open>jwt_ok\<close> and \<open>bcrypt_ok\<close> state
  that a signed token parses back to its claims exactly while its time claims allow, and that a
  password matches its hash.

  Shown: what a session token and a stream token give access to and for how long, and that after
  the first start there is an administrator who can log in.
\<close>

subsection \<open>Library interfaces\<close>

type_synonym claims = "string \<rightharpoonup> json"

record jwt_lib =
  SignedString :: "claims \<Rightarrow> string \<Rightarrow> string option"
  jwt_Parse :: "int \<Rightarrow> string \<Rightarrow> string \<Rightarrow> claims option" \<comment> \<open>clock, token, HMAC key\<close>

record bcrypt_lib =
  GenerateFromPassword :: "bytes \<Rightarrow> string \<Rightarrow> string option" \<comment> \<open>salt, password\<close>
  CompareHashAndPassword :: "string \<Rightarrow> string \<Rightarrow> bool"

definition in_time :: "int \<Rightarrow> claims \<Rightarrow> bool" where
  "in_time now c \<longleftrightarrow>
     (case c ''exp'' of Some (JInt e) \<Rightarrow> now < e * 10 ^ 9 | _ \<Rightarrow> True) \<and>
     (case c ''nbf'' of Some (JInt n) \<Rightarrow> n * 10 ^ 9 \<le> now | _ \<Rightarrow> True)"

definition jwt_ok :: "jwt_lib \<Rightarrow> bool" where
  "jwt_ok J \<longleftrightarrow> (\<forall>c k t. SignedString J c k = Some t \<longrightarrow>
     t \<noteq> [] \<and> (\<forall>now. jwt_Parse J now t k = (if in_time now c then Some c else None)))"

definition bcrypt_ok :: "bcrypt_lib \<Rightarrow> bool" where
  "bcrypt_ok C \<longleftrightarrow> (\<forall>salt p h. GenerateFromPassword C salt p = Some h \<longrightarrow> CompareHashAndPassword C h p)"

subsection \<open>Requests and replies\<close>

type_synonym reply = "nat \<times> json"

definition err_reply :: "nat \<Rightarrow> string \<Rightarrow> reply" where
  "err_reply code msg = (code, JObj [(''error'', JStr msg)])"

text \<open>The values a middleware sets for the handlers after it.\<close>

record gin_ctx =
  ctx_username :: "string option"
  ctx_role :: "string option"

definition no_ctx :: gin_ctx where
  "no_ctx = \<lparr>ctx_username = None, ctx_role = None\<rparr>"

definition unix :: "int \<Rightarrow> int" where
  "unix now = now div 10 ^ 9"

definition claim_str :: "claims \<Rightarrow> string \<Rightarrow> string" where
  "claim_str c k = (case c k of Some (JStr s) \<Rightarrow> s | _ \<Rightarrow> [])"

definition TrimPrefix :: "string \<Rightarrow> string \<Rightarrow> string" where
  "TrimPrefix s p = (if HasPrefix s p then drop (length p) s else s)"

subsection \<open>The first administrator\<close>

definition charset :: string where
  "charset = ''abcdefghijklmnopqrstuvwxyzABCDEFGHIJKLMNOPQRSTUVWXYZ0123456789!@#$%^&*''"

definition generateRandomPassword :: "bytes \<Rightarrow> string" where
  "generateRandomPassword rnd = map (\<lambda>b. charset ! (unat b mod length charset)) rnd"

text \<open>\<open>rnd\<close> are the 16 random bytes read, \<open>salt\<close> those of the hash; the second result is the password
  printed, if any.\<close>

definition NewLocalAuthenticator ::
  "bcrypt_lib \<Rightarrow> ('d, 't) badger_ops \<Rightarrow> bytes \<Rightarrow> bytes \<Rightarrow> 'd Storage option \<Rightarrow> 'd Storage option \<times> string option" where
  "NewLocalAuthenticator C B rnd salt store =
     (case store of
        None \<Rightarrow> (None, None)
      | Some s \<Rightarrow>
          if \<not> HasUsers B s then
            let password = generateRandomPassword rnd in
            (case GenerateFromPassword C salt password of
               None \<Rightarrow> (Some s, None)
             | Some h \<Rightarrow>
                 (case SaveUser B \<lparr>Username = ''admin'', PasswordHash = h, Role = RoleAdmin\<rparr> s of
                    (None, s') \<Rightarrow> (Some s', Some password)
                  | (Some _, s') \<Rightarrow> (Some s', None)))
          else (Some s, None))"

subsection \<open>Login\<close>

record Request =
  rq_Username :: string
  rq_Password :: string

definition request_fields :: "Request field list" where
  "request_fields =
     [(''username'', fld d_str rq_Username (\<lambda>v. rq_Username_update (\<lambda>_. v))),
      (''password'', fld d_str rq_Password (\<lambda>v. rq_Password_update (\<lambda>_. v)))]"

text \<open>The body as a syntax tree, \<open>None\<close> when it is not JSON.\<close>

definition bind_json :: "'a field list \<Rightarrow> 'a \<Rightarrow> json option \<Rightarrow> 'a option" where
  "bind_json fs x0 body = (case body of None \<Rightarrow> None | Some j \<Rightarrow> d_struct fs x0 j)"

definition session_claims :: "User \<Rightarrow> int \<Rightarrow> claims" where
  "session_claims user now =
     [''username'' \<mapsto> JStr (Username user), ''role'' \<mapsto> JStr (Role user), ''exp'' \<mapsto> JInt (unix (now + 3600 * 10 ^ 9))]"

definition Login ::
  "bcrypt_lib \<Rightarrow> jwt_lib \<Rightarrow> ('d, 't) badger_ops \<Rightarrow> string \<Rightarrow> int \<Rightarrow> 'd Storage \<Rightarrow> json option \<Rightarrow> reply" where
  "Login C J B secret now store body =
     (case bind_json request_fields \<lparr>rq_Username = [], rq_Password = []\<rparr> body of
        None \<Rightarrow> err_reply 400 ''Invalid input''
      | Some req \<Rightarrow>
          if rq_Username req = [] then err_reply 401 ''Invalid credentials''
          else (case GetUser B (rq_Username req) store of
                  Inl _ \<Rightarrow> err_reply 401 ''Invalid credentials''
                | Inr user \<Rightarrow>
                    if \<not> CompareHashAndPassword C (PasswordHash user) (rq_Password req)
                    then err_reply 401 ''Invalid credentials''
                    else (case SignedString J (session_claims user now) secret of
                            None \<Rightarrow> err_reply 500 ''Failed to generate token''
                          | Some t \<Rightarrow> (200, JObj [(''token'', JStr t)]))))"

subsection \<open>Middleware\<close>

definition Middleware ::
  "jwt_lib \<Rightarrow> ('d, 't) badger_ops \<Rightarrow> string \<Rightarrow> int \<Rightarrow> 'd Storage option \<Rightarrow> string \<Rightarrow> gin_ctx \<Rightarrow> reply + gin_ctx" where
  "Middleware J B secret now store authHeader ctx =
     (if authHeader = [] \<or> \<not> HasPrefix authHeader ''Bearer '' then Inl (err_reply 401 ''Unauthorized'')
      else
        let tokenString = TrimPrefix authHeader ''Bearer '' in
        if tokenString = [] then Inl (err_reply 401 ''Unauthorized'')
        else (case jwt_Parse J now tokenString secret of
                None \<Rightarrow> Inl (err_reply 401 ''Invalid or expired token'')
              | Some claims \<Rightarrow>
                  if claims ''stream_id'' \<noteq> None then Inl (err_reply 401 ''Stream tokens are not valid for API access'')
                  else
                    let username = claim_str claims ''username'';
                        tokenRole = claim_str claims ''role'';
                        pass = Inr (ctx\<lparr>ctx_username := Some username, ctx_role := Some tokenRole\<rparr>) in
                    (case store of
                       None \<Rightarrow> pass
                     | Some s \<Rightarrow>
                         (case GetUser B username s of
                            Inl _ \<Rightarrow> Inl (err_reply 401 ''User no longer exists'')
                          | Inr user \<Rightarrow>
                              if Role user \<noteq> tokenRole then Inl (err_reply 401 ''User role has changed, please login again'')
                              else pass))))"

definition RequireRole :: "string list \<Rightarrow> gin_ctx \<Rightarrow> reply + gin_ctx" where
  "RequireRole allowedRoles ctx =
     (case ctx_role ctx of
        None \<Rightarrow> Inl (err_reply 403 ''Role not found'')
      | Some r \<Rightarrow>
          if \<exists>a\<in>set allowedRoles. r = a then Inr ctx
          else Inl (err_reply 403 ''Insufficient permissions''))"

definition stream_claims :: "string \<Rightarrow> int \<Rightarrow> claims" where
  "stream_claims cameraID now =
     [''stream_id'' \<mapsto> JStr cameraID, ''iat'' \<mapsto> JInt (unix now), ''nbf'' \<mapsto> JInt (unix now),
      ''exp'' \<mapsto> JInt (unix (now + 60 * 10 ^ 9))]"

definition GenerateStreamToken :: "jwt_lib \<Rightarrow> string \<Rightarrow> int \<Rightarrow> string \<Rightarrow> string option" where
  "GenerateStreamToken J secret now cameraID = SignedString J (stream_claims cameraID now) secret"

definition StreamMiddleware :: "jwt_lib \<Rightarrow> string \<Rightarrow> int \<Rightarrow> string \<Rightarrow> string \<Rightarrow> gin_ctx \<Rightarrow> reply + gin_ctx" where
  "StreamMiddleware J secret now tokenString requestedID ctx =
     (if tokenString = [] then Inl (err_reply 401 ''Missing stream token in query'')
      else (case jwt_Parse J now tokenString secret of
              None \<Rightarrow> Inl (err_reply 401 ''Invalid or expired stream token'')
            | Some claims \<Rightarrow>
                (case claims ''stream_id'' of
                   Some (JStr streamID) \<Rightarrow>
                     if streamID \<noteq> requestedID then Inl (err_reply 401 ''Stream token does not match the requested camera'')
                     else Inr ctx
                 | _ \<Rightarrow> Inl (err_reply 401 ''Main API tokens are not allowed here. Please use a short-lived stream token.''))))"

text \<open>A token service for the examples: it signs the claims it knows.\<close>

definition table_jwt :: "claims list \<Rightarrow> string \<Rightarrow> jwt_lib" where
  "table_jwt cs key =
     (let entries = map (\<lambda>(i, c). (c, CHR ''t'' # replicate i CHR ''x'')) (enumerate 0 cs) in
      \<lparr>SignedString = (\<lambda>c k. if k = key then map_option snd (find (\<lambda>(d, _). d = c) entries) else None),
       jwt_Parse = (\<lambda>now t k. case find (\<lambda>(_, t'). k = key \<and> t' = t) entries of
                      Some (c, _) \<Rightarrow> if in_time now c then Some c else None | None \<Rightarrow> None)\<rparr>)"

definition demo_admin :: User where
  "demo_admin = \<lparr>Username = ''root'', PasswordHash = ''pw'', Role = RoleAdmin\<rparr>"

definition plain_bcrypt :: bcrypt_lib where
  "plain_bcrypt = \<lparr>GenerateFromPassword = (\<lambda>_ p. Some p), CompareHashAndPassword = (=)\<rparr>"

subsection \<open>Lemmas\<close>

lemma Bearer_prefix: "HasPrefix (''Bearer '' @ t) ''Bearer ''" "TrimPrefix (''Bearer '' @ t) ''Bearer '' = t"
  by (simp_all add: HasPrefix_def TrimPrefix_def)

lemma length_charset: "length charset = 70"
  by (simp add: charset_def)

lemma generateRandomPassword_chars:
  "length (generateRandomPassword rnd) = length rnd \<and> set (generateRandomPassword rnd) \<subseteq> set charset"
  using length_charset by (auto simp: generateRandomPassword_def intro!: nth_mem)

lemma Middleware_passes:
  assumes "Middleware J B secret now (Some s) h ctx = Inr ctx'"
  obtains t c u where "h = ''Bearer '' @ t" "jwt_Parse J now t secret = Some c" "c ''stream_id'' = None"
    "GetUser B (claim_str c ''username'') s = Inr u" "Role u = claim_str c ''role''"
    "ctx' = ctx\<lparr>ctx_username := Some (claim_str c ''username''), ctx_role := Some (Role u)\<rparr>"
proof -
  have hp: "HasPrefix h ''Bearer ''" using assms by (auto simp: Middleware_def split: if_splits)
  then obtain t where t: "h = ''Bearer '' @ t" unfolding HasPrefix_def by (metis append_take_drop_id)
  show ?thesis
    using assms that [OF t] unfolding t Middleware_def Let_def Bearer_prefix
    by (auto split: if_splits option.splits sum.splits)
qed

lemma RequireRole_passes: "RequireRole rs ctx = Inr ctx' \<longleftrightarrow> ctx' = ctx \<and> (\<exists>r\<in>set rs. ctx_role ctx = Some r)"
  by (auto simp: RequireRole_def split: option.splits)

lemma Login_ok:
  assumes "Login C J B secret now s body = (200, r)"
  obtains req u t where "bind_json request_fields \<lparr>rq_Username = [], rq_Password = []\<rparr> body = Some req" "rq_Username req \<noteq> []"
    "GetUser B (rq_Username req) s = Inr u" "CompareHashAndPassword C (PasswordHash u) (rq_Password req)"
    "SignedString J (session_claims u now) secret = Some t" "r = JObj [(''token'', JStr t)]"
  using assms by (auto simp: Login_def err_reply_def split: option.splits sum.splits if_splits)

lemma unix_add: "unix (now + k * 10 ^ 9) = unix now + k"
  by (simp add: unix_def)

lemma jwt_okD:
  assumes "jwt_ok J" "SignedString J c k = Some t"
  shows "t \<noteq> []" "jwt_Parse J now t k = (if in_time now c then Some c else None)"
  using assms by (auto simp: jwt_ok_def)

lemma session_in_time: "in_time now (session_claims u t0) \<longleftrightarrow> now < (unix t0 + 3600) * 10 ^ 9"
  unfolding in_time_def session_claims_def unix_add by simp

lemma stream_in_time: "in_time now (stream_claims i t0) \<longleftrightarrow> unix t0 * 10 ^ 9 \<le> now \<and> now < (unix t0 + 60) * 10 ^ 9"
  unfolding in_time_def stream_claims_def unix_add by auto

lemma session_claim_strs:
  "claim_str (session_claims u t0) ''username'' = Username u" "claim_str (session_claims u t0) ''role'' = Role u"
  "session_claims u t0 ''stream_id'' = None"
  by (simp_all add: claim_str_def session_claims_def)

lemma first_start_admin:
  assumes "store_ok B s" "bcrypt_ok C" "\<not> HasUsers B s" "NewLocalAuthenticator C B rnd salt (Some s) = (Some s', Some pw)"
  shows "\<exists>u. GetUser B ''admin'' s' = Inr u \<and> Role u = RoleAdmin \<and> CompareHashAndPassword C (PasswordHash u) pw \<and> length pw = length rnd"
proof -
  obtain h where h: "GenerateFromPassword C salt (generateRandomPassword rnd) = Some h"
    "SaveUser B \<lparr>Username = ''admin'', PasswordHash = h, Role = RoleAdmin\<rparr> s = (None, s')" "pw = generateRandomPassword rnd"
    using assms(3,4) by (auto simp: NewLocalAuthenticator_def Let_def split: option.splits prod.splits)
  then show ?thesis
    using users.save_law [OF assms(1) _ h(2)] assms(2) generateRandomPassword_chars [of rnd] by (simp add: bcrypt_ok_def)
qed

lemma later_start_unchanged: "HasUsers B s \<Longrightarrow> NewLocalAuthenticator C B rnd salt (Some s) = (Some s, None)"
  by (simp add: NewLocalAuthenticator_def)

lemma find_enumerate_token:
  "find (\<lambda>(d, _). d = c) (map (\<lambda>(i, c). (c, CHR ''t'' # replicate i CHR ''x'')) (enumerate n cs)) = Some (c', t) \<Longrightarrow>
   c' = c \<and> t \<noteq> [] \<and> find (\<lambda>(_, t'). t' = t) (map (\<lambda>(i, c). (c, CHR ''t'' # replicate i CHR ''x'')) (enumerate n cs)) = Some (c, t)"
proof (induction cs arbitrary: n)
  case (Cons d cs)
  show ?case
  proof (cases "d = c")
    case False
    with Cons.prems have f: "find (\<lambda>(d, _). d = c) (map (\<lambda>(i, c). (c, CHR ''t'' # replicate i CHR ''x'')) (enumerate (Suc n) cs)) = Some (c', t)"
      by simp
    then have "(c', t) \<in> set (map (\<lambda>(i, c). (c, CHR ''t'' # replicate i CHR ''x'')) (enumerate (Suc n) cs))"
      by (metis (lifting) find_Some_iff nth_mem)
    then obtain i where i: "Suc n \<le> i" "t = CHR ''t'' # replicate i CHR ''x''" by (auto simp: in_set_enumerate_eq)
    then have "CHR ''t'' # replicate n CHR ''x'' \<noteq> t" by (auto dest: arg_cong [where f = length])
    with Cons.IH [OF f] False show ?thesis by simp
  qed (use Cons.prems in auto)
qed simp

lemma table_jwt_ok: "jwt_ok (table_jwt cs key)"
  unfolding jwt_ok_def table_jwt_def Let_def
  by (auto dest!: find_enumerate_token split: if_splits)

subsection \<open>Properties\<close>

text \<open>C26: Sessions. The token issued by a successful \<open>Login\<close> names a stored user whose password matched. It opens
  the API for an hour from the second it was issued, exactly while the store still has that user
  with the same role; the handlers then see that name and role.\<close>

theorem session_tokens:
  assumes "jwt_ok J" "Login C J B secret t0 s body = (200, JObj [(''token'', JStr tok)])"
  shows "\<exists>req u. bind_json request_fields \<lparr>rq_Username = [], rq_Password = []\<rparr> body = Some req \<and>
    GetUser B (rq_Username req) s = Inr u \<and> CompareHashAndPassword C (PasswordHash u) (rq_Password req) \<and>
    (\<forall>now s' ctx ctx'. Middleware J B secret now (Some s') (''Bearer '' @ tok) ctx = Inr ctx' \<longleftrightarrow>
       now < (unix t0 + 3600) * 10 ^ 9 \<and> (\<exists>u'. GetUser B (Username u) s' = Inr u' \<and> Role u' = Role u) \<and>
       ctx' = ctx\<lparr>ctx_username := Some (Username u), ctx_role := Some (Role u)\<rparr>)"
proof -
  obtain req u where u: "bind_json request_fields \<lparr>rq_Username = [], rq_Password = []\<rparr> body = Some req"
    "GetUser B (rq_Username req) s = Inr u" "CompareHashAndPassword C (PasswordHash u) (rq_Password req)"
    "SignedString J (session_claims u t0) secret = Some tok"
    using assms(2) by (rule Login_ok) simp
  note p = jwt_okD [OF assms(1) u(4)]
  have "Middleware J B secret now (Some s') (''Bearer '' @ tok) ctx = Inr ctx' \<longleftrightarrow>
       now < (unix t0 + 3600) * 10 ^ 9 \<and> (\<exists>u'. GetUser B (Username u) s' = Inr u' \<and> Role u' = Role u) \<and>
       ctx' = ctx\<lparr>ctx_username := Some (Username u), ctx_role := Some (Role u)\<rparr>" for now s' ctx ctx'
    using p(1) unfolding Middleware_def Let_def Bearer_prefix p(2) session_in_time
    by (auto simp: session_claim_strs HasPrefix_def split: sum.splits)
  with u show ?thesis by blast
qed

text \<open>C27: Stream tokens. The token generated for a camera opens the media endpoints of that camera and of no
  other, for sixty seconds from the second it was issued, and never the API.\<close>

theorem stream_tokens:
  assumes "jwt_ok J" "GenerateStreamToken J secret t0 cam = Some tok"
  shows "(StreamMiddleware J secret now tok cam' ctx = Inr ctx' \<longleftrightarrow>
      cam' = cam \<and> unix t0 * 10 ^ 9 \<le> now \<and> now < (unix t0 + 60) * 10 ^ 9 \<and> ctx' = ctx) \<and>
    (\<exists>r. Middleware J B secret now store (''Bearer '' @ tok) ctx = Inl r)"
proof -
  have g: "SignedString J (stream_claims cam t0) secret = Some tok" using assms(2) by (simp add: GenerateStreamToken_def)
  note p = jwt_okD [OF assms(1) g]
  have c: "stream_claims cam t0 ''stream_id'' = Some (JStr cam)" by (simp add: stream_claims_def)
  show ?thesis
    using p(1) c unfolding StreamMiddleware_def Middleware_def Let_def Bearer_prefix p(2) stream_in_time by (auto simp: HasPrefix_def)
qed

lemma stream_tokens_witness:
  "\<exists>tok. GenerateStreamToken (table_jwt [stream_claims ''a'' 0] ''k'') ''k'' 0 ''a'' = Some tok \<and>
     StreamMiddleware (table_jwt [stream_claims ''a'' 0] ''k'') ''k'' 59999999999 tok ''a'' no_ctx = Inr no_ctx \<and>
     StreamMiddleware (table_jwt [stream_claims ''a'' 0] ''k'') ''k'' 1 tok ''b'' no_ctx \<noteq> Inr no_ctx"
proof -
  let ?J = "table_jwt [stream_claims ''a'' 0] ''k''"
  have g: "GenerateStreamToken ?J ''k'' 0 ''a'' = Some ''t''" by (simp add: GenerateStreamToken_def table_jwt_def)
  note st = stream_tokens [OF table_jwt_ok g, THEN conjunct1]
  have "StreamMiddleware ?J ''k'' 59999999999 ''t'' ''a'' no_ctx = Inr no_ctx" by (simp add: st unix_def)
  moreover have "StreamMiddleware ?J ''k'' 1 ''t'' ''b'' no_ctx \<noteq> Inr no_ctx" by (simp add: st)
  ultimately show ?thesis using g by blast
qed

lemma session_tokens_witness:
  "\<exists>s tok. GetUser mem_badger ''root'' s = Inr demo_admin \<and>
     Login plain_bcrypt (table_jwt [session_claims demo_admin 0] ''k'') mem_badger ''k'' 0 s
       (Some (JObj [(''username'', JStr ''root''), (''password'', JStr ''pw'')])) = (200, JObj [(''token'', JStr tok)]) \<and>
     Middleware (table_jwt [session_claims demo_admin 0] ''k'') mem_badger ''k'' 5 (Some s) (''Bearer '' @ tok) no_ctx =
       Inr \<lparr>ctx_username = Some ''root'', ctx_role = Some RoleAdmin\<rparr>"
proof -
  let ?J = "table_jwt [session_claims demo_admin 0] ''k''" and ?body = "Some (JObj [(''username'', JStr ''root''), (''password'', JStr ''pw'')])"
  obtain e s where s: "SaveUser mem_badger demo_admin demo_store = (e, s)" by force
  then have "e = None" by (simp add: SaveUser_def update_db_def split: prod.splits)
  then have u: "GetUser mem_badger ''root'' s = Inr demo_admin"
    using users.save_law [OF demo_store_ok _ s] by (simp add: demo_admin_def)
  have r: "bind_json request_fields \<lparr>rq_Username = [], rq_Password = []\<rparr> ?body = Some \<lparr>rq_Username = ''root'', rq_Password = ''pw''\<rparr>"
    by (simp add: bind_json_def d_struct_def d_member_def request_fields_def fld_def key_eq_def to_lower_def)
  have l: "Login plain_bcrypt ?J mem_badger ''k'' 0 s ?body = (200, JObj [(''token'', JStr ''t'')])"
    unfolding Login_def r by (simp add: u plain_bcrypt_def table_jwt_def) (simp add: demo_admin_def)
  from session_tokens [OF table_jwt_ok l] r u
  have "Middleware ?J mem_badger ''k'' 5 (Some s) (''Bearer '' @ ''t'') no_ctx = Inr \<lparr>ctx_username = Some ''root'', ctx_role = Some RoleAdmin\<rparr>"
    by (simp add: no_ctx_def unix_def) (simp add: demo_admin_def)
  with u l show ?thesis by blast
qed

end
