(* ===== verification/Router.thy ===== *)
theory Router
  imports Auth Stream_Manager
begin

text \<open>
  The HTTP router (\<open>internal/api/router.go\<close>): the route table with the middleware chain of each
  route, the CORS and access-log middleware, and the conditional stream-token check of the media
  routes. Path matching, recovery from panics and the static files belong to gin and are left
  out; a guard decides whether a request of a given route reaches its handler.

  Shown: every API route but the login is reached only with an access token of a stored user
  whose role is one of those the route admits, changing anything takes an operator or an
  administrator, and users, backups, logs, tags and folders are the administrator's.
\<close>

datatype guard = Public | Roles "string list" | StreamAuth

subsection \<open>Middleware\<close>

datatype log_level = NoLog | LogDebug | LogInfo | LogWarn | LogError

definition access_log :: "string \<Rightarrow> string \<Rightarrow> nat \<Rightarrow> log_level" where
  "access_log meth path status =
     (if HasPrefix path ''/stream/'' \<or> path = ''/api/logs/stream'' then NoLog
      else if status < 400 \<and> meth = ''GET'' \<and>
        (path = ''/api/cameras'' \<or> path = ''/api/stats'' \<or> path = ''/api/tags'' \<or> path = ''/livez'' \<or> path = ''/readyz'')
      then LogDebug
      else if 400 \<le> status \<and> status < 500 then LogWarn
      else if 500 \<le> status then LogError
      else LogInfo)"

text \<open>The response headers set, and whether the request is answered with 204 at once.\<close>

definition cors :: "string list \<Rightarrow> string \<Rightarrow> string \<Rightarrow> (string \<times> string) list \<times> bool" where
  "cors corsOrigins origin meth =
     (if corsOrigins = [] then ([], False)
      else
        let allowed = (origin \<noteq> [] \<and> (\<exists>o'\<in>set corsOrigins. o' = origin \<or> o' = ''*''))
        in (if allowed
            then [(''Access-Control-Allow-Origin'', origin),
                  (''Access-Control-Allow-Methods'', ''GET, POST, OPTIONS, PUT, DELETE''),
                  (''Access-Control-Allow-Headers'', ''Content-Type, Authorization''),
                  (''Access-Control-Allow-Credentials'', ''true''), (''Vary'', ''Origin'')]
            else [], meth = ''OPTIONS''))"

definition streamAuth :: "jwt_lib \<Rightarrow> string \<Rightarrow> int \<Rightarrow> 'w Manager \<Rightarrow> string \<Rightarrow> string \<Rightarrow> gin_ctx \<Rightarrow> reply + gin_ctx" where
  "streamAuth J secret now m token i ctx =
     (case GetStream i m of
        Some a \<Rightarrow>
          (case objs m a of
             Some st \<Rightarrow> if st_tokenAuth st then StreamMiddleware J secret now token i ctx else Inr ctx
           | None \<Rightarrow> Inr ctx)
      | None \<Rightarrow> Inr ctx)"

text \<open>The middleware chain of a route, on the parts of a request it reads: the authorization header, the
  \<open>token\<close> query parameter and the \<open>:id\<close> path parameter.\<close>

definition run_guard ::
  "jwt_lib \<Rightarrow> ('d, 't) badger_ops \<Rightarrow> string \<Rightarrow> int \<Rightarrow> 'd Storage option \<Rightarrow> 'w Manager \<Rightarrow> string \<Rightarrow> string \<Rightarrow> string \<Rightarrow> guard \<Rightarrow> reply + gin_ctx" where
  "run_guard J B secret now store m header token i g =
     (case g of
        Public \<Rightarrow> Inr no_ctx
      | Roles rs \<Rightarrow> and_then (Middleware J B secret now store header no_ctx) (RequireRole rs)
      | StreamAuth \<Rightarrow> streamAuth J secret now m token i no_ctx)"

subsection \<open>The route table\<close>

definition read_roles :: "string list" where
  "read_roles = [RoleAdmin, RoleOperator, RoleViewer, RoleService]"

definition routes :: "(string \<times> string \<times> guard) list" where
  "routes =
     [(''GET'', ''/livez'', Public), (''GET'', ''/readyz'', Public), (''POST'', ''/api/login'', Public),
      (''GET'', ''/models/:filename'', Public), (''GET'', ''/metrics'', Public), (''GET'', ''/swagger/*any'', Public),
      (''GET'', ''/api/cameras'', Roles read_roles),
      (''GET'', ''/api/cameras/:id/archive'', Roles read_roles),
      (''GET'', ''/api/cameras/:id/export'', Roles read_roles),
      (''GET'', ''/api/cameras/:id/stream-token'', Roles read_roles),
      (''GET'', ''/api/stats'', Roles read_roles), (''GET'', ''/api/tags'', Roles read_roles), (''GET'', ''/api/folders'', Roles read_roles),
      (''POST'', ''/api/cameras'', Roles [RoleAdmin, RoleOperator]),
      (''PUT'', ''/api/cameras/:id'', Roles [RoleAdmin, RoleOperator]),
      (''DELETE'', ''/api/cameras/:id'', Roles [RoleAdmin, RoleOperator]),
      (''GET'', ''/api/logs/stream'', Roles [RoleAdmin]),
      (''GET'', ''/api/system/backup/export'', Roles [RoleAdmin]), (''POST'', ''/api/system/backup/import'', Roles [RoleAdmin]),
      (''POST'', ''/api/tags'', Roles [RoleAdmin]), (''PUT'', ''/api/tags/:id'', Roles [RoleAdmin]), (''DELETE'', ''/api/tags/:id'', Roles [RoleAdmin]),
      (''POST'', ''/api/folders'', Roles [RoleAdmin]), (''PUT'', ''/api/folders/:id'', Roles [RoleAdmin]), (''DELETE'', ''/api/folders/:id'', Roles [RoleAdmin]),
      (''GET'', ''/api/users'', Roles [RoleAdmin]), (''POST'', ''/api/users'', Roles [RoleAdmin]),
      (''PUT'', ''/api/users/:username'', Roles [RoleAdmin]), (''DELETE'', ''/api/users/:username'', Roles [RoleAdmin]),
      (''GET'', ''/stream/hls/:id/index.m3u8'', StreamAuth), (''GET'', ''/stream/hls/:id/stream.m3u8'', StreamAuth),
      (''GET'', ''/stream/hls/:id/subs.m3u8'', StreamAuth), (''GET'', ''/stream/hls/:id/:segment'', StreamAuth),
      (''POST'', ''/stream/webrtc/whep/:id'', StreamAuth), (''GET'', ''/stream/ws/:id'', StreamAuth),
      (''GET'', ''/hls/:id/archive.m3u8'', StreamAuth), (''GET'', ''/hls/:id/segment.ts'', StreamAuth)]"

text \<open>What an API route must require at least: an administrator for users, backups, logs and for changing
  tags and folders, an operator for changing anything, some role for reading.\<close>

definition needed_roles :: "string \<Rightarrow> string \<Rightarrow> string set" where
  "needed_roles meth path =
     (if HasPrefix path ''/api/users'' \<or> HasPrefix path ''/api/system'' \<or> HasPrefix path ''/api/logs'' \<or>
         meth \<noteq> ''GET'' \<and> \<not> HasPrefix path ''/api/cameras''
      then {RoleAdmin}
      else if meth \<noteq> ''GET'' then {RoleAdmin, RoleOperator}
      else {RoleAdmin, RoleOperator, RoleViewer, RoleService})"

subsection \<open>Lemmas\<close>

definition route_safe :: "string \<times> string \<times> guard \<Rightarrow> bool" where
  "route_safe r \<longleftrightarrow> (case r of (meth, path, g) \<Rightarrow>
     HasPrefix path ''/api/'' \<and> path \<noteq> ''/api/login'' \<longrightarrow> (case g of Roles rs \<Rightarrow> set rs \<subseteq> needed_roles meth path | _ \<Rightarrow> False))"

lemma routes_safe: "list_all route_safe routes"
  by (simp add: routes_def route_safe_def needed_roles_def read_roles_def HasPrefix_def)

lemma streamAuth_token:
  assumes "streams m i = Some a" "objs m a = Some st" "st_tokenAuth st" "streamAuth J secret now m token i ctx = Inr ctx'"
  shows "\<exists>c. jwt_Parse J now token secret = Some c \<and> c ''stream_id'' = Some (JStr i)"
  using assms
  by (auto simp: streamAuth_def GetStream_def StreamMiddleware_def split: if_splits option.splits json.splits)

text \<open>A camera that is not running (disabled, for instance) has no stream to ask, so its media routes, the
  archive included, need no token whatever its settings say.\<close>

lemma disabled_camera_needs_no_token:
  "streams m i = None \<Longrightarrow> run_guard J B secret now store m header token i StreamAuth = Inr no_ctx"
  by (simp add: run_guard_def streamAuth_def GetStream_def)

subsection \<open>Property\<close>

text \<open>C25: Access control. A request that reaches the handler of an API route other than the login carries an access
  token that parses under the server's secret, is not a stream token, and names a user who is
  stored with exactly the role in the token; that role is one the operation needs, and the
  handler sees that name and role.\<close>

theorem api_access_control:
  assumes "(meth, path, g) \<in> set routes" "HasPrefix path ''/api/''" "path \<noteq> ''/api/login''"
    and "run_guard J B secret now (Some s) m header token i g = Inr ctx"
  shows "\<exists>t c u. header = ''Bearer '' @ t \<and> jwt_Parse J now t secret = Some c \<and> c ''stream_id'' = None \<and>
    GetUser B (claim_str c ''username'') s = Inr u \<and> Role u = claim_str c ''role'' \<and> Role u \<in> needed_roles meth path \<and>
    ctx = \<lparr>ctx_username = Some (claim_str c ''username''), ctx_role = Some (Role u)\<rparr>"
proof -
  from routes_safe assms(1) have "route_safe (meth, path, g)" by (simp add: list_all_iff)
  then obtain rs where rs: "g = Roles rs" "set rs \<subseteq> needed_roles meth path"
    using assms(2,3) by (auto simp: route_safe_def split: guard.splits)
  then obtain ctx1 where ctx1: "Middleware J B secret now (Some s) header no_ctx = Inr ctx1" "RequireRole rs ctx1 = Inr ctx"
    using assms(4) by (auto simp: run_guard_def and_then_eq_Inr)
  obtain t c u where u: "header = ''Bearer '' @ t" "jwt_Parse J now t secret = Some c" "c ''stream_id'' = None"
    "GetUser B (claim_str c ''username'') s = Inr u" "Role u = claim_str c ''role''"
    "ctx1 = no_ctx\<lparr>ctx_username := Some (claim_str c ''username''), ctx_role := Some (Role u)\<rparr>"
    by (rule Middleware_passes [OF ctx1(1)])
  have "ctx = ctx1" "Role u \<in> set rs" using ctx1(2) u(6) by (auto simp: RequireRole_passes)
  with u rs(2) show ?thesis by (auto simp: no_ctx_def)
qed

lemma api_access_control_witness:
  "\<exists>s ctx u. run_guard (table_jwt [session_claims demo_admin 0] ''k'') mem_badger ''k'' 5 (Some s)
       (NewManager :: bytes Manager) (''Bearer '' @ ''t'') [] [] (Roles [RoleAdmin]) = Inr ctx \<and>
     GetUser mem_badger ''root'' s = Inr u \<and> Role u \<in> needed_roles ''DELETE'' ''/api/users/:username''"
proof -
  let ?J = "table_jwt [session_claims demo_admin 0] ''k''"
  obtain e s where s: "SaveUser mem_badger demo_admin demo_store = (e, s)" by force
  then have "e = None" by (simp add: SaveUser_def update_db_def split: prod.splits)
  then have u: "GetUser mem_badger ''root'' s = Inr demo_admin"
    using users.save_law [OF demo_store_ok _ s] by (simp add: demo_admin_def)
  have p: "jwt_Parse ?J 5 ''t'' ''k'' = Some (session_claims demo_admin 0)"
    by (simp add: table_jwt_def session_in_time unix_def)
  have "Middleware ?J mem_badger ''k'' 5 (Some s) (''Bearer '' @ ''t'') no_ctx = Inr \<lparr>ctx_username = Some ''root'', ctx_role = Some RoleAdmin\<rparr>"
    unfolding Middleware_def Let_def Bearer_prefix p
    using u unfolding session_claim_strs demo_admin_def by (simp add: HasPrefix_def no_ctx_def session_claim_strs)
  then have g: "run_guard ?J mem_badger ''k'' 5 (Some s) (NewManager :: bytes Manager) (''Bearer '' @ ''t'') [] [] (Roles [RoleAdmin]) =
      Inr \<lparr>ctx_username = Some ''root'', ctx_role = Some RoleAdmin\<rparr>"
    by (simp add: run_guard_def RequireRole_def)
  have "(''DELETE'', ''/api/users/:username'', Roles [RoleAdmin]) \<in> set routes" by (simp add: routes_def)
  from api_access_control [OF this _ _ g] obtain c u' where "GetUser mem_badger (claim_str c ''username'') s = Inr u'"
    "Role u' \<in> needed_roles ''DELETE'' ''/api/users/:username''" "''root'' = claim_str c ''username''"
    by (auto simp: HasPrefix_def)
  then have "GetUser mem_badger ''root'' s = Inr u'" "Role u' \<in> needed_roles ''DELETE'' ''/api/users/:username''" by simp_all
  with g show ?thesis by blast
qed

end
