(* ===== verification/ClientTracker.thy ===== *)
theory ClientTracker
  imports Go_Hash
begin

text \<open>
  The registry of active viewers (\<open>ClientTracker\<close> of \<open>internal/api/handler.go\<close>): 32 shards, each a map
  from addresses to maps from cameras to the time last seen. \<open>Mark\<close> refreshes an entry at most
  every five seconds; \<open>GetActiveClients\<close> lists the entries inside the timeout and deletes the
  others. The order of the listing is Go's map order, so the listing is a set.

  Shown: the sharded registry is a flat map of viewers; and over any history of requests the
  listing contains every viewer seen within the timeout less five seconds and none that was not
  seen within the timeout.
\<close>

type_synonym shard = "string \<rightharpoonup> (string \<rightharpoonup> int)"

definition clientTrackerShards :: nat where
  "clientTrackerShards = 32"

type_synonym tracker = "shard list"

definition NewClientTracker :: tracker where
  "NewClientTracker = replicate clientTrackerShards Map.empty"

definition getShard :: "string \<Rightarrow> string \<Rightarrow> nat" where
  "getShard ip streamID =
     (let h = fold fnv32a_step ip 2166136261; h' = fold fnv32a_step streamID h in shard_of clientTrackerShards h')"

definition last_seen :: "shard \<Rightarrow> string \<Rightarrow> string \<Rightarrow> int option" where
  "last_seen sh ip streamID = (case sh ip of None \<Rightarrow> None | Some ss \<Rightarrow> ss streamID)"

definition Mark :: "int \<Rightarrow> string \<Rightarrow> string \<Rightarrow> tracker \<Rightarrow> tracker" where
  "Mark now ip streamID ct =
     (let k = getShard ip streamID; sh = ct ! k in
      if (case last_seen sh ip streamID of Some t \<Rightarrow> now - t < 5 * second | None \<Rightarrow> False) then ct
      else
        let ss = (case sh ip of None \<Rightarrow> Map.empty | Some ss \<Rightarrow> ss)
        in ct[k := sh(ip \<mapsto> ss(streamID \<mapsto> now))])"

text \<open>The loop over one shard: what it lists and what it leaves.\<close>

definition shard_active :: "int \<Rightarrow> int \<Rightarrow> shard \<Rightarrow> (string \<times> string) set" where
  "shard_active now timeout sh = {(ip, i). \<exists>t. last_seen sh ip i = Some t \<and> now - t \<le> timeout}"

definition shard_expire :: "int \<Rightarrow> int \<Rightarrow> shard \<Rightarrow> shard" where
  "shard_expire now timeout sh ip =
     (case sh ip of
        None \<Rightarrow> None
      | Some ss \<Rightarrow>
          let ss' = (\<lambda>i. case ss i of Some t \<Rightarrow> if now - t \<le> timeout then Some t else None | None \<Rightarrow> None)
          in if ss' = Map.empty then None else Some ss')"

definition GetActiveClients :: "int \<Rightarrow> int \<Rightarrow> tracker \<Rightarrow> (string \<times> string) set \<times> tracker" where
  "GetActiveClients now timeout ct = (\<Union>(set (map (shard_active now timeout) ct)), map (shard_expire now timeout) ct)"

subsection \<open>The flat map\<close>

definition seen :: "tracker \<Rightarrow> string \<times> string \<rightharpoonup> int" where
  "seen ct = (\<lambda>(ip, i). last_seen (ct ! getShard ip i) ip i)"

definition tracker_ok :: "tracker \<Rightarrow> bool" where
  "tracker_ok ct \<longleftrightarrow> length ct = clientTrackerShards \<and>
     (\<forall>k<length ct. \<forall>ip i. last_seen (ct ! k) ip i \<noteq> None \<longrightarrow> k = getShard ip i)"

text \<open>A history of timed requests, and the tracker after it.\<close>

datatype tracker_op = MarkOp string string | ListOp

fun tracker_run :: "int \<Rightarrow> (int \<times> tracker_op) list \<Rightarrow> tracker \<Rightarrow> tracker" where
  "tracker_run timeout [] ct = ct"
| "tracker_run timeout ((now, op) # ops) ct =
     tracker_run timeout ops
       (case op of MarkOp ip i \<Rightarrow> Mark now ip i ct | ListOp \<Rightarrow> snd (GetActiveClients now timeout ct))"

definition marks :: "(int \<times> tracker_op) list \<Rightarrow> string \<times> string \<Rightarrow> int set" where
  "marks ops = (\<lambda>(ip, i). {t. (t, MarkOp ip i) \<in> set ops})"

definition hist_inv :: "int \<Rightarrow> (int \<times> tracker_op) list \<Rightarrow> tracker \<Rightarrow> bool" where
  "hist_inv timeout ops ct \<longleftrightarrow> tracker_ok ct \<and>
     (\<forall>c t. seen ct c = Some t \<longrightarrow> t \<in> marks ops c \<and> (\<forall>m\<in>marks ops c. m - t < 5 * second)) \<and>
     (\<forall>c. seen ct c = None \<longrightarrow> (\<forall>m\<in>marks ops c. \<exists>g\<in>set (map fst ops). timeout - 5 * second < g - m))"

subsection \<open>Refinement\<close>

lemma getShard_less: "getShard ip i < clientTrackerShards"
  by (simp add: getShard_def Let_def clientTrackerShards_def)

lemma last_seen_upd:
  "last_seen (sh(ip \<mapsto> (case sh ip of None \<Rightarrow> Map.empty | Some ss \<Rightarrow> ss)(i \<mapsto> t))) ip' i' =
     (if (ip', i') = (ip, i) then Some t else last_seen sh ip' i')"
  by (auto simp: last_seen_def split: option.splits)

lemma last_seen_expire:
  "last_seen (shard_expire now timeout sh) ip i =
     (case last_seen sh ip i of Some t \<Rightarrow> if now - t \<le> timeout then Some t else None | None \<Rightarrow> None)"
proof (cases "sh ip")
  case (Some ss)
  let ?f = "\<lambda>i. case ss i of Some t \<Rightarrow> if now - t \<le> timeout then Some t else None | None \<Rightarrow> None"
  show ?thesis
  proof (cases "?f = Map.empty")
    case True
    then have "?f i = None" by (rule fun_cong)
    with True Some show ?thesis by (simp add: last_seen_def shard_expire_def)
  qed (use Some in \<open>simp add: last_seen_def shard_expire_def\<close>)
qed (simp add: last_seen_def shard_expire_def)

lemma New_ok: "tracker_ok NewClientTracker" "seen NewClientTracker = Map.empty"
  using getShard_less by (auto simp: tracker_ok_def NewClientTracker_def last_seen_def seen_def fun_eq_iff)

lemma Mark_refines:
  assumes "tracker_ok ct"
  shows "tracker_ok (Mark now ip i ct) \<and> seen (Mark now ip i ct) =
    (seen ct)((ip, i) \<mapsto> (case seen ct (ip, i) of Some t \<Rightarrow> if now - t < 5 * second then t else now | None \<Rightarrow> now))"
proof (cases "case last_seen (ct ! getShard ip i) ip i of Some t \<Rightarrow> now - t < 5 * second | None \<Rightarrow> False")
  case True
  then show ?thesis using assms by (auto simp: Mark_def Let_def seen_def fun_eq_iff split: option.splits)
next
  case False
  let ?k = "getShard ip i"
  let ?sh = "(ct ! ?k)(ip \<mapsto> (case (ct ! ?k) ip of None \<Rightarrow> Map.empty | Some ss \<Rightarrow> ss)(i \<mapsto> now))"
  have m: "Mark now ip i ct = ct[?k := ?sh]" using False by (simp add: Mark_def Let_def)
  have k: "?k < length ct" using assms getShard_less by (simp add: tracker_ok_def)
  have l: "last_seen (ct[?k := ?sh] ! j) ip' i' = (if j = ?k \<and> (ip', i') = (ip, i) then Some now else last_seen (ct ! j) ip' i')"
    if "j < length ct" for j ip' i'
    using that k last_seen_upd [of "ct ! ?k" ip i now ip' i'] by (auto simp: nth_list_update)
  have "tracker_ok (ct[?k := ?sh])" using assms l unfolding tracker_ok_def by (auto split: if_splits)
  moreover have "seen (ct[?k := ?sh]) (ip', i') = (if (ip', i') = (ip, i) then Some now else seen ct (ip', i'))" for ip' i'
    using l [of "getShard ip' i'" ip' i'] assms getShard_less [of ip' i'] by (auto simp: seen_def tracker_ok_def)
  ultimately show ?thesis unfolding m using False by (auto simp: seen_def fun_eq_iff split: option.splits)
qed

lemma GetActive_refines:
  assumes "tracker_ok ct" "GetActiveClients now timeout ct = (act, ct')"
  shows "tracker_ok ct' \<and> act = {c. \<exists>t. seen ct c = Some t \<and> now - t \<le> timeout} \<and>
    seen ct' = (\<lambda>c. case seen ct c of Some t \<Rightarrow> if now - t \<le> timeout then Some t else None | None \<Rightarrow> None)"
proof -
  have ct': "ct' = map (shard_expire now timeout) ct" and act: "act = \<Union>(set (map (shard_active now timeout) ct))"
    using assms(2) by (simp_all add: GetActiveClients_def)
  have len: "length ct = clientTrackerShards" using assms(1) by (simp add: tracker_ok_def)
  have "tracker_ok ct'" unfolding ct' using assms(1)
    by (auto simp: tracker_ok_def last_seen_expire split: option.splits if_splits)
  moreover have "(ip, i) \<in> act \<longleftrightarrow> (\<exists>t. seen ct (ip, i) = Some t \<and> now - t \<le> timeout)" for ip i
  proof
    assume "(ip, i) \<in> act"
    then obtain k t where k: "k < length ct" "last_seen (ct ! k) ip i = Some t" "now - t \<le> timeout"
      unfolding act shard_active_def by (auto simp: in_set_conv_nth)
    then have "k = getShard ip i" using assms(1) by (auto simp: tracker_ok_def)
    with k show "\<exists>t. seen ct (ip, i) = Some t \<and> now - t \<le> timeout" by (auto simp: seen_def)
  next
    assume "\<exists>t. seen ct (ip, i) = Some t \<and> now - t \<le> timeout"
    moreover have "ct ! getShard ip i \<in> set ct" using getShard_less [of ip i] len by simp
    ultimately show "(ip, i) \<in> act" unfolding act shard_active_def by (force simp: seen_def)
  qed
  moreover have "seen ct' (ip, i) = (case seen ct (ip, i) of Some t \<Rightarrow> if now - t \<le> timeout then Some t else None | None \<Rightarrow> None)" for ip i
    using getShard_less [of ip i] len unfolding ct' by (simp add: seen_def last_seen_expire)
  ultimately show ?thesis by (auto simp: fun_eq_iff)
qed

subsection \<open>Histories\<close>

lemma hist_invD:
  assumes "hist_inv timeout ops ct"
  shows "tracker_ok ct" "seen ct c = Some t \<Longrightarrow> t \<in> marks ops c" "seen ct c = Some t \<Longrightarrow> m \<in> marks ops c \<Longrightarrow> m - t < 5 * second"
    "seen ct c = None \<Longrightarrow> m \<in> marks ops c \<Longrightarrow> \<exists>g\<in>set (map fst ops). timeout - 5 * second < g - m"
  using assms unfolding hist_inv_def by blast+

lemma hist_invI:
  assumes "tracker_ok ct" "\<And>c t. seen ct c = Some t \<Longrightarrow> t \<in> marks ops c" "\<And>c t m. seen ct c = Some t \<Longrightarrow> m \<in> marks ops c \<Longrightarrow> m - t < 5 * second"
    "\<And>c m. seen ct c = None \<Longrightarrow> m \<in> marks ops c \<Longrightarrow> \<exists>g\<in>set (map fst ops). timeout - 5 * second < g - m"
  shows "hist_inv timeout ops ct"
  using assms unfolding hist_inv_def by blast

lemma tracker_run_append: "tracker_run timeout (xs @ ys) ct = tracker_run timeout ys (tracker_run timeout xs ct)"
  by (induction timeout xs ct rule: tracker_run.induct) simp_all

lemma marks_snoc:
  "marks (ops @ [(now, ListOp)]) c = marks ops c"
  "marks (ops @ [(now, MarkOp ip i)]) c = (if c = (ip, i) then insert now (marks ops c) else marks ops c)"
  by (auto simp: marks_def split: prod.splits)

lemma hist_mark:
  assumes "hist_inv timeout ops ct" "\<forall>t\<in>set (map fst ops). t \<le> now"
  shows "hist_inv timeout (ops @ [(now, MarkOp ip i)]) (Mark now ip i ct)"
proof (rule hist_invI)
  note d = hist_invD [OF assms(1)]
  note r = Mark_refines [OF d(1), of now ip i]
  have le: "m \<le> now" if "m \<in> marks ops c" for m c using that assms(2) by (cases c) (force simp: marks_def)
  show "tracker_ok (Mark now ip i ct)" using r by blast
  show "t \<in> marks (ops @ [(now, MarkOp ip i)]) c" if "seen (Mark now ip i ct) c = Some t" for c t
    using that r d(2) [of c t] by (auto simp: marks_snoc split: if_splits option.splits)
  show "m - t < 5 * second" if "seen (Mark now ip i ct) c = Some t" "m \<in> marks (ops @ [(now, MarkOp ip i)]) c" for c t m
  proof (cases "c = (ip, i)")
    case True
    then have "t = now \<or> seen ct c = Some t \<and> now - t < 5 * second" using that r by (auto split: option.splits if_splits)
    then show ?thesis using d(3) [of c t m] that(2) True le [of m c] by (auto simp: marks_snoc)
  next
    case False
    then show ?thesis using that r d(3) [of c t m] by (simp add: marks_snoc)
  qed
  show "\<exists>g\<in>set (map fst (ops @ [(now, MarkOp ip i)])). timeout - 5 * second < g - m"
    if "seen (Mark now ip i ct) c = None" "m \<in> marks (ops @ [(now, MarkOp ip i)]) c" for c m
  proof -
    have "c \<noteq> (ip, i)" "seen ct c = None" using that(1) r by (auto split: if_splits)
    then show ?thesis using d(4) [of c m] that(2) by (auto simp: marks_snoc)
  qed
qed

lemma hist_list:
  assumes "hist_inv timeout ops ct"
  shows "hist_inv timeout (ops @ [(now, ListOp)]) (snd (GetActiveClients now timeout ct))"
proof -
  note d = hist_invD [OF assms]
  obtain act ct' where g: "GetActiveClients now timeout ct = (act, ct')" by force
  note r = GetActive_refines [OF d(1) g]
  have sn: "seen ct c = Some t" if "seen ct' c = Some t" for c t using that r by (auto split: option.splits if_splits)
  have "hist_inv timeout (ops @ [(now, ListOp)]) ct'"
  proof (rule hist_invI)
    show "tracker_ok ct'" using r by blast
    show "t \<in> marks (ops @ [(now, ListOp)]) c" if "seen ct' c = Some t" for c t
      using d(2) [OF sn [OF that]] by (simp add: marks_snoc)
    show "m - t < 5 * second" if "seen ct' c = Some t" "m \<in> marks (ops @ [(now, ListOp)]) c" for c t m
      using d(3) [OF sn [OF that(1)]] that(2) by (simp add: marks_snoc)
    show "\<exists>g\<in>set (map fst (ops @ [(now, ListOp)])). timeout - 5 * second < g - m"
      if n: "seen ct' c = None" and m: "m \<in> marks (ops @ [(now, ListOp)]) c" for c m
    proof (cases "seen ct c")
      case None
      then show ?thesis using d(4) [of c m] m by (auto simp: marks_snoc)
    next
      case (Some t)
      then have "\<not> now - t \<le> timeout" using n r by (auto split: if_splits)
      moreover have "m - t < 5 * second" using d(3) [OF Some] m by (simp add: marks_snoc)
      ultimately show ?thesis by auto
    qed
  qed
  then show ?thesis using g by simp
qed

lemma hist_run:
  assumes "sorted (map fst ops)"
  shows "hist_inv timeout ops (tracker_run timeout ops NewClientTracker)"
  using assms
proof (induction ops rule: rev_induct)
  case Nil
  show ?case by (rule hist_invI) (auto simp: New_ok marks_def)
next
  case (snoc x ops)
  obtain now op where x: "x = (now, op)" by force
  have le: "\<forall>t\<in>set (map fst ops). t \<le> now" and s: "sorted (map fst ops)" using snoc.prems x by (auto simp: sorted_append)
  show ?case
    using hist_mark [OF snoc.IH [OF s] le] hist_list [OF snoc.IH [OF s]] by (cases op) (simp_all add: x tracker_run_append)
qed

subsection \<open>Property\<close>

text \<open>Active viewers. After any history of requests in time order, the listing at a time \<open>now\<close> contains every
  viewer seen within the timeout less the five seconds of rate limiting, and only viewers seen
  within the timeout.\<close>

theorem active_clients_window:
  assumes "sorted (map fst ops)" "\<forall>t\<in>set (map fst ops). t \<le> now"
    and "GetActiveClients now timeout (tracker_run timeout ops NewClientTracker) = (act, ct')"
  shows "(c \<in> act \<longrightarrow> (\<exists>m\<in>marks ops c. now - m \<le> timeout)) \<and>
    (\<forall>m\<in>marks ops c. now - m \<le> timeout - 5 * second \<longrightarrow> c \<in> act)"
proof -
  note h = hist_run [OF assms(1), of timeout]
  then have act: "act = {c. \<exists>t. seen (tracker_run timeout ops NewClientTracker) c = Some t \<and> now - t \<le> timeout}"
    using GetActive_refines [OF _ assms(3)] by (simp add: hist_inv_def)
  have "c \<in> act" if m: "m \<in> marks ops c" "now - m \<le> timeout - 5 * second" for m
  proof (cases "seen (tracker_run timeout ops NewClientTracker) c")
    case None
    then obtain g where "g \<in> set (map fst ops)" "timeout - 5 * second < g - m" using hist_invD(4) [OF h None m(1)] by blast
    then show ?thesis using assms(2) m(2) by force
  next
    case (Some t)
    have "m - t < 5 * second" by (rule hist_invD(3) [OF h Some m(1)])
    then show ?thesis using Some m(2) unfolding act by auto
  qed
  moreover have "\<exists>m\<in>marks ops c. now - m \<le> timeout" if "c \<in> act"
    using that hist_invD(2) [OF h] unfolding act by blast
  ultimately show ?thesis by blast
qed

lemma active_clients_window_witness:
  "(''10.0.0.1'', ''cam'') \<in> fst (GetActiveClients (12 * second) (15 * second)
     (tracker_run (15 * second) [(second, MarkOp ''10.0.0.1'' ''cam''), (4 * second, MarkOp ''10.0.0.1'' ''cam''), (5 * second, ListOp)] NewClientTracker))"
proof -
  let ?ops = "[(second, MarkOp ''10.0.0.1'' ''cam''), (4 * second, MarkOp ''10.0.0.1'' ''cam''), (5 * second, ListOp)]"
  obtain act ct' where g: "GetActiveClients (12 * second) (15 * second) (tracker_run (15 * second) ?ops NewClientTracker) = (act, ct')"
    by force
  have m: "4 * second \<in> marks ?ops (''10.0.0.1'', ''cam'')" by (simp add: marks_def)
  have "(''10.0.0.1'', ''cam'') \<in> act"
    by (rule active_clients_window [OF _ _ g, THEN conjunct2, rule_format, OF _ _ m]) auto
  with g show ?thesis by simp
qed

end
