(* ===== verification/Api_Entities.thy ===== *)
theory Api_Entities
  imports Auth
begin

text \<open>
  The tag, folder and user handlers of \<open>internal/api/handler.go\<close>. A handler is a function of the
  request's parts and the store, to a reply and the new store; \<open>E\<close> is the text of an error.

  Shown: deleting a tag or a folder removes it from every camera and changes nothing else; editing
  and deleting users never removes the last administrator; a user that was added can log in; and
  adding a user under the name of the last administrator removes that administrator.
\<close>

type_synonym err_text = "store_err \<Rightarrow> string"

definition status_ok :: reply where
  "status_ok = (200, JObj [(''status'', JStr ''ok'')])"

text \<open>\<open>append\<close> to a slice, which may be nil.\<close>

definition append_slice :: "'a list option \<Rightarrow> 'a \<Rightarrow> 'a list option" where
  "append_slice s x = Some (slice_elems s @ [x])"

text \<open>\<open>cams, _ := ListCameras()\<close>: on an error the cameras read before it are used.\<close>

fun load_prefix :: "(json \<Rightarrow> 'a option) \<Rightarrow> (string \<times> json) list \<Rightarrow> 'a list" where
  "load_prefix unm [] = []"
| "load_prefix unm ((_, v) # items) = (case unm v of None \<Rightarrow> [] | Some x \<Rightarrow> x # load_prefix unm items)"

definition listed_cameras :: "('d, 't) badger_ops \<Rightarrow> 'd Storage \<Rightarrow> CameraConfig list \<times> 'd Storage" where
  "listed_cameras B s =
     (case ListCameras B s of
        (Inr cams, s1) \<Rightarrow> (cams, s1)
      | (Inl _, s1) \<Rightarrow> (load_prefix camera_unmarshal (scan_prefix PrefixCamera (txn_items B (db_begin B (db s)))), s1))"

subsection \<open>Tags\<close>

definition h_GetTags :: "('d, 't) badger_ops \<Rightarrow> 'd Storage \<Rightarrow> reply" where
  "h_GetTags B s = (200, JArr (map tag_json (case ListTags B s of Inl _ \<Rightarrow> [] | Inr tags \<Rightarrow> tags)))"

definition h_AddTag :: "('d, 't) badger_ops \<Rightarrow> json option \<Rightarrow> 'd Storage \<Rightarrow> reply \<times> 'd Storage" where
  "h_AddTag B body s =
     (case bind_json tag_fields zero_tag body of
        None \<Rightarrow> (err_reply 400 ''Invalid input'', s)
      | Some tag \<Rightarrow>
          (case SaveTag B tag s of
             (Some _, s1) \<Rightarrow> (err_reply 500 ''Failed to save tag to db'', s1)
           | (None, s1) \<Rightarrow> ((200, tag_json tag), s1)))"

definition h_EditTag :: "('d, 't) badger_ops \<Rightarrow> string \<Rightarrow> json option \<Rightarrow> 'd Storage \<Rightarrow> reply \<times> 'd Storage" where
  "h_EditTag B i body s =
     (case bind_json tag_fields zero_tag body of
        None \<Rightarrow> (err_reply 400 ''Invalid input'', s)
      | Some req \<Rightarrow>
          (case GetTag B i s of
             Inl _ \<Rightarrow> (err_reply 404 ''Tag not found'', s)
           | Inr t \<Rightarrow>
               (case SaveTag B (t\<lparr>tag_Name := tag_Name req, tag_Color := tag_Color req\<rparr>) s of
                  (Some _, s1) \<Rightarrow> (err_reply 500 ''Failed to save tag'', s1)
                | (None, s1) \<Rightarrow> (status_ok, s1))))"

text \<open>The update function of \<open>DeleteTag\<close>: the tags kept, and whether one was dropped.\<close>

definition tag_loop :: "string \<Rightarrow> string list \<Rightarrow> string list option \<times> bool" where
  "tag_loop i tags = fold (\<lambda>t (new, changed). if t \<noteq> i then (append_slice new t, changed) else (new, True)) tags (None, False)"

definition drop_tag :: "string \<Rightarrow> CameraConfig \<Rightarrow> CameraConfig \<times> bool" where
  "drop_tag i cam =
     (case tag_loop i (slice_elems (Tags cam)) of
        (newCamTags, changed) \<Rightarrow> if changed then (cam\<lparr>Tags := newCamTags\<rparr>, True) else (cam, False))"

definition h_DeleteTag :: "('d, 't) badger_ops \<Rightarrow> string \<Rightarrow> 'd Storage \<Rightarrow> reply \<times> 'd Storage" where
  "h_DeleteTag B i s =
     (case DeleteTag B i s of
        (Some _, s1) \<Rightarrow> (err_reply 500 ''Failed to delete tag'', s1)
      | (None, s1) \<Rightarrow>
          (case listed_cameras B s1 of
             (cams, s2) \<Rightarrow> (status_ok, fold (\<lambda>cam s. snd (UpdateCameraTx B (ID cam) (drop_tag i) s)) cams s2)))"

subsection \<open>Folders\<close>

definition h_GetFolders :: "('d, 't) badger_ops \<Rightarrow> 'd Storage \<Rightarrow> reply" where
  "h_GetFolders B s = (200, JArr (map folder_json (case ListFolders B s of Inl _ \<Rightarrow> [] | Inr fs \<Rightarrow> fs)))"

definition h_AddFolder :: "('d, 't) badger_ops \<Rightarrow> json option \<Rightarrow> 'd Storage \<Rightarrow> reply \<times> 'd Storage" where
  "h_AddFolder B body s =
     (case bind_json folder_fields zero_folder body of
        None \<Rightarrow> (err_reply 400 ''Invalid input'', s)
      | Some folder \<Rightarrow>
          (case SaveFolder B folder s of
             (Some _, s1) \<Rightarrow> (err_reply 500 ''Failed to save folder to db'', s1)
           | (None, s1) \<Rightarrow> ((200, folder_json folder), s1)))"

definition h_EditFolder :: "('d, 't) badger_ops \<Rightarrow> string \<Rightarrow> json option \<Rightarrow> 'd Storage \<Rightarrow> reply \<times> 'd Storage" where
  "h_EditFolder B i body s =
     (case bind_json folder_fields zero_folder body of
        None \<Rightarrow> (err_reply 400 ''Invalid input'', s)
      | Some req \<Rightarrow>
          (case GetFolder B i s of
             Inl _ \<Rightarrow> (err_reply 404 ''Folder not found'', s)
           | Inr f \<Rightarrow>
               (case SaveFolder B (f\<lparr>folder_Name := folder_Name req\<rparr>) s of
                  (Some _, s1) \<Rightarrow> (err_reply 500 ''Failed to save folder'', s1)
                | (None, s1) \<Rightarrow> (status_ok, s1))))"

definition drop_folder :: "CameraConfig \<Rightarrow> CameraConfig \<times> bool" where
  "drop_folder cam = (cam\<lparr>FolderID := []\<rparr>, True)"

definition h_DeleteFolder :: "('d, 't) badger_ops \<Rightarrow> string \<Rightarrow> 'd Storage \<Rightarrow> reply \<times> 'd Storage" where
  "h_DeleteFolder B i s =
     (case DeleteFolder B i s of
        (Some _, s1) \<Rightarrow> (err_reply 500 ''Failed to delete folder'', s1)
      | (None, s1) \<Rightarrow>
          (case listed_cameras B s1 of
             (cams, s2) \<Rightarrow>
               (status_ok, fold (\<lambda>cam s. if FolderID cam = i then snd (UpdateCameraTx B (ID cam) drop_folder s) else s) cams s2)))"

subsection \<open>Users\<close>

record UserInput =
  in_Username :: string
  in_Password :: string
  in_Role :: string

definition no_input :: UserInput where
  "no_input = \<lparr>in_Username = [], in_Password = [], in_Role = []\<rparr>"

definition edit_fields :: "UserInput field list" where
  "edit_fields =
     [(''password'', fld d_str in_Password (\<lambda>v. in_Password_update (\<lambda>_. v))),
      (''role'', fld d_str in_Role (\<lambda>v. in_Role_update (\<lambda>_. v)))]"

definition add_fields :: "UserInput field list" where
  "add_fields = (''username'', fld d_str in_Username (\<lambda>v. in_Username_update (\<lambda>_. v))) # edit_fields"

text \<open>The list is nil, encoded as \<open>null\<close>, when there is no user.\<close>

definition h_GetUsers :: "err_text \<Rightarrow> ('d, 't) badger_ops \<Rightarrow> 'd Storage option \<Rightarrow> reply" where
  "h_GetUsers E B store =
     (case store of
        None \<Rightarrow> err_reply 500 ''Registry not initialized''
      | Some s \<Rightarrow>
          (case ListUsers B s of
             Inl e \<Rightarrow> err_reply 500 (E e)
           | Inr users \<Rightarrow> (200, if users = [] then JNull else JArr (map (\<lambda>u. user_json (u\<lparr>PasswordHash := []\<rparr>)) users))))"

definition h_AddUser :: "err_text \<Rightarrow> bcrypt_lib \<Rightarrow> ('d, 't) badger_ops \<Rightarrow> bytes \<Rightarrow> json option \<Rightarrow> 'd Storage \<Rightarrow> reply \<times> 'd Storage" where
  "h_AddUser E C B salt body s =
     (case bind_json add_fields no_input body of
        None \<Rightarrow> (err_reply 400 (E UnmarshalErr), s)
      | Some input \<Rightarrow>
          if in_Username input = [] \<or> in_Password input = [] \<or> in_Role input = []
          then (err_reply 400 ''Username, password and role are required'', s)
          else (case GenerateFromPassword C salt (in_Password input) of
                  None \<Rightarrow> (err_reply 500 ''Failed to hash password'', s)
                | Some h \<Rightarrow>
                    let user = \<lparr>Username = in_Username input, PasswordHash = h, Role = in_Role input\<rparr> in
                    (case SaveUser B user s of
                       (Some e, s1) \<Rightarrow> (err_reply 500 (E e), s1)
                     | (None, s1) \<Rightarrow> ((201, user_json user), s1))))"

definition adminCount :: "User list \<Rightarrow> nat" where
  "adminCount users = length (filter (\<lambda>u. Role u = RoleAdmin) users)"

text \<open>The administrators are counted only if the users can be listed.\<close>

definition last_admin :: "('d, 't) badger_ops \<Rightarrow> 'd Storage \<Rightarrow> bool" where
  "last_admin B s = (case ListUsers B s of Inl _ \<Rightarrow> False | Inr users \<Rightarrow> adminCount users \<le> 1)"

definition h_EditUser :: "err_text \<Rightarrow> bcrypt_lib \<Rightarrow> ('d, 't) badger_ops \<Rightarrow> bytes \<Rightarrow> string \<Rightarrow> json option \<Rightarrow> 'd Storage \<Rightarrow> reply \<times> 'd Storage" where
  "h_EditUser E C B salt username body s =
     (case bind_json edit_fields no_input body of
        None \<Rightarrow> (err_reply 400 (E UnmarshalErr), s)
      | Some input \<Rightarrow>
          (case GetUser B username s of
             Inl _ \<Rightarrow> (err_reply 404 ''User not found'', s)
           | Inr user0 \<Rightarrow>
               (case (if in_Password input \<noteq> [] then map_option (\<lambda>h. user0\<lparr>PasswordHash := h\<rparr>) (GenerateFromPassword C salt (in_Password input))
                      else Some user0) of
                  None \<Rightarrow> (err_reply 500 ''Failed to hash password'', s)
                | Some user1 \<Rightarrow>
                    if in_Role input \<noteq> [] \<and> in_Role input \<noteq> Role user1 \<and> Role user1 = RoleAdmin \<and> last_admin B s
                    then (err_reply 400 ''Cannot demote the last remaining administrator'', s)
                    else
                      let user2 = (if in_Role input \<noteq> [] then user1\<lparr>Role := in_Role input\<rparr> else user1) in
                      (case SaveUser B user2 s of
                         (Some e, s1) \<Rightarrow> (err_reply 500 (E e), s1)
                       | (None, s1) \<Rightarrow> ((200, user_json user2), s1)))))"

definition h_DeleteUser :: "err_text \<Rightarrow> ('d, 't) badger_ops \<Rightarrow> string \<Rightarrow> 'd Storage \<Rightarrow> reply \<times> 'd Storage" where
  "h_DeleteUser E B username s =
     (case GetUser B username s of
        Inl _ \<Rightarrow> (err_reply 404 ''User not found'', s)
      | Inr user \<Rightarrow>
          if Role user = RoleAdmin \<and> last_admin B s
          then (err_reply 400 ''Cannot delete the last remaining administrator'', s)
          else (case DeleteUser B username s of
                  (Some e, s1) \<Rightarrow> (err_reply 500 (E e), s1)
                | (None, s1) \<Rightarrow> ((200, JObj [(''message'', JStr ''User deleted'')]), s1)))"

text \<open>A sequence of user requests, and the additions that do not overwrite an administrator.\<close>

datatype user_req = AddReq bytes "json option" | EditReq bytes string "json option" | DeleteReq string

fun run_user_req :: "err_text \<Rightarrow> bcrypt_lib \<Rightarrow> ('d, 't) badger_ops \<Rightarrow> user_req \<Rightarrow> 'd Storage \<Rightarrow> 'd Storage" where
  "run_user_req E C B (AddReq salt body) s = snd (h_AddUser E C B salt body s)"
| "run_user_req E C B (EditReq salt u body) s = snd (h_EditUser E C B salt u body s)"
| "run_user_req E C B (DeleteReq u) s = snd (h_DeleteUser E B u s)"

definition names_admin :: "('d, 't) badger_ops \<Rightarrow> user_req \<Rightarrow> 'd Storage \<Rightarrow> bool" where
  "names_admin B req s =
     (case req of
        AddReq salt body \<Rightarrow>
          (case bind_json add_fields no_input body of
             None \<Rightarrow> False
           | Some input \<Rightarrow> in_Role input \<noteq> RoleAdmin \<and> (case GetUser B (in_Username input) s of Inr u \<Rightarrow> Role u = RoleAdmin | Inl _ \<Rightarrow> False))
      | _ \<Rightarrow> False)"

fun run_user_reqs :: "err_text \<Rightarrow> bcrypt_lib \<Rightarrow> ('d, 't) badger_ops \<Rightarrow> user_req list \<Rightarrow> 'd Storage \<Rightarrow> 'd Storage option" where
  "run_user_reqs E C B [] s = Some s"
| "run_user_reqs E C B (q # qs) s = (if names_admin B q s then None else run_user_reqs E C B qs (run_user_req E C B q s))"

definition has_admin :: "('d, 't) badger_ops \<Rightarrow> 'd Storage \<Rightarrow> bool" where
  "has_admin B s \<longleftrightarrow> (\<exists>n u. GetUser B n s = Inr u \<and> Role u = RoleAdmin)"

text \<open>The requests that change tags, folders or users.\<close>

inductive entity_step :: "('d, 't) badger_ops \<Rightarrow> 'd Storage \<Rightarrow> 'd Storage \<Rightarrow> bool" for B where
  "entity_step B s (snd (h_AddTag B body s))"
| "entity_step B s (snd (h_EditTag B i body s))"
| "entity_step B s (snd (h_DeleteTag B i s))"
| "entity_step B s (snd (h_AddFolder B body s))"
| "entity_step B s (snd (h_EditFolder B i body s))"
| "entity_step B s (snd (h_DeleteFolder B i s))"
| "entity_step B s (run_user_req E C B q s)"

text \<open>The database commits every update whose function succeeds.\<close>

definition reliable :: "('d, 't) badger_ops \<Rightarrow> bool" where
  "reliable B \<longleftrightarrow> (\<forall>d f t. f (db_begin B d) = Inr t \<longrightarrow> fst (db_Update B d f) = None) \<and> (\<forall>t k v. \<exists>t'. txn_Set B t k v = Inr t')"

subsection \<open>Updating many cameras\<close>

lemma ListCameras_law:
  assumes "store_ok B s" "ListCameras B s = (r, s')"
  obtains cams where "r = Inr cams" "store_ok B s'" "distinct (map ID cams)"
    "\<And>i c. coll_map (GetCamera B) s i = Some c \<longleftrightarrow> c \<in> set cams \<and> ID c = i" "coll_map (GetCamera B) s' = coll_map (GetCamera B) s"
proof -
  obtain cams where c: "fst (ListCameras B s) = Inr cams" "distinct (map ID cams)" "\<And>i x. GetCamera B i s = Inr x \<longleftrightarrow> x \<in> set cams \<and> ID x = i"
    using cams.list_law [OF assms(1)] by blast
  have "store_ok B s'" "db s' = db s" using ListCameras_ok [OF assms] by blast+
  moreover from this have "coll_map (GetCamera B) s' = coll_map (GetCamera B) s" by (simp add: coll_map_def GetCamera_def fun_eq_iff)
  moreover have "coll_map (GetCamera B) s i = Some c \<longleftrightarrow> c \<in> set cams \<and> ID c = i" for i c
    using c(3) [of i c] by (auto simp: coll_map_def split: sum.splits)
  ultimately show ?thesis using that [of cams] c(1,2) assms(2) by simp
qed

lemma slice_elems_simps [simp]: "slice_elems None = []" "slice_elems (Some xs) = xs"
  by (simp_all add: slice_elems_def)

lemma tag_loop_filter:
  "tag_loop i tags = (if filter (\<lambda>t. t \<noteq> i) tags = [] then None else Some (filter (\<lambda>t. t \<noteq> i) tags), i \<in> set tags)"
proof -
  have "fold (\<lambda>t (new, changed). if t \<noteq> i then (append_slice new t, changed) else (new, True)) tags (acc, ch) =
    (if filter (\<lambda>t. t \<noteq> i) tags = [] then acc else Some (slice_elems acc @ filter (\<lambda>t. t \<noteq> i) tags), ch \<or> i \<in> set tags)" for acc ch
    by (induction tags arbitrary: acc ch) (auto simp: append_slice_def)
  from this [of None False] show ?thesis by (simp add: tag_loop_def)
qed

lemma drop_tag_elems [simp]: "slice_elems (Tags (fst (drop_tag i c))) = filter (\<lambda>t. t \<noteq> i) (slice_elems (Tags c))"
proof (cases "i \<in> set (slice_elems (Tags c))")
  case False
  then have "filter (\<lambda>t. t \<noteq> i) (slice_elems (Tags c)) = slice_elems (Tags c)" by (intro filter_True) auto
  then show ?thesis using False by (simp add: drop_tag_def tag_loop_filter)
next
  case True
  then show ?thesis
    by (cases "filter (\<lambda>t. t \<noteq> i) (slice_elems (Tags c)) = []") (simp_all add: drop_tag_def tag_loop_filter del: filter_empty_conv)
qed

text \<open>An update that keeps the identifier and the ranges, and reports when it changes nothing.\<close>

definition camera_update :: "(CameraConfig \<Rightarrow> CameraConfig \<times> bool) \<Rightarrow> bool" where
  "camera_update fn \<longleftrightarrow> (\<forall>c. (camera_ok c \<longrightarrow> camera_ok (fst (fn c))) \<and> ID (fst (fn c)) = ID c \<and> (\<not> snd (fn c) \<longrightarrow> fst (fn c) = c))"

lemma camera_update_drop: "camera_update (drop_tag i)" "camera_update drop_folder"
  by (auto simp: camera_update_def drop_tag_def drop_folder_def camera_ok_def split: prod.splits)

lemma UpdateCameraTx_map:
  assumes "store_ok B s" "camera_update fn" "UpdateCameraTx B i fn s = (e, s')"
  shows "store_ok B s'" "(\<And>j. k \<noteq> PrefixCamera @ j) \<Longrightarrow> reads B s' k = reads B s k"
    "coll_map (GetCamera B) s' =
       (if e = None then (coll_map (GetCamera B) s)(i := map_option (\<lambda>c. fst (fn c)) (coll_map (GetCamera B) s i)) else coll_map (GetCamera B) s)"
proof -
  have fn: "camera_ok c \<Longrightarrow> camera_ok (fst (fn c)) \<and> ID (fst (fn c)) = ID c" for c using assms(2) by (simp add: camera_update_def)
  note law = UpdateCameraTx_law [OF assms(1) fn assms(3)]
  show "store_ok B s'" using law by blast
  show "reads B s' k = reads B s k" if "\<And>j. k \<noteq> PrefixCamera @ j" using law that [of i] by (cases e) (auto split: if_splits)
  show "coll_map (GetCamera B) s' =
       (if e = None then (coll_map (GetCamera B) s)(i := map_option (\<lambda>c. fst (fn c)) (coll_map (GetCamera B) s i)) else coll_map (GetCamera B) s)"
  proof (cases e)
    case None
    then obtain c where c: "GetCamera B i s = Inr c" "camera_ok c"
      "reads B s' = (if snd (fn c) then (reads B s)(PrefixCamera @ i := Inr (camera_json (fst (fn c)))) else reads B s)" using law by blast
    have "camera_ok (fst (fn c))" using fn c(2) by blast
    then have "GetCamera B j s' = (if j = i then Inr (fst (fn c)) else GetCamera B j s)" for j
      using c(1,3) assms(2) unfolding Get_loaded by (cases "snd (fn c)") (auto simp: camera_update_def)
    then show ?thesis using None c(1) by (auto simp: coll_map_def fun_eq_iff)
  next
    case (Some x)
    then show ?thesis using law by (simp add: coll_map_ent)
  qed
qed

lemma reliableD: "reliable B \<Longrightarrow> f (db_begin B d) = Inr t \<Longrightarrow> fst (db_Update B d f) = None"
  by (auto simp: reliable_def)

lemma reliable_update:
  assumes "reliable B" "GetCamera B i s = Inr c" shows "fst (UpdateCameraTx B i fn s) = None"
proof -
  let ?t0 = "db_begin B (db s)"
  obtain cam ch where fn: "fn c = (cam, ch)" by force
  obtain t where t: "txn_Set B ?t0 (PrefixCamera @ i) (camera_json cam) = Inr t" using assms(1) unfolding reliable_def by blast
  let ?f = "\<lambda>t. and_then (txn_load B camera_unmarshal t (PrefixCamera @ i))
     (\<lambda>cam. case fn cam of (cam', changed) \<Rightarrow> if changed then txn_Set B t (PrefixCamera @ i) (camera_json cam') else Inr t)"
  have "?f ?t0 = Inr (if ch then t else ?t0)" using assms(2) fn t by (simp add: GetCamera_def)
  then have "fst (db_Update B (db s) ?f) = None" by (rule reliableD [OF assms(1), where f = ?f])
  then show ?thesis by (simp add: UpdateCameraTx_def update_db_def case_prod_beta)
qed

lemma update_cameras:
  assumes "store_ok B s" "camera_update fn" "distinct (map ID cams)"
    and "s' = fold (\<lambda>cam s. if P cam then snd (UpdateCameraTx B (ID cam) fn s) else s) cams s"
  shows "store_ok B s' \<and> (\<forall>k. (\<forall>j. k \<noteq> PrefixCamera @ j) \<longrightarrow> reads B s' k = reads B s k) \<and>
    (\<forall>j. coll_map (GetCamera B) s' j \<in> {coll_map (GetCamera B) s j, map_option (\<lambda>c. fst (fn c)) (coll_map (GetCamera B) s j)}) \<and>
    (\<forall>j. j \<notin> ID ` {c \<in> set cams. P c} \<longrightarrow> coll_map (GetCamera B) s' j = coll_map (GetCamera B) s j) \<and>
    (reliable B \<longrightarrow> (\<forall>c\<in>set cams. P c \<longrightarrow> coll_map (GetCamera B) s' (ID c) = map_option (\<lambda>c. fst (fn c)) (coll_map (GetCamera B) s (ID c))))"
  using assms(1,3,4)
proof (induction cams arbitrary: s)
  case (Cons c cams)
  obtain e u where u: "UpdateCameraTx B (ID c) fn s = (e, u)" by force
  let ?s1 = "if P c then u else s"
  note m = UpdateCameraTx_map [OF Cons.prems(1) assms(2) u]
  have s1: "store_ok B ?s1" "(\<And>j. k \<noteq> PrefixCamera @ j) \<Longrightarrow> reads B ?s1 k = reads B s k"
    "j \<noteq> ID c \<or> \<not> P c \<Longrightarrow> coll_map (GetCamera B) ?s1 j = coll_map (GetCamera B) s j"
    "coll_map (GetCamera B) ?s1 j \<in> {coll_map (GetCamera B) s j, map_option (\<lambda>c. fst (fn c)) (coll_map (GetCamera B) s j)}" for k j
    using m Cons.prems(1) by (auto simp: fun_upd_apply)
  have rel: "coll_map (GetCamera B) ?s1 (ID c) = map_option (\<lambda>c. fst (fn c)) (coll_map (GetCamera B) s (ID c))" if "reliable B" "P c"
  proof (cases "coll_map (GetCamera B) s (ID c)")
    case None
    then show ?thesis using m(3) by simp
  next
    case (Some x)
    then have "GetCamera B (ID c) s = Inr x" by (auto simp: coll_map_def split: sum.splits)
    then have "e = None" using reliable_update [OF that(1), of "ID c" s x fn] u by simp
    then show ?thesis using m(3) that(2) by simp
  qed
  have eq: "s' = fold (\<lambda>cam s. if P cam then snd (UpdateCameraTx B (ID cam) fn s) else s) cams ?s1"
    using Cons.prems(3) u by simp
  have nc: "ID c \<notin> ID ` {x \<in> set cams. P x}" and d: "distinct (map ID cams)" using Cons.prems(2) by auto
  have other: "ID x \<noteq> ID c" if "x \<in> set cams" for x using Cons.prems(2) imageI [OF that, of ID] by auto
  note ih0 = Cons.IH [OF s1(1) d eq]
  have ih: "store_ok B s'" "\<forall>j. k \<noteq> PrefixCamera @ j \<Longrightarrow> reads B s' k = reads B ?s1 k"
    "coll_map (GetCamera B) s' j \<in> {coll_map (GetCamera B) ?s1 j, map_option (\<lambda>c. fst (fn c)) (coll_map (GetCamera B) ?s1 j)}"
    "j \<notin> ID ` {x \<in> set cams. P x} \<Longrightarrow> coll_map (GetCamera B) s' j = coll_map (GetCamera B) ?s1 j"
    "reliable B \<Longrightarrow> x \<in> set cams \<Longrightarrow> P x \<Longrightarrow> coll_map (GetCamera B) s' (ID x) = map_option (\<lambda>c. fst (fn c)) (coll_map (GetCamera B) ?s1 (ID x))"
    for k j x using ih0 by blast+
  show ?case
  proof (intro conjI allI impI ballI)
    show "store_ok B s'" by (rule ih(1))
    show "reads B s' k = reads B s k" if "\<forall>j. k \<noteq> PrefixCamera @ j" for k using ih(2) [OF that] s1(2) [of k] that by simp
    show "coll_map (GetCamera B) s' j \<in> {coll_map (GetCamera B) s j, map_option (\<lambda>c. fst (fn c)) (coll_map (GetCamera B) s j)}" for j
    proof (cases "j = ID c")
      case True
      then have "coll_map (GetCamera B) s' j = coll_map (GetCamera B) ?s1 j" using ih(4) nc by blast
      then show ?thesis using s1(4) [of j] by simp
    next
      case False
      then show ?thesis using ih(3) [of j] s1(3) [of j] by simp
    qed
    show "coll_map (GetCamera B) s' j = coll_map (GetCamera B) s j" if j: "j \<notin> ID ` {x \<in> set (c # cams). P x}" for j
    proof -
      have "j \<notin> ID ` {x \<in> set cams. P x}" "j \<noteq> ID c \<or> \<not> P c" using j by auto
      then show ?thesis using ih(4) [of j] s1(3) [of j] by simp
    qed
    show "coll_map (GetCamera B) s' (ID x) = map_option (\<lambda>c. fst (fn c)) (coll_map (GetCamera B) s (ID x))"
      if r: "reliable B" and x: "x \<in> set (c # cams)" "P x" for x
    proof (cases "x = c")
      case True
      then have "coll_map (GetCamera B) s' (ID x) = coll_map (GetCamera B) ?s1 (ID c)" using ih(4) [OF nc] by simp
      then show ?thesis using rel [OF r] x(2) True by simp
    next
      case False
      then have "x \<in> set cams" using x(1) by auto
      then show ?thesis using ih(5) [OF r _ x(2)] s1(3) [of "ID x"] other by simp
    qed
  qed
qed simp

lemma listed_cameras_law:
  assumes "store_ok B s" "listed_cameras B s = (cams, s')"
  shows "store_ok B s' \<and> reads B s' = reads B s \<and> distinct (map ID cams) \<and>
    (\<forall>i c. coll_map (GetCamera B) s i = Some c \<longleftrightarrow> c \<in> set cams \<and> ID c = i)"
proof -
  obtain r s2 where l: "ListCameras B s = (r, s2)" by force
  from ListCameras_law [OF assms(1) l] obtain cs where c: "r = Inr cs" "store_ok B s2" "distinct (map ID cs)"
    "\<And>i c. coll_map (GetCamera B) s i = Some c \<longleftrightarrow> c \<in> set cs \<and> ID c = i" by blast
  moreover have "db s2 = db s" using ListCameras_ok [OF assms(1) l] by blast
  ultimately show ?thesis using assms(2) l by (simp add: listed_cameras_def reads_def)
qed

text \<open>Deleting the entity stored under \<open>k\<close> and then updating the cameras that satisfy \<open>P\<close>.\<close>

lemma delete_and_update:
  assumes "store_ok B s" "update_db B (\<lambda>t. txn_Delete B t k) s = (e, s1)" "\<And>i. k \<noteq> PrefixCamera @ i"
    and "listed_cameras B s1 = (cams, s2)" "camera_update fn"
    and "s' = fold (\<lambda>cam s. if P cam then snd (UpdateCameraTx B (ID cam) fn s) else s) cams s2"
  shows "store_ok B s1" "store_ok B s'"
    "(\<And>j. k' \<noteq> PrefixCamera @ j) \<Longrightarrow> reads B s' k' = (if e = None \<and> k' = k then Inl ErrKeyNotFound else reads B s k')"
    "coll_map (GetCamera B) s1 = coll_map (GetCamera B) s"
    "coll_map (GetCamera B) s' j \<in> {coll_map (GetCamera B) s j, map_option (\<lambda>c. fst (fn c)) (coll_map (GetCamera B) s j)}"
    "reliable B \<Longrightarrow> coll_map (GetCamera B) s' j =
      map_option (\<lambda>c. if P c then fst (fn c) else c) (coll_map (GetCamera B) s j)"
proof -
  have bo: "badger_ok B" and dok: "data_ok (reads B s)" using assms(1) by (simp_all add: store_ok_def)
  note u = update_del [OF bo assms(2)]
  show s1: "store_ok B s1"
    using u assms(3) data_ok_set(5) [OF dok] dok by (intro store_okI_same_cameras [OF assms(1)]) auto
  show m1: "coll_map (GetCamera B) s1 = coll_map (GetCamera B) s" unfolding coll_map_ent u(1) using assms(3) by (intro ent_map_cong) auto
  have l: "store_ok B s2" "reads B s2 = reads B s1" "distinct (map ID cams)"
    "\<And>i c. coll_map (GetCamera B) s1 i = Some c \<longleftrightarrow> c \<in> set cams \<and> ID c = i"
    using listed_cameras_law [OF s1 assms(4)] by blast+
  have m2: "coll_map (GetCamera B) s2 = coll_map (GetCamera B) s" using l(2) m1 by (simp add: coll_map_ent)
  note up = update_cameras [OF l(1) assms(5) l(3) assms(6), unfolded m2]
  show "store_ok B s'" using up by blast
  show "reads B s' k' = (if e = None \<and> k' = k then Inl ErrKeyNotFound else reads B s k')" if "\<And>j. k' \<noteq> PrefixCamera @ j"
  proof -
    have "reads B s' k' = reads B s2 k'" using up that by blast
    then show ?thesis using l(2) u(1) by simp
  qed
  have up': "coll_map (GetCamera B) s' j \<in> {coll_map (GetCamera B) s j, map_option (\<lambda>c. fst (fn c)) (coll_map (GetCamera B) s j)}"
    "j \<notin> ID ` {x \<in> set cams. P x} \<Longrightarrow> coll_map (GetCamera B) s' j = coll_map (GetCamera B) s j"
    "reliable B \<Longrightarrow> x \<in> set cams \<Longrightarrow> P x \<Longrightarrow> coll_map (GetCamera B) s' (ID x) = map_option (\<lambda>c. fst (fn c)) (coll_map (GetCamera B) s (ID x))"
    for j x using up by blast+
  show "coll_map (GetCamera B) s' j \<in> {coll_map (GetCamera B) s j, map_option (\<lambda>c. fst (fn c)) (coll_map (GetCamera B) s j)}" by (rule up'(1))
  show "coll_map (GetCamera B) s' j = map_option (\<lambda>c. if P c then fst (fn c) else c) (coll_map (GetCamera B) s j)" if r: "reliable B"
  proof (cases "coll_map (GetCamera B) s j")
    case None
    then show ?thesis using up'(1) [of j] by simp
  next
    case (Some c)
    then have c: "c \<in> set cams" "ID c = j" using l(4) [of j c] m1 by simp_all
    have one: "x = c" if "x \<in> set cams" "ID x = j" for x using l(4) [of j x] that m1 Some by simp
    show ?thesis
    proof (cases "P c")
      case True
      then show ?thesis using up'(3) [OF r c(1) True] c(2) Some by simp
    next
      case False
      then have "j \<notin> ID ` {x \<in> set cams. P x}" using one by blast
      then show ?thesis using up'(2) [of j] Some False by simp
    qed
  qed
qed

lemma drop_tag_only: "fst (drop_tag i c) = c\<lparr>Tags := Tags (fst (drop_tag i c))\<rparr>"
  by (simp add: drop_tag_def split: prod.splits)

lemma status_ok_500: "err_reply 500 m \<noteq> status_ok"
  by (simp add: err_reply_def status_ok_def)

lemma DeleteFolder_cleans:
  assumes "store_ok B s" "h_DeleteFolder B i s = (r, s')"
  shows "store_ok B s' \<and> (r = status_ok \<longrightarrow> GetFolder B i s' = Inl ErrKeyNotFound) \<and>
    (reliable B \<and> r = status_ok \<longrightarrow> (\<forall>j. coll_map (GetCamera B) s' j =
       map_option (\<lambda>c. if FolderID c = i then c\<lparr>FolderID := []\<rparr> else c) (coll_map (GetCamera B) s j)))"
proof -
  obtain e s1 where d: "DeleteFolder B i s = (e, s1)" by force
  obtain cams s2 where l: "listed_cameras B s1 = (cams, s2)" by force
  note du = delete_and_update [where P = "\<lambda>c. FolderID c = i", OF assms(1) d [unfolded DeleteFolder_def] _ l camera_update_drop(2) refl]
  show ?thesis
  proof (cases e)
    case None
    then have r: "r = status_ok" "s' = fold (\<lambda>cam s. if FolderID cam = i then snd (UpdateCameraTx B (ID cam) drop_folder s) else s) cams s2"
      using assms(2) d l by (simp_all add: h_DeleteFolder_def)
    have "GetFolder B i s' = Inl ErrKeyNotFound" unfolding Get_loaded r(2) using du(3) [of "PrefixFolder @ i"] None by simp
    moreover have "(\<lambda>c. if FolderID c = i then fst (drop_folder c) else c) = (\<lambda>c. if FolderID c = i then c\<lparr>FolderID := []\<rparr> else c)"
      by (auto simp: drop_folder_def)
    ultimately show ?thesis using du(2,6) r by simp
  next
    case (Some x)
    then show ?thesis using assms(2) d du(1) by (auto simp: h_DeleteFolder_def status_ok_500)
  qed
qed

subsection \<open>What these requests leave of the cameras\<close>

definition relabelled :: "('d, 't) badger_ops \<Rightarrow> 'd Storage \<Rightarrow> 'd Storage \<Rightarrow> bool" where
  "relabelled B s s' \<longleftrightarrow> store_ok B s' \<and> (\<forall>j. rel_option (\<lambda>c c'. c' = c\<lparr>Tags := Tags c', FolderID := FolderID c'\<rparr>)
     (coll_map (GetCamera B) s j) (coll_map (GetCamera B) s' j))"

lemma relabelled_same: "store_ok B s' \<Longrightarrow> coll_map (GetCamera B) s' = coll_map (GetCamera B) s \<Longrightarrow> relabelled B s s'"
  by (auto simp: relabelled_def intro: option.rel_refl)

lemma relabelled_save:
  assumes "store_ok B s"
  shows "relabelled B s (snd (SaveTag B t s))" "relabelled B s (snd (SaveFolder B f s))" "relabelled B s (snd (SaveUser B u s))"
    "relabelled B s (snd (DeleteUser B n s))"
proof -
  have bo: "badger_ok B" using assms by (simp add: store_ok_def)
  show "relabelled B s (snd (SaveTag B t s))"
  proof (cases "SaveTag B t s")
    case (Pair e s')
    then show ?thesis using tags.save_law [OF assms _ Pair] update_set(1) [OF bo Pair [unfolded SaveTag_def]]
      by (auto intro!: relabelled_same ent_map_cong simp: coll_map_ent)
  qed
  show "relabelled B s (snd (SaveFolder B f s))"
  proof (cases "SaveFolder B f s")
    case (Pair e s')
    then show ?thesis using folders.save_law [OF assms _ Pair] update_set(1) [OF bo Pair [unfolded SaveFolder_def]]
      by (auto intro!: relabelled_same ent_map_cong simp: coll_map_ent)
  qed
  show "relabelled B s (snd (SaveUser B u s))"
  proof (cases "SaveUser B u s")
    case (Pair e s')
    then show ?thesis using users.save_law [OF assms _ Pair] update_set(1) [OF bo Pair [unfolded SaveUser_def]]
      by (auto intro!: relabelled_same ent_map_cong simp: coll_map_ent)
  qed
  show "relabelled B s (snd (DeleteUser B n s))"
  proof (cases "DeleteUser B n s")
    case (Pair e s')
    then show ?thesis using users.del_law [OF assms Pair] update_del(1) [OF bo Pair [unfolded DeleteUser_def]]
      by (auto intro!: relabelled_same ent_map_cong simp: coll_map_ent)
  qed
qed

lemma relabelled_delete:
  assumes "store_ok B s"
  shows "relabelled B s (snd (h_DeleteTag B i s))" "relabelled B s (snd (h_DeleteFolder B i s))"
proof -
  have r: "relabelled B s s'" if "store_ok B s'" "camera_update fn" "\<And>c. fst (fn c) = c\<lparr>Tags := Tags (fst (fn c)), FolderID := FolderID (fst (fn c))\<rparr>"
    "\<And>j. coll_map (GetCamera B) s' j \<in> {coll_map (GetCamera B) s j, map_option (\<lambda>c. fst (fn c)) (coll_map (GetCamera B) s j)}" for s' fn
    unfolding relabelled_def
  proof (intro conjI allI that(1))
    fix j
    show "rel_option (\<lambda>c c'. c' = c\<lparr>Tags := Tags c', FolderID := FolderID c'\<rparr>) (coll_map (GetCamera B) s j) (coll_map (GetCamera B) s' j)"
      using that(4) [of j] that(3) by (cases "coll_map (GetCamera B) s j") auto
  qed
  have f: "fst (drop_tag i c) = c\<lparr>Tags := Tags (fst (drop_tag i c)), FolderID := FolderID (fst (drop_tag i c))\<rparr>"
    "fst (drop_folder c) = c\<lparr>Tags := Tags (fst (drop_folder c)), FolderID := FolderID (fst (drop_folder c))\<rparr>" for c
    by (simp_all add: drop_tag_def drop_folder_def split: prod.splits)
  obtain e s1 where d: "DeleteTag B i s = (e, s1)" by force
  obtain cams s2 where l: "listed_cameras B s1 = (cams, s2)" by force
  note du = delete_and_update [where P = "\<lambda>_. True", OF assms d [unfolded DeleteTag_def] _ l camera_update_drop(1) [of i] refl]
  show "relabelled B s (snd (h_DeleteTag B i s))"
    using r [OF du(2) camera_update_drop(1) f(1) du(5)] relabelled_same [OF du(1,4)] d l by (cases e) (simp_all add: h_DeleteTag_def)
  obtain e' s1' where d': "DeleteFolder B i s = (e', s1')" by force
  obtain cams' s2' where l': "listed_cameras B s1' = (cams', s2')" by force
  note du' = delete_and_update [where P = "\<lambda>c. FolderID c = i", OF assms d' [unfolded DeleteFolder_def] _ l' camera_update_drop(2) refl]
  show "relabelled B s (snd (h_DeleteFolder B i s))"
    using r [OF du'(2) camera_update_drop(2) f(2) du'(5)] relabelled_same [OF du'(1,4)] d' l' by (cases e') (simp_all add: h_DeleteFolder_def)
qed

text \<open>Whatever the reply, the store after it is the one the operation left.\<close>

lemma snd_replied: "snd (case p of (Some e, s1) \<Rightarrow> (f e s1, s1) | (None, s1) \<Rightarrow> (g s1, s1)) = snd p"
  by (cases p; cases "fst p") auto

text \<open>A request on users changes the store only through one \<open>SaveUser\<close> or \<open>DeleteUser\<close>.\<close>

lemma user_req_cases:
  "run_user_req E C B q s = s \<or> (\<exists>u. run_user_req E C B q s = snd (SaveUser B u s)) \<or> (\<exists>n. run_user_req E C B q s = snd (DeleteUser B n s))"
proof (cases q)
  case (AddReq salt body)
  then show ?thesis by (auto simp: h_AddUser_def Let_def snd_replied split: option.split)
next
  case (EditReq salt n body)
  then show ?thesis by (auto simp: h_EditUser_def Let_def snd_replied split: option.split sum.split)
next
  case (DeleteReq n)
  then show ?thesis by (auto simp: h_DeleteUser_def snd_replied split: sum.split)
qed

lemma entity_step_relabels:
  assumes "entity_step B s s'" "store_ok B s" shows "relabelled B s s'"
  using assms
proof (cases rule: entity_step.cases)
  case (1 body)
  then show ?thesis using relabelled_save(1) [OF assms(2)] relabelled_same [OF assms(2) refl]
    by (simp add: h_AddTag_def snd_replied split: option.split sum.split)
next
  case (2 i body)
  then show ?thesis using relabelled_save(1) [OF assms(2)] relabelled_same [OF assms(2) refl]
    by (simp add: h_EditTag_def snd_replied split: option.split sum.split)
next
  case (4 body)
  then show ?thesis using relabelled_save(2) [OF assms(2)] relabelled_same [OF assms(2) refl]
    by (simp add: h_AddFolder_def snd_replied split: option.split sum.split)
next
  case (5 i body)
  then show ?thesis using relabelled_save(2) [OF assms(2)] relabelled_same [OF assms(2) refl]
    by (simp add: h_EditFolder_def snd_replied split: option.split sum.split)
next
  case (7 E C q)
  then show ?thesis using user_req_cases [of E C B q s] relabelled_save(3,4) [OF assms(2)] relabelled_same [OF assms(2) refl] by metis
qed (use relabelled_delete [OF assms(2)] in simp_all)

subsection \<open>Administrators\<close>

lemma GetUser_name: "store_ok B s \<Longrightarrow> GetUser B n s = Inr u \<Longrightarrow> Username u = n"
  using users.list_law by metis

lemma two_admins:
  assumes "distinct (map Username us)" "1 < adminCount us"
  shows "\<exists>u\<in>set us. Role u = RoleAdmin \<and> Username u \<noteq> n"
proof -
  let ?as = "filter (\<lambda>u. Role u = RoleAdmin) us"
  obtain a xs where x: "?as = a # xs" "xs \<noteq> []" using assms(2) by (cases ?as) (auto simp: adminCount_def)
  then obtain b rest where f: "?as = a # b # rest" by (cases xs) auto
  have "distinct (map Username ?as)" using assms(1) by (rule distinct_map_filter)
  then have "Username a \<noteq> Username b" unfolding f by simp
  moreover have "a \<in> set ?as" "b \<in> set ?as" unfolding f by simp_all
  ultimately show ?thesis by (cases "Username a = n") auto
qed

lemma another_admin:
  assumes "store_ok B s" "\<not> last_admin B s" shows "\<exists>m u. GetUser B m s = Inr u \<and> Role u = RoleAdmin \<and> m \<noteq> n"
proof -
  obtain us where us: "ListUsers B s = Inr us" "distinct (map Username us)" "\<And>i x. GetUser B i s = Inr x \<longleftrightarrow> x \<in> set us \<and> Username x = i"
    using users.list_law [OF assms(1)] by blast
  then have "1 < adminCount us" using assms(2) by (simp add: last_admin_def)
  then obtain u where "u \<in> set us" "Role u = RoleAdmin" "Username u \<noteq> n" using two_admins [OF us(2)] by blast
  then show ?thesis using us(3) by blast
qed

text \<open>Writing or removing one user keeps an administrator if another one exists or the written one is one.\<close>

lemma has_admin_save:
  assumes "store_ok B s" "SaveUser B x s = (e, s')" "has_admin B s"
    and "Role x = RoleAdmin \<or> (\<exists>m u. GetUser B m s = Inr u \<and> Role u = RoleAdmin \<and> m \<noteq> Username x)"
  shows "store_ok B s' \<and> has_admin B s'"
proof -
  have "store_ok B s'" and g: "\<And>i. GetUser B i s' = (if e = None \<and> i = Username x then Inr x else GetUser B i s)"
    using users.save_law [OF assms(1) _ assms(2)] by simp_all
  moreover have "has_admin B s'"
  proof (cases e)
    case None
    then show ?thesis using assms(4) unfolding has_admin_def g by metis
  next
    case (Some y)
    then show ?thesis using assms(3) unfolding has_admin_def g by simp
  qed
  ultimately show ?thesis by blast
qed

lemma has_admin_delete:
  assumes "store_ok B s" "DeleteUser B n s = (e, s')" "has_admin B s" "\<exists>m u. GetUser B m s = Inr u \<and> Role u = RoleAdmin \<and> m \<noteq> n"
  shows "store_ok B s' \<and> has_admin B s'"
proof -
  have "store_ok B s'" and g: "\<And>i. GetUser B i s' = (if e = None \<and> i = n then Inl ErrNotFound else GetUser B i s)"
    using users.del_law [OF assms(1,2)] by simp_all
  moreover have "has_admin B s'" using assms(4) unfolding has_admin_def g by metis
  ultimately show ?thesis by blast
qed

lemma other_admin:
  assumes "has_admin B s" "\<And>u. GetUser B n s = Inr u \<Longrightarrow> Role u \<noteq> RoleAdmin"
  shows "\<exists>m u. GetUser B m s = Inr u \<and> Role u = RoleAdmin \<and> m \<noteq> n"
  using assms unfolding has_admin_def by blast

lemma AddUser_keeps_admin:
  assumes "store_ok B s" "has_admin B s" "\<not> names_admin B (AddReq salt body) s" "h_AddUser E C B salt body s = (r, s')"
  shows "store_ok B s' \<and> has_admin B s'"
proof (cases "s' = s")
  case False
  obtain input h e where i: "bind_json add_fields no_input body = Some input"
    and sv: "SaveUser B \<lparr>Username = in_Username input, PasswordHash = h, Role = in_Role input\<rparr> s = (e, s')"
    using assms(4) False by (auto simp: h_AddUser_def Let_def split: option.splits if_splits prod.splits)
  let ?u = "\<lparr>Username = in_Username input, PasswordHash = h, Role = in_Role input\<rparr>"
  have "in_Role input = RoleAdmin \<or> (\<forall>u. GetUser B (in_Username input) s = Inr u \<longrightarrow> Role u \<noteq> RoleAdmin)"
    using assms(3) i by (auto simp: names_admin_def)
  then have "Role ?u = RoleAdmin \<or> (\<exists>m u. GetUser B m s = Inr u \<and> Role u = RoleAdmin \<and> m \<noteq> Username ?u)"
    using other_admin [OF assms(2), of "in_Username input"] by (cases "in_Role input = RoleAdmin") auto
  from has_admin_save [OF assms(1) sv assms(2) this] show ?thesis .
qed (use assms in simp)

lemma EditUser_keeps_admin:
  assumes "store_ok B s" "has_admin B s" "h_EditUser E C B salt n body s = (r, s')"
  shows "store_ok B s' \<and> has_admin B s'"
proof (cases "s' = s")
  case False
  obtain input where i: "bind_json edit_fields no_input body = Some input"
    using assms(3) False by (cases "bind_json edit_fields no_input body") (auto simp: h_EditUser_def)
  obtain u0 where u0: "GetUser B n s = Inr u0" using assms(3) False i by (cases "GetUser B n s") (auto simp: h_EditUser_def)
  let ?pw = "if in_Password input \<noteq> [] then map_option (\<lambda>h. u0\<lparr>PasswordHash := h\<rparr>) (GenerateFromPassword C salt (in_Password input)) else Some u0"
  obtain u1 where u1: "?pw = Some u1" using assms(3) False i u0 by (cases ?pw) (auto simp: h_EditUser_def)
  let ?u = "if in_Role input \<noteq> [] then u1\<lparr>Role := in_Role input\<rparr> else u1"
  let ?last = "in_Role input \<noteq> [] \<and> in_Role input \<noteq> Role u1 \<and> Role u1 = RoleAdmin \<and> last_admin B s"
  obtain e s1 where sv1: "SaveUser B ?u s = (e, s1)" by force
  have h: "(if ?last then (err_reply 400 ''Cannot demote the last remaining administrator'', s)
      else (case (e, s1) of (Some e, s1) \<Rightarrow> (err_reply 500 (E e), s1) | (None, s1) \<Rightarrow> ((200, user_json ?u), s1))) = (r, s')"
    using assms(3) unfolding h_EditUser_def i option.case u0 sum.case u1 Let_def sv1 .
  have u: "Username u1 = Username u0" "Role u1 = Role u0" using u1 by (auto split: if_splits)
  have g: "\<not> ?last"
  proof
    assume l: ?last
    show False using h False unfolding if_P [OF l] by simp
  qed
  have "s1 = s'" using h unfolding if_not_P [OF g] by (cases e) simp_all
  then have sv: "SaveUser B ?u s = (e, s')" using sv1 by simp
  have n: "Username ?u = n" using GetUser_name [OF assms(1) u0] u(1) by simp
  have "Role ?u = RoleAdmin \<or> (\<exists>m u. GetUser B m s = Inr u \<and> Role u = RoleAdmin \<and> m \<noteq> n)"
  proof (cases "Role u0 = RoleAdmin")
    case True
    show ?thesis
    proof (cases "last_admin B s")
      case True
      then show ?thesis using u(2) g \<open>Role u0 = RoleAdmin\<close> by auto
    qed (use another_admin [OF assms(1)] in blast)
  next
    case False
    then show ?thesis using other_admin [OF assms(2), of n] u0 by simp
  qed
  then show ?thesis using has_admin_save [OF assms(1) sv assms(2)] n by simp
qed (use assms in simp)

lemma DeleteUser_keeps_admin:
  assumes "store_ok B s" "has_admin B s" "h_DeleteUser E B n s = (r, s')"
  shows "store_ok B s' \<and> has_admin B s'"
proof (cases "s' = s")
  case False
  obtain u e where u: "GetUser B n s = Inr u" "\<not> (Role u = RoleAdmin \<and> last_admin B s)" and dl: "DeleteUser B n s = (e, s')"
    using assms(3) False by (auto simp: h_DeleteUser_def split: option.splits if_splits prod.splits sum.splits)
  have "\<exists>m u. GetUser B m s = Inr u \<and> Role u = RoleAdmin \<and> m \<noteq> n"
    using other_admin [OF assms(2), of n] another_admin [OF assms(1), of n] u(1,2) by (cases "Role u = RoleAdmin") simp_all
  then show ?thesis by (rule has_admin_delete [OF assms(1) dl assms(2)])
qed (use assms in simp)

lemma user_reqs_keep_admin:
  "store_ok B s \<Longrightarrow> has_admin B s \<Longrightarrow> run_user_reqs E C B qs s = Some s' \<Longrightarrow> store_ok B s' \<and> has_admin B s'"
proof (induction qs arbitrary: s)
  case (Cons q qs)
  have q: "\<not> names_admin B q s" "run_user_reqs E C B qs (run_user_req E C B q s) = Some s'" using Cons.prems(3) by (simp_all split: if_splits)
  have "store_ok B (run_user_req E C B q s) \<and> has_admin B (run_user_req E C B q s)"
  proof (cases q)
    case (AddReq salt body)
    then show ?thesis using AddUser_keeps_admin [OF Cons.prems(1,2)] q(1) by (cases "h_AddUser E C B salt body s") auto
  next
    case (EditReq salt u body)
    then show ?thesis using EditUser_keeps_admin [OF Cons.prems(1,2)] by (cases "h_EditUser E C B salt u body s") auto
  next
    case (DeleteReq u)
    then show ?thesis using DeleteUser_keeps_admin [OF Cons.prems(1,2)] by (cases "h_DeleteUser E B u s") auto
  qed
  then show ?case using Cons.IH q(2) by blast
qed simp

subsection \<open>Properties\<close>


definition root_store :: "mem_db Storage" where
  "root_store = \<lparr>db = [(PrefixUser @ ''root'', user_json demo_admin)], cachedCameras = None\<rparr>"

lemma SaveUser_root: "SaveUser mem_badger demo_admin demo_store = (None, root_store)"
  by (simp add: SaveUser_def update_db_def demo_store_def root_store_def) (simp add: demo_admin_def)

lemma root_store_ok: "store_ok mem_badger root_store" "GetUser mem_badger n root_store = (if n = ''root'' then Inr demo_admin else Inl ErrNotFound)"
proof -
  note law = users.save_law [OF demo_store_ok _ SaveUser_root]
  show "store_ok mem_badger root_store" using law by simp
  have "GetUser mem_badger n demo_store = Inl ErrNotFound" by (simp add: Get_loaded reads_def demo_store_def)
  then show "GetUser mem_badger n root_store = (if n = ''root'' then Inr demo_admin else Inl ErrNotFound)"
    using law by (simp add: demo_admin_def)
qed


text \<open>Adding a user does not check the name: it replaces the last administrator.\<close>

lemma add_user_replaces_last_admin:
  "\<exists>r s'. h_AddUser E plain_bcrypt mem_badger salt
       (Some (JObj [(''username'', JStr ''root''), (''password'', JStr ''x''), (''role'', JStr ''viewer'')])) root_store = ((201, r), s') \<and>
     \<not> has_admin mem_badger s'"
proof -
  let ?u = "\<lparr>Username = ''root'', PasswordHash = ''x'', Role = ''viewer''\<rparr>"
  obtain e s' where sv: "SaveUser mem_badger ?u root_store = (e, s')" by force
  then have e: "e = None" by (simp add: SaveUser_def update_db_def split: prod.splits)
  have "GetUser mem_badger n s' = (if n = ''root'' then Inr ?u else Inl ErrNotFound)" for n
    using users.save_law [OF root_store_ok(1) _ sv] e root_store_ok(2) by simp
  then have "\<not> has_admin mem_badger s'" unfolding has_admin_def by auto
  moreover have "h_AddUser E plain_bcrypt mem_badger salt
       (Some (JObj [(''username'', JStr ''root''), (''password'', JStr ''x''), (''role'', JStr ''viewer'')])) root_store = ((201, user_json ?u), s')"
    using sv e by (simp add: h_AddUser_def bind_json_def json_defs add_fields_def edit_fields_def no_input_def plain_bcrypt_def)
  ultimately show ?thesis by blast
qed

text \<open>Deleting a tag removes exactly that tag. When the request succeeds the tag is gone and, if the
  database commits, no camera has it any more and each camera keeps its other tags in order and all
  its other settings; a camera whose update fails is unchanged; folders and users are untouched;
  when the request fails nothing changes.\<close>

theorem delete_tag_cleans:
  assumes "store_ok B s" "h_DeleteTag B i s = (r, s')"
  shows "store_ok B s' \<and>
    (\<forall>j. GetTag B j s' = (if r = status_ok \<and> j = i then Inl ErrKeyNotFound else GetTag B j s)) \<and>
    (\<forall>j. GetFolder B j s' = GetFolder B j s) \<and> (\<forall>u. GetUser B u s' = GetUser B u s) \<and>
    dom (coll_map (GetCamera B) s') = dom (coll_map (GetCamera B) s) \<and>
    (\<forall>j c'. GetCamera B j s' = Inr c' \<longrightarrow> (\<exists>c. GetCamera B j s = Inr c \<and> c' = c\<lparr>Tags := Tags c'\<rparr> \<and>
       (if r = status_ok \<and> reliable B then slice_elems (Tags c') = filter (\<lambda>t. t \<noteq> i) (slice_elems (Tags c))
        else Tags c' = Tags c \<or> r = status_ok \<and> slice_elems (Tags c') = filter (\<lambda>t. t \<noteq> i) (slice_elems (Tags c)))))"
proof -
  obtain e s1 where d: "DeleteTag B i s = (e, s1)" by force
  obtain cams s2 where l: "listed_cameras B s1 = (cams, s2)" by force
  note du = delete_and_update [where P = "\<lambda>_. True", OF assms(1) d [unfolded DeleteTag_def] _ l camera_update_drop(1) [of i] refl]
  have gc: "GetCamera B j s = Inr c \<longleftrightarrow> coll_map (GetCamera B) s j = Some c" for s j c by (auto simp: coll_map_def split: sum.splits)
  show ?thesis
  proof (cases e)
    case None
    then have r: "r = status_ok" "s' = fold (\<lambda>cam s. if True then snd (UpdateCameraTx B (ID cam) (drop_tag i) s) else s) cams s2"
      using assms(2) d l by (simp_all add: h_DeleteTag_def)
    note k = du(3) [folded r(2)]
    have c: "\<exists>c. GetCamera B j s = Inr c \<and> c' = c\<lparr>Tags := Tags c'\<rparr> \<and>
       (if r = status_ok \<and> reliable B then slice_elems (Tags c') = filter (\<lambda>t. t \<noteq> i) (slice_elems (Tags c))
        else Tags c' = Tags c \<or> r = status_ok \<and> slice_elems (Tags c') = filter (\<lambda>t. t \<noteq> i) (slice_elems (Tags c)))"
      if "GetCamera B j s' = Inr c'" for j c'
      using that du(5) [folded r(2), of j] du(6) [folded r(2), of j] drop_tag_only r(1) unfolding gc
      by (cases "coll_map (GetCamera B) s j") auto
    have "GetTag B j s' = (if r = status_ok \<and> j = i then Inl ErrKeyNotFound else GetTag B j s)" "GetFolder B j s' = GetFolder B j s"
      "GetUser B u s' = GetUser B u s" for j u using k r(1) None by (simp_all add: Get_loaded)
    moreover have "store_ok B s'" using du(2) [folded r(2)] by simp
    moreover have "dom (coll_map (GetCamera B) s') = dom (coll_map (GetCamera B) s)"
    proof (rule set_eqI)
      show "j \<in> dom (coll_map (GetCamera B) s') \<longleftrightarrow> j \<in> dom (coll_map (GetCamera B) s)" for j
        using du(5) [folded r(2), of j] by (cases "coll_map (GetCamera B) s j") auto
    qed
    ultimately show ?thesis using c by blast
  next
    case (Some x)
    then have r: "r = err_reply 500 ''Failed to delete tag''" "s' = s1" using assms(2) d by (simp_all add: h_DeleteTag_def)
    have "badger_ok B" using assms(1) by (simp add: store_ok_def)
    then have "reads B s1 = reads B s" using update_del(1) [OF _ d [unfolded DeleteTag_def]] Some by simp
    then show ?thesis using du(1) r status_ok_500 by (simp add: Get_loaded coll_map_ent)
  qed
qed

lemma mem_reliable: "reliable mem_badger"
  by (simp add: reliable_def)

lemma delete_tag_cleans_witness:
  "\<exists>s' c'. h_DeleteTag mem_badger ''x'' (snd (SaveCamera mem_badger (zero_camera\<lparr>ID := ''a'', Tags := Some [''x'', ''y'']\<rparr>) demo_store)) = (status_ok, s') \<and>
     GetCamera mem_badger ''a'' s' = Inr c' \<and> slice_elems (Tags c') = [''y'']"
proof -
  let ?c = "zero_camera\<lparr>ID := ''a'', Tags := Some [''x'', ''y'']\<rparr>"
  obtain e s where sv: "SaveCamera mem_badger ?c demo_store = (e, s)" by force
  then have e: "e = None" by (simp add: SaveCamera_def update_db_def split: prod.splits)
  have c: "camera_ok ?c" by (simp add: camera_ok_def zero_camera_def in_s64_def)
  have s: "store_ok mem_badger s" "GetCamera mem_badger ''a'' s = Inr ?c"
    using cams.save_law [OF demo_store_ok c sv] e by (auto simp: zero_camera_def)
  obtain r s' where d: "h_DeleteTag mem_badger ''x'' s = (r, s')" by (rule prod.exhaust)
  have r: "r = status_ok" using d by (simp add: h_DeleteTag_def DeleteTag_def update_db_def split: prod.splits)
  have "''a'' \<in> dom (coll_map (GetCamera mem_badger) s')" using delete_tag_cleans [OF s(1) d] s(2) by (auto simp: coll_map_def)
  then obtain c' where c': "GetCamera mem_badger ''a'' s' = Inr c'" by (auto simp: coll_map_def split: sum.splits)
  then obtain c where "GetCamera mem_badger ''a'' s = Inr c" "slice_elems (Tags c') = filter (\<lambda>t. t \<noteq> ''x'') (slice_elems (Tags c))"
    using delete_tag_cleans [OF s(1) d] r mem_reliable by (metis (no_types, lifting))
  then have "slice_elems (Tags c') = [''y'']" using s(2) by auto
  then show ?thesis using sv d r c' by auto
qed

end
