(* ===== verification/Api_Cameras.thy ===== *)
theory Api_Cameras
  imports Api_Entities Stream_Manager ClientTracker
begin

text \<open>
  The camera handlers of \<open>internal/api/handler.go\<close> (list, add, edit, delete, backup export and import), the
  response cache of the listing, and the start-up loop of \<open>pkg/engine/engine.go\<close> that starts the stored
  cameras. A handler is a function of the request's parts, the clock and the handler state; its
  outcome is a panic or a reply with the new state. Requests run one at a time, and the bit rate in a
  listing is a whole number.

  Shown: the running streams and the stored cameras agree. After start-up, and then in every
  interleaving of camera requests, backup imports, requests on tags, folders and users, billing flushes and the streams' own activity,
  whether or not the database fails, the registered streams are exactly those of the stored
  enabled cameras, each with its camera's settings.
\<close>

record ('w, 'd) Handler =
  h_manager :: "'w Manager"
  h_store :: "'d Storage"
  h_tracker :: tracker
  camerasCache :: "(json \<times> int) option"

definition NewHandler :: "'w Manager \<Rightarrow> 'd Storage \<Rightarrow> ('w, 'd) Handler" where
  "NewHandler m s = \<lparr>h_manager = m, h_store = s, h_tracker = NewClientTracker, camerasCache = None\<rparr>"

definition cacheTTL :: int where
  "cacheTTL = 250 * 1000000"

definition InvalidateCamerasCache :: "('w, 'd) Handler \<Rightarrow> ('w, 'd) Handler" where
  "InvalidateCamerasCache h = h\<lparr>camerasCache := None\<rparr>"

subsection \<open>Listing\<close>

definition state_str :: "CameraState \<Rightarrow> string" where
  "state_str s = (case s of StateConnecting \<Rightarrow> ''connecting'' | StateOnline \<Rightarrow> ''online'' | StateDegraded \<Rightarrow> ''degraded''
     | StateOffline \<Rightarrow> ''offline'' | StateDisabled \<Rightarrow> ''disabled'')"

definition no_stats :: CameraStats where
  "no_stats = \<lparr>cs_State = StateOffline, cs_BytesReceived = 0, cs_BytesSent = 0, cs_Uptime = 0, cs_Frames = 0, cs_KeyFrames = 0,
     cs_Reconnects = 0, cs_Codec = ''-'', cs_LastFrameTime = 0, cs_LastKeyTime = 0, cs_LastError = [], cs_Bitrate = 0\<rparr>"

text \<open>\<open>CameraInfo\<close>, in the order of its fields; \<open>uint64(s.Uptime)\<close> wraps.\<close>

definition CameraInfo :: "CameraConfig \<Rightarrow> CameraStats \<Rightarrow> json" where
  "CameraInfo cam s = JObj
     [(''id'', JStr (ID cam)), (''url'', JStr (URL cam)), (''state'', JStr (state_str (cs_State s))), (''record'', JBool (Record cam)),
      (''retentionDays'', JInt (RetentionDays cam)), (''tags'', e_slice JStr (Tags cam)), (''folderId'', JStr (FolderID cam)),
      (''comment'', JStr (Comment cam)), (''simPhone'', JStr (SimPhone cam)), (''simICCID'', JStr (SimICCID cam)),
      (''trafficLimit'', JInt (int (TrafficLimit cam))), (''trafficUsed'', JInt (int (TrafficUsed cam))),
      (''uptime'', JInt (cs_Uptime s mod 2 ^ 64)), (''bytesReceived'', JInt (int (cs_BytesReceived s))),
      (''bytesSent'', JInt (int (cs_BytesSent s))), (''frames'', JInt (int (cs_Frames s))), (''keyFrames'', JInt (int (cs_KeyFrames s))),
      (''codec'', JStr (cs_Codec s)), (''lastFrameTime'', JInt (cs_LastFrameTime s)), (''lastKeyTime'', JInt (cs_LastKeyTime s)),
      (''lastError'', JStr (cs_LastError s)), (''reconnects'', JInt (int (cs_Reconnects s))), (''bitrate'', JInt (int (cs_Bitrate s))),
      (''lazyHLS'', JBool (LazyHLS cam)), (''tokenAuth'', JBool (TokenAuth cam)), (''disabled'', JBool (Disabled cam)),
      (''disableReason'', JStr (DisableReason cam)), (''disableHistory'', e_slice dr_json (DisableHistory cam)),
      (''recordHistory'', e_slice dr_json (RecordHistory cam))]"

text \<open>The statistics of a camera's stream, if it is among the registered ones.\<close>

definition stats_of :: "int \<Rightarrow> 'w Manager \<Rightarrow> string \<Rightarrow> CameraStats" where
  "stats_of now m i =
     (case streams m i of
        None \<Rightarrow> no_stats
      | Some a \<Rightarrow> (case objs m a of None \<Rightarrow> no_stats | Some st \<Rightarrow> GetStats (now div second) st))"

text \<open>The singleflight group makes the rebuild one step.\<close>

definition rebuild_cameras :: "('d, 't) badger_ops \<Rightarrow> int \<Rightarrow> ('w, 'd) Handler \<Rightarrow> reply \<times> ('w, 'd) Handler" where
  "rebuild_cameras B now h =
     (case ListCameras B (h_store h) of
        (r, s1) \<Rightarrow>
          let cams = (case r of Inl _ \<Rightarrow> [] | Inr cs \<Rightarrow> cs);
              data = JArr (map (\<lambda>cam. CameraInfo cam (stats_of now (h_manager h) (ID cam))) cams)
          in ((200, data), h\<lparr>h_store := s1, camerasCache := Some (data, now)\<rparr>))"

definition GetCameras :: "('d, 't) badger_ops \<Rightarrow> int \<Rightarrow> ('w, 'd) Handler \<Rightarrow> reply \<times> ('w, 'd) Handler" where
  "GetCameras B now h =
     (case camerasCache h of
        Some (data, ts) \<Rightarrow> if now - ts < cacheTTL then ((200, data), h) else rebuild_cameras B now h
      | None \<Rightarrow> rebuild_cameras B now h)"

subsection \<open>Adding, editing, deleting\<close>

text \<open>White space is ASCII; identifiers are ASCII strings.\<close>

definition is_space :: "char \<Rightarrow> bool" where
  "is_space c \<longleftrightarrow> (let n = of_char c :: nat in 9 \<le> n \<and> n \<le> 13 \<or> n = 32)"

definition TrimSpace :: "string \<Rightarrow> string" where
  "TrimSpace s = rev (dropWhile is_space (rev (dropWhile is_space s)))"

definition upsert :: "int \<Rightarrow> CameraConfig \<Rightarrow> 'w Manager \<Rightarrow> 'w Manager outcome" where
  "upsert now cam m = UpsertStream now (ID cam) (URL cam) (Record cam) (LazyHLS cam) (Transport cam) (TokenAuth cam) (Disabled cam) m"

definition h_AddCamera :: "('d, 't) badger_ops \<Rightarrow> int \<Rightarrow> json option \<Rightarrow> ('w, 'd) Handler \<Rightarrow> (reply \<times> ('w, 'd) Handler) outcome" where
  "h_AddCamera B now body h =
     (case bind_json camera_fields zero_camera body of
        None \<Rightarrow> Inr (err_reply 400 ''Invalid input'', h)
      | Some cam0 \<Rightarrow>
          let cam = cam0\<lparr>ID := TrimSpace (ID cam0)\<rparr> in
          if ID cam = [] then Inr (err_reply 400 ''Camera ID cannot be empty'', h)
          else (case GetCamera B (ID cam) (h_store h) of
                  Inr _ \<Rightarrow> Inr (err_reply 409 (''Camera with ID '' @ [CHR 0x27] @ ID cam @ [CHR 0x27] @ '' already exists''), h)
                | Inl _ \<Rightarrow>
                    (case SaveCamera B cam (h_store h) of
                       (Some _, s1) \<Rightarrow> Inr (err_reply 500 ''Failed to save camera to DB'', h\<lparr>h_store := s1\<rparr>)
                     | (None, s1) \<Rightarrow>
                         and_then (upsert now cam (h_manager h)) (\<lambda>m1.
                           Inr (status_ok, InvalidateCamerasCache (h\<lparr>h_store := s1, h_manager := m1\<rparr>))))))"

definition h_DeleteCamera :: "('d, 't) badger_ops \<Rightarrow> string \<Rightarrow> ('w, 'd) Handler \<Rightarrow> (reply \<times> ('w, 'd) Handler) outcome" where
  "h_DeleteCamera B i h =
     (case GetCamera B i (h_store h) of
        Inl _ \<Rightarrow> Inr (err_reply 404 (''Camera '' @ [CHR 0x27] @ i @ [CHR 0x27] @ '' not found''), h)
      | Inr _ \<Rightarrow>
          (case DeleteCamera B i (h_store h) of
             (Some _, s1) \<Rightarrow> Inr (err_reply 500 ''Failed to delete camera'', h\<lparr>h_store := s1\<rparr>)
           | (None, s1) \<Rightarrow>
               and_then (RemoveStream i (h_manager h)) (\<lambda>m1.
                 Inr (status_ok, InvalidateCamerasCache (h\<lparr>h_store := s1, h_manager := m1\<rparr>)))))"

text \<open>The update function of \<open>EditCamera\<close>; \<open>ts\<close> is the current time in RFC 3339.\<close>

definition edit_camera :: "string \<Rightarrow> CameraConfig \<Rightarrow> CameraConfig \<Rightarrow> CameraConfig" where
  "edit_camera ts req cam =
     (let cam1 = cam\<lparr>URL := URL req, RetentionDays := RetentionDays req, Tags := Tags req, FolderID := FolderID req,
            Comment := Comment req, SimPhone := SimPhone req, SimICCID := SimICCID req, LazyHLS := LazyHLS req,
            TokenAuth := TokenAuth req, Transport := Transport req\<rparr>;
          cam2 = (if Record cam1 \<noteq> Record req
            then cam1\<lparr>RecordHistory := append_slice (RecordHistory cam1)
                   \<lparr>dr_Timestamp = ts, dr_Action = (if \<not> Record req then ''disable'' else ''enable''), dr_Reason = []\<rparr>\<rparr>
            else cam1);
          cam3 = (if Disabled cam2 \<noteq> Disabled req
            then cam2\<lparr>DisableHistory := append_slice (DisableHistory cam2)
                   \<lparr>dr_Timestamp = ts, dr_Action = (if Disabled req then ''disable'' else ''enable''), dr_Reason = DisableReason req\<rparr>\<rparr>
            else cam2)
      in cam3\<lparr>Disabled := Disabled req, DisableReason := DisableReason req, Record := Record req\<rparr>)"

definition h_EditCamera :: "('d, 't) badger_ops \<Rightarrow> int \<Rightarrow> string \<Rightarrow> string \<Rightarrow> json option \<Rightarrow> ('w, 'd) Handler \<Rightarrow> (reply \<times> ('w, 'd) Handler) outcome" where
  "h_EditCamera B now ts i body h =
     (case bind_json camera_fields zero_camera body of
        None \<Rightarrow> Inr (err_reply 400 ''Invalid input'', h)
      | Some req0 \<Rightarrow>
          let req = req0\<lparr>ID := i\<rparr> in
          (case UpdateCameraTx B i (\<lambda>cam. (edit_camera ts req cam, True)) (h_store h) of
             (Some _, s1) \<Rightarrow>
               Inr (err_reply 404 (''Camera '' @ [CHR 0x27] @ i @ [CHR 0x27] @ '' not found or failed to update''), h\<lparr>h_store := s1\<rparr>)
           | (None, s1) \<Rightarrow>
               and_then (upsert now req (h_manager h)) (\<lambda>m1.
                 Inr (status_ok, InvalidateCamerasCache (h\<lparr>h_store := s1, h_manager := m1\<rparr>)))))"

subsection \<open>Backups\<close>

definition h_ExportBackupJSON :: "err_text \<Rightarrow> ('d, 't) badger_ops \<Rightarrow> ('w, 'd) Handler \<Rightarrow> reply \<times> ('w, 'd) Handler" where
  "h_ExportBackupJSON E B h =
     (case ExportJSON B (h_store h) of
        (Inl e, s1) \<Rightarrow> (err_reply 500 (''Failed to generate backup: '' @ E e), h\<lparr>h_store := s1\<rparr>)
      | (Inr data, s1) \<Rightarrow> ((200, data), h\<lparr>h_store := s1\<rparr>))"

definition maxBackupSize :: int where
  "maxBackupSize = 50 * 2 ^ 20"

text \<open>What the multipart form gives: no file, or its size and what opening and reading it gives.\<close>

datatype upload = NoFile | OpenFails int | ReadFails int | Upload int "json option"

fun upload_size :: "upload \<Rightarrow> int" where
  "upload_size NoFile = 0"
| "upload_size (OpenFails n) = n"
| "upload_size (ReadFails n) = n"
| "upload_size (Upload n _) = n"

definition sync_streams :: "('d, 't) badger_ops \<Rightarrow> int \<Rightarrow> string list \<Rightarrow> ('w, 'd) Handler \<Rightarrow> (store_err option \<times> ('w, 'd) Handler) outcome" where
  "sync_streams B now order h =
     (case ListCameras B (h_store h) of
        (r, s1) \<Rightarrow> and_then (SyncWithStorage now r order (h_manager h)) (\<lambda>(e, m1). Inr (e, h\<lparr>h_store := s1, h_manager := m1\<rparr>)))"

definition h_ImportBackupJSON :: "err_text \<Rightarrow> ('d, 't) badger_ops \<Rightarrow> int \<Rightarrow> string list \<Rightarrow> upload \<Rightarrow> ('w, 'd) Handler \<Rightarrow> (reply \<times> ('w, 'd) Handler) outcome" where
  "h_ImportBackupJSON E B now order up h =
     (if up = NoFile then Inr (err_reply 400 ''No backup file provided'', h)
      else if maxBackupSize < upload_size up then Inr (err_reply 400 ''Backup file exceeds maximum allowed size (50MB)'', h)
      else (case up of
              Upload _ data \<Rightarrow>
                (case ImportJSON B data (h_store h) of
                   (Some e, s1) \<Rightarrow> Inr (err_reply 500 (''Failed to import backup: '' @ E e), h\<lparr>h_store := s1\<rparr>)
                 | (None, s1) \<Rightarrow>
                     and_then (sync_streams B now order (h\<lparr>h_store := s1\<rparr>)) (\<lambda>(e, h1).
                       case e of
                         Some e' \<Rightarrow> Inr (err_reply 500 (''Failed to sync streams: '' @ E e'), h1)
                       | None \<Rightarrow> Inr ((200, JObj [(''message'', JStr ''Backup imported and streams restarted successfully.'')]), InvalidateCamerasCache h1)))
            | OpenFails _ \<Rightarrow> Inr (err_reply 500 ''Failed to open uploaded file'', h)
            | _ \<Rightarrow> Inr (err_reply 500 ''Failed to read uploaded file'', h)))"

subsection \<open>Start-up\<close>

definition start_camera :: "int \<Rightarrow> CameraConfig \<Rightarrow> 'w Manager \<Rightarrow> 'w Manager outcome" where
  "start_camera now cam m =
     (if \<not> Disabled cam
      then and_then (AddStream now (ID cam) (URL cam) (Record cam) (LazyHLS cam) (Transport cam) (TokenAuth cam) m) (\<lambda>(_, m'). Inr m')
      else Inr m)"

text \<open>The part of \<open>Run\<close> from the migration of the cameras of \<open>config.yaml\<close> to the handler; \<open>None\<close> when the
  migration fails or the cameras cannot be loaded and the process exits.\<close>

definition boot :: "('d, 't) badger_ops \<Rightarrow> int \<Rightarrow> Config option \<Rightarrow> 'd Storage \<Rightarrow> ('w, 'd) Handler outcome option" where
  "boot B now cfg s =
     (case MigrateFromConfig B cfg s of
        (Some _, _) \<Rightarrow> None
      | (None, s0) \<Rightarrow>
          (case ListCameras B s0 of
             (Inl _, _) \<Rightarrow> None
           | (Inr cams, s1) \<Rightarrow> Some (and_then (for_each (start_camera now) cams NewManager) (\<lambda>m. Inr (NewHandler m s1)))))"

subsection \<open>The running system\<close>

text \<open>What a stream does on its own, whatever camera requests arrive.\<close>

inductive stream_act :: "'w Stream \<Rightarrow> 'w Stream \<Rightarrow> bool" where
  "on_frame now nalus pts k s = Inr (s', ev) \<Longrightarrow> stream_act s s'"
| "stream_act s (on_params vps sps pps s)"
| "stream_act s (fst (connection_lost err s))"
| "TickHousekeeping now s = Inr s' \<Longrightarrow> stream_act s s'"
| "WakeUpHLSMuxer now s = Inr s' \<Longrightarrow> \<not> ctx_done s \<Longrightarrow> stream_act s s'"
| "stream_act s (AddBytesSent n s)"

definition covers :: "('d, 't) badger_ops \<Rightarrow> string list \<Rightarrow> upload \<Rightarrow> ('w, 'd) Handler \<Rightarrow> bool" where
  "covers B order up h \<longleftrightarrow> (\<forall>n data s1 cams s2. up = Upload n data \<and> ImportJSON B data (h_store h) = (None, s1) \<and>
     ListCameras B s1 = (Inr cams, s2) \<longrightarrow> dom (streams (h_manager h)) \<union> active_ids cams \<subseteq> set order)"

inductive api_step :: "('d, 't) badger_ops \<Rightarrow> ('w, 'd) Handler \<Rightarrow> ('w, 'd) Handler \<Rightarrow> bool" for B where
  listing: "GetCameras B now h = (r, h') \<Longrightarrow> api_step B h h'"
| add: "h_AddCamera B now body h = Inr (r, h') \<Longrightarrow> api_step B h h'"
| edit: "h_EditCamera B now ts i body h = Inr (r, h') \<Longrightarrow> api_step B h h'"
| delete: "h_DeleteCamera B i h = Inr (r, h') \<Longrightarrow> api_step B h h'"
| export: "h_ExportBackupJSON E B h = (r, h') \<Longrightarrow> api_step B h h'"
| import: "h_ImportBackupJSON E B now order up h = Inr (r, h') \<Longrightarrow> covers B order up h \<Longrightarrow> api_step B h h'"
| billing: "distinct (map fst us) \<Longrightarrow> BatchUpdateTraffic B us mo (h_store h) = (e, s') \<Longrightarrow> api_step B h (h\<lparr>h_store := s'\<rparr>)"
| entities: "entity_step B (h_store h) s' \<Longrightarrow> api_step B h (h\<lparr>h_store := s'\<rparr>)"
| activity: "objs (h_manager h) a = Some s \<Longrightarrow> stream_act s s' \<Longrightarrow>
    api_step B h (h\<lparr>h_manager := (h_manager h)\<lparr>objs := (objs (h_manager h))(a \<mapsto> s')\<rparr>\<rparr>)"

inductive api_reach :: "('d, 't) badger_ops \<Rightarrow> Config option \<Rightarrow> 'd Storage \<Rightarrow> ('w, 'd) Handler \<Rightarrow> bool" for B cfg s where
  start: "boot B now cfg s = Some (Inr h) \<Longrightarrow> api_reach B cfg s h"
| step: "api_reach B cfg s h \<Longrightarrow> api_step B h h' \<Longrightarrow> api_reach B cfg s h'"

text \<open>The cameras of \<open>config.yaml\<close> are in the range of their Go types.\<close>

definition config_cameras_ok :: "Config option \<Rightarrow> bool" where
  "config_cameras_ok cfg \<longleftrightarrow> (\<forall>c. cfg = Some c \<longrightarrow> list_all camera_ok (Cameras c))"

text \<open>The stored camera \<open>c\<close> (if any) and the registered stream of an identifier agree.\<close>

definition in_step :: "'w Manager \<Rightarrow> string \<Rightarrow> CameraConfig option \<Rightarrow> bool" where
  "in_step m i c \<longleftrightarrow>
     (case c of
        Some cam \<Rightarrow> if Disabled cam then streams m i = None
                    else (\<exists>a s. streams m i = Some a \<and> objs m a = Some s \<and> \<not> ctx_done s \<and> matches_cam s cam)
      | None \<Rightarrow> streams m i = None)"

definition same_pipeline :: "CameraConfig \<Rightarrow> CameraConfig \<Rightarrow> bool" where
  "same_pipeline c c' \<longleftrightarrow> URL c = URL c' \<and> Record c = Record c' \<and> LazyHLS c = LazyHLS c' \<and> Transport c = Transport c' \<and>
     TokenAuth c = TokenAuth c' \<and> Disabled c = Disabled c'"

definition api_ok :: "('d, 't) badger_ops \<Rightarrow> ('w, 'd) Handler \<Rightarrow> bool" where
  "api_ok B h \<longleftrightarrow> mgr_inv (h_manager h) [] \<and> store_ok B (h_store h) \<and>
     (\<forall>i. in_step (h_manager h) i (coll_map (GetCamera B) (h_store h) i))"

subsection \<open>Lemmas\<close>

lemma GetCamera_Some: "GetCamera B i s = Inr c \<longleftrightarrow> coll_map (GetCamera B) s i = Some c"
  by (auto simp: coll_map_def split: sum.splits)

lemma stored_camera_id: "store_ok B s \<Longrightarrow> coll_map (GetCamera B) s i = Some c \<Longrightarrow> ID c = i"
  using cams.list_law by (metis GetCamera_Some)

lemma in_step_same:
  assumes "in_step m i c" "streams m' i = streams m i" "\<And>b. streams m i = Some b \<Longrightarrow> objs m' b = objs m b"
  shows "in_step m' i c"
  using assms by (auto simp: in_step_def split: option.splits if_splits)

lemma upsert_in_step:
  assumes "mgr_inv m []" "upsert now cam m = Inr m'"
  shows "mgr_inv m' [] \<and> in_step m' (ID cam) (Some cam) \<and> (\<forall>i c. i \<noteq> ID cam \<and> in_step m i c \<longrightarrow> in_step m' i c)"
proof -
  from UpsertStream_ok [OF assms(1), of now "ID cam" "URL cam" "Record cam" "LazyHLS cam" "Transport cam" "TokenAuth cam" "Disabled cam"]
  have u: "mgr_inv m' []" "if Disabled cam then streams m' (ID cam) = None
     else \<exists>a s. streams m' (ID cam) = Some a \<and> objs m' a = Some s \<and> matches_cam s cam"
    "\<And>j. j \<noteq> ID cam \<Longrightarrow> streams m' j = streams m j" "\<And>j b. j \<noteq> ID cam \<Longrightarrow> streams m j = Some b \<Longrightarrow> objs m' b = objs m b"
    using assms(2) by (auto simp: upsert_def matches_cam_def)
  have "in_step m' (ID cam) (Some cam)"
    using u(2) mgr_invD(3) [OF u(1), of "ID cam"] by (fastforce simp: in_step_def split: if_splits)
  moreover have "in_step m' i c" if "i \<noteq> ID cam" "in_step m i c" for i c
    by (rule in_step_same [OF that(2) u(3) [OF that(1)] u(4) [OF that(1)]])
  ultimately show ?thesis using u(1) by blast
qed

lemma upsert_total: "mgr_inv m [] \<Longrightarrow> \<exists>m'. upsert now cam m = Inr m'"
  using UpsertStream_ok unfolding upsert_def by blast

text \<open>A store change that only touches one identifier, followed by bringing its stream in step.\<close>

lemma api_okI:
  assumes "mgr_inv m []" "store_ok B s" "\<And>i. in_step m i (coll_map (GetCamera B) s i)"
  shows "api_ok B (h\<lparr>h_store := s, h_manager := m\<rparr>)"
  using assms by (simp add: api_ok_def)

lemma api_ok_cache [simp]: "api_ok B (InvalidateCamerasCache h) = api_ok B h" "api_ok B (h\<lparr>camerasCache := c\<rparr>) = api_ok B h"
  by (simp_all add: InvalidateCamerasCache_def api_ok_def)

lemma api_ok_store:
  assumes "api_ok B h" "store_ok B s" "coll_map (GetCamera B) s = coll_map (GetCamera B) (h_store h)"
  shows "api_ok B (h\<lparr>h_store := s\<rparr>)"
  using assms by (simp add: api_ok_def)

lemma in_step_cong: "same_pipeline c c' \<Longrightarrow> in_step m i (Some c) = in_step m i (Some c')"
  by (simp add: same_pipeline_def in_step_def matches_cam_def)

lemma same_pipeline_edit: "same_pipeline (edit_camera ts req cam) req"
  by (simp add: same_pipeline_def edit_camera_def Let_def)

lemma same_pipeline_bill: "same_pipeline (bill mo d c) c"
  by (simp add: same_pipeline_def bill_def Let_def)

lemma edit_camera_ok: "camera_ok req \<Longrightarrow> camera_ok cam \<Longrightarrow> camera_ok (edit_camera ts req cam) \<and> ID (edit_camera ts req cam) = ID cam"
  by (simp add: camera_ok_def edit_camera_def Let_def)

lemma save_upsert_ok:
  assumes "api_ok B h" "store_ok B s1" "coll_map (GetCamera B) s1 = (coll_map (GetCamera B) (h_store h))(ID cam \<mapsto> cam')"
    and "same_pipeline cam' cam" "upsert now cam (h_manager h) = Inr m1"
  shows "api_ok B (h\<lparr>h_store := s1, h_manager := m1\<rparr>)"
proof (rule api_okI)
  have "mgr_inv (h_manager h) []" using assms(1) by (simp add: api_ok_def)
  note u = upsert_in_step [OF this assms(5)]
  show "mgr_inv m1 []" using u by blast
  show "store_ok B s1" by (rule assms(2))
  show "in_step m1 i (coll_map (GetCamera B) s1 i)" for i
    using u assms(1) in_step_cong [OF assms(4)] unfolding assms(3) by (auto simp: api_ok_def)
qed

lemma bind_camera_ok: "bind_json camera_fields zero_camera body = Some c \<Longrightarrow> camera_ok (c\<lparr>ID := i\<rparr>)"
  using camera_decoded_ok by (auto simp: bind_json_def camera_ok_def split: option.splits)

lemma AddCamera_ok:
  assumes "api_ok B h"
  shows "\<exists>r h'. h_AddCamera B now body h = Inr (r, h') \<and> api_ok B h'"
proof (cases "bind_json camera_fields zero_camera body")
  case (Some cam0)
  let ?cam = "cam0\<lparr>ID := TrimSpace (ID cam0)\<rparr>"
  have inv: "mgr_inv (h_manager h) []" "store_ok B (h_store h)" using assms by (simp_all add: api_ok_def)
  show ?thesis
  proof (cases "ID ?cam = [] \<or> (\<exists>c. GetCamera B (ID ?cam) (h_store h) = Inr c)")
    case True
    then show ?thesis using Some assms by (auto simp: h_AddCamera_def Let_def)
  next
    case False
    then obtain e0 where e0: "GetCamera B (ID ?cam) (h_store h) = Inl e0" by (metis sumE)
    obtain e s1 where sv: "SaveCamera B ?cam (h_store h) = (e, s1)" by force
    note law = cams.save_law [OF inv(2) bind_camera_ok [OF Some] sv]
    obtain m1 where m1: "upsert now ?cam (h_manager h) = Inr m1" using upsert_total [OF inv(1)] by blast
    show ?thesis
    proof (cases e)
      case None
      then have "coll_map (GetCamera B) s1 = (coll_map (GetCamera B) (h_store h))(ID ?cam \<mapsto> ?cam)"
        using law by (auto simp: coll_map_def fun_eq_iff)
      then have "api_ok B (h\<lparr>h_store := s1, h_manager := m1\<rparr>)"
        using save_upsert_ok [OF assms _ _ _ m1, of s1 ?cam] law by (simp add: same_pipeline_def)
      then show ?thesis using Some False e0 sv None m1 by (simp add: h_AddCamera_def Let_def)
    next
      case err: (Some x)
      then have "api_ok B (h\<lparr>h_store := s1\<rparr>)" using law by (intro api_ok_store [OF assms]) (simp_all add: coll_map_def fun_eq_iff)
      then show ?thesis using Some False e0 sv err by (simp add: h_AddCamera_def Let_def)
    qed
  qed
qed (use assms in \<open>simp add: h_AddCamera_def\<close>)

lemma EditCamera_ok:
  assumes "api_ok B h"
  shows "\<exists>r h'. h_EditCamera B now ts i body h = Inr (r, h') \<and> api_ok B h'"
proof (cases "bind_json camera_fields zero_camera body")
  case (Some req0)
  let ?req = "req0\<lparr>ID := i\<rparr>" and ?fn = "\<lambda>cam. (edit_camera ts (req0\<lparr>ID := i\<rparr>) cam, True)"
  have inv: "mgr_inv (h_manager h) []" "store_ok B (h_store h)" using assms by (simp_all add: api_ok_def)
  obtain e s1 where up: "UpdateCameraTx B i ?fn (h_store h) = (e, s1)" by force
  have fn: "camera_ok (fst (?fn c)) \<and> ID (fst (?fn c)) = ID c" if "camera_ok c" for c
    using edit_camera_ok [OF bind_camera_ok [OF Some] that] by simp
  note law = UpdateCameraTx_law [OF inv(2) fn up]
  obtain m1 where m1: "upsert now ?req (h_manager h) = Inr m1" using upsert_total [OF inv(1)] by blast
  show ?thesis
  proof (cases e)
    case None
    then obtain c where c: "GetCamera B i (h_store h) = Inr c" "camera_ok c"
      "reads B s1 = (reads B (h_store h))(PrefixCamera @ i := Inr (camera_json (edit_camera ts ?req c)))"
      using law by auto
    have "camera_ok (edit_camera ts ?req c)" using fn [OF c(2)] by simp
    then have "coll_map (GetCamera B) s1 = (coll_map (GetCamera B) (h_store h))(ID ?req \<mapsto> edit_camera ts ?req c)"
      unfolding coll_map_def Get_loaded c(3) by (auto simp: fun_eq_iff)
    then have "api_ok B (h\<lparr>h_store := s1, h_manager := m1\<rparr>)"
      using save_upsert_ok [OF assms _ _ same_pipeline_edit m1] law by simp
    then show ?thesis using Some up None m1 by (simp add: h_EditCamera_def Let_def)
  next
    case err: (Some x)
    then have "api_ok B (h\<lparr>h_store := s1\<rparr>)" using law by (intro api_ok_store [OF assms]) (simp_all add: coll_map_def fun_eq_iff Get_loaded)
    then show ?thesis using Some up err by (simp add: h_EditCamera_def Let_def)
  qed
qed (use assms in \<open>simp add: h_EditCamera_def\<close>)

lemma DeleteCamera_ok:
  assumes "api_ok B h"
  shows "\<exists>r h'. h_DeleteCamera B i h = Inr (r, h') \<and> api_ok B h'"
proof (cases "GetCamera B i (h_store h)")
  case (Inr c)
  have inv: "mgr_inv (h_manager h) []" "store_ok B (h_store h)" using assms by (simp_all add: api_ok_def)
  obtain e s1 where dl: "DeleteCamera B i (h_store h) = (e, s1)" by force
  note law = cams.del_law [OF inv(2) dl]
  obtain m1 where m1: "RemoveStream i (h_manager h) = Inr m1" "mgr_inv m1 []" "streams m1 = (streams (h_manager h))(i := None)"
    "\<And>b. streams (h_manager h) i \<noteq> Some b \<Longrightarrow> objs m1 b = objs (h_manager h) b" using RemoveStream_ok [OF inv(1)] by blast
  show ?thesis
  proof (cases e)
    case None
    have "in_step m1 j (coll_map (GetCamera B) s1 j)" for j
    proof (cases "j = i")
      case True
      then show ?thesis using law None m1(3) by (simp add: in_step_def coll_map_def)
    next
      case False
      then have "coll_map (GetCamera B) s1 j = coll_map (GetCamera B) (h_store h) j" using law by (simp add: coll_map_def)
      moreover have "objs m1 b = objs (h_manager h) b" if "streams (h_manager h) j = Some b" for b
        using m1(4) [of b] one_id [OF inv(1) that, of i] False by auto
      ultimately show ?thesis using in_step_same [of "h_manager h" j _ m1] assms False m1(3) by (auto simp: api_ok_def)
    qed
    then have "api_ok B (h\<lparr>h_store := s1, h_manager := m1\<rparr>)" using api_okI [OF m1(2), of B s1] law by blast
    then show ?thesis using Inr dl None m1(1) by (simp add: h_DeleteCamera_def)
  next
    case (Some x)
    then have "api_ok B (h\<lparr>h_store := s1\<rparr>)" using law by (intro api_ok_store [OF assms]) (simp_all add: coll_map_def fun_eq_iff)
    then show ?thesis using Inr dl Some by (simp add: h_DeleteCamera_def)
  qed
qed (use assms in \<open>simp add: h_DeleteCamera_def\<close>)

subsection \<open>Listing, backups, billing\<close>

lemma listing_ok:
  assumes "api_ok B h" "ListCameras B (h_store h) = (r, s1)"
  shows "api_ok B (h\<lparr>h_store := s1\<rparr>)"
proof -
  have "store_ok B (h_store h)" using assms(1) by (simp add: api_ok_def)
  from ListCameras_law [OF this assms(2)] show ?thesis by (metis api_ok_store [OF assms(1)])
qed

lemma GetCameras_ok:
  assumes "api_ok B h" "GetCameras B now h = (r, h')" shows "api_ok B h'"
proof -
  obtain r1 s1 where l: "ListCameras B (h_store h) = (r1, s1)" by force
  have "h' = h \<or> (\<exists>d. h' = h\<lparr>h_store := s1, camerasCache := d\<rparr>)"
    using assms(2) l by (auto simp: GetCameras_def rebuild_cameras_def Let_def split: option.splits if_splits)
  then show ?thesis using assms(1) listing_ok [OF assms(1) l] by auto
qed

lemma ExportBackupJSON_ok:
  assumes "api_ok B h" "h_ExportBackupJSON E B h = (r, h')" shows "api_ok B h'"
proof -
  obtain r1 s1 where l: "ListCameras B (h_store h) = (r1, s1)" by force
  have "h' = h\<lparr>h_store := s1\<rparr>"
    using assms(2) l by (auto simp: h_ExportBackupJSON_def ExportJSON_def split: sum.splits prod.splits)
  then show ?thesis using listing_ok [OF assms(1) l] by simp
qed

lemma sync_streams_ok:
  assumes "mgr_inv (h_manager h) []" "store_ok B (h_store h)"
    and ord: "\<And>cams s2. ListCameras B (h_store h) = (Inr cams, s2) \<Longrightarrow> dom (streams (h_manager h)) \<union> active_ids cams \<subseteq> set order"
  shows "\<exists>h'. sync_streams B now order h = Inr (None, h') \<and> api_ok B h'"
proof -
  obtain r s2 where l: "ListCameras B (h_store h) = (r, s2)" by force
  from ListCameras_law [OF assms(2) l] obtain cams where c: "r = Inr cams" "store_ok B s2" "distinct (map ID cams)"
    "\<And>i c. coll_map (GetCamera B) (h_store h) i = Some c \<longleftrightarrow> c \<in> set cams \<and> ID c = i" "coll_map (GetCamera B) s2 = coll_map (GetCamera B) (h_store h)"
    by blast
  obtain m' where m': "SyncWithStorage now (Inr cams) order (h_manager h) = Inr (None, m')" "mgr_inv m' []"
    "dom (streams m') = active_ids cams" "\<And>x. x \<in> set cams \<Longrightarrow> \<not> Disabled x \<Longrightarrow> served x (h_manager h) m'"
    using SyncWithStorage_ok [OF assms(1) c(3) ord] l c(1) by blast
  have one: "x = y" if "x \<in> set cams" "y \<in> set cams" "ID x = ID y" for x y
    using c(4) [of "ID x" x] c(4) [of "ID x" y] that by simp
  have "in_step m' i (coll_map (GetCamera B) s2 i)" for i
  proof (cases "coll_map (GetCamera B) s2 i")
    case None
    then have "c \<notin> set cams \<or> ID c \<noteq> i" for c using c(4) [of i c] c(5) by simp
    then have "i \<notin> active_ids cams" unfolding active_ids_def by blast
    then show ?thesis using None m'(3) by (auto simp: in_step_def)
  next
    case (Some x)
    then have x: "x \<in> set cams" "ID x = i" using c(4,5) by simp_all
    show ?thesis
    proof (cases "Disabled x")
      case True
      have "Disabled y" if "y \<in> set cams" "ID y = i" for y using one [OF x(1) that(1)] x(2) that(2) True by simp
      then have "i \<notin> active_ids cams" unfolding active_ids_def by blast
      then show ?thesis using Some True m'(3) by (auto simp: in_step_def)
    next
      case False
      then obtain a t where a: "streams m' i = Some a" "objs m' a = Some t" "matches_cam t x"
        using m'(4) [OF x(1)] x(2) unfolding served_def by blast
      then have "\<not> ctx_done t" using mgr_invD(3) [OF m'(2) a(1)] by simp
      then show ?thesis using a Some False by (simp add: in_step_def)
    qed
  qed
  then have "api_ok B (h\<lparr>h_store := s2, h_manager := m'\<rparr>)" by (rule api_okI [OF m'(2) c(2)])
  then show ?thesis using l c(1) m'(1) by (simp add: sync_streams_def)
qed

lemma ImportBackupJSON_ok:
  assumes "api_ok B h" "covers B order up h"
  shows "\<exists>r h'. h_ImportBackupJSON E B now order up h = Inr (r, h') \<and> api_ok B h'"
proof (cases "up = NoFile \<or> maxBackupSize < upload_size up")
  case False
  show ?thesis
  proof (cases up)
    case (Upload n data)
    obtain e s1 where i: "ImportJSON B data (h_store h) = (e, s1)" by force
    have inv: "mgr_inv (h_manager h) []" "store_ok B (h_store h)" using assms(1) by (simp_all add: api_ok_def)
    note law = ImportJSON_ok [OF inv(2) i]
    show ?thesis
    proof (cases e)
      case None
      have "\<exists>h'. sync_streams B now order (h\<lparr>h_store := s1\<rparr>) = Inr (None, h') \<and> api_ok B h'"
        using assms(2) Upload i None law inv(1) by (intro sync_streams_ok) (auto simp: covers_def)
      then show ?thesis using False Upload i None by (auto simp: h_ImportBackupJSON_def)
    next
      case (Some x)
      then have "api_ok B (h\<lparr>h_store := s1\<rparr>)" using law by (intro api_ok_store [OF assms(1)]) (simp_all add: coll_map_ent)
      then show ?thesis using False Upload i Some by (auto simp: h_ImportBackupJSON_def)
    qed
  qed (use False assms(1) in \<open>auto simp: h_ImportBackupJSON_def\<close>)
qed (use assms(1) in \<open>auto simp: h_ImportBackupJSON_def\<close>)

lemma billing_ok:
  assumes "api_ok B h" "distinct (map fst us)" "BatchUpdateTraffic B us mo (h_store h) = (e, s')"
  shows "api_ok B (h\<lparr>h_store := s'\<rparr>)"
proof -
  have inv: "mgr_inv (h_manager h) []" "store_ok B (h_store h)" using assms(1) by (simp_all add: api_ok_def)
  obtain n where n: "store_ok B s'" "\<And>i. coll_map (GetCamera B) s' i = (case map_of (take n us) i of
          None \<Rightarrow> coll_map (GetCamera B) (h_store h) i
        | Some d \<Rightarrow> map_option (bill mo d) (coll_map (GetCamera B) (h_store h) i))"
    using BatchUpdateTraffic_law [OF inv(2) assms(2,3)] by blast
  have "in_step (h_manager h) i (coll_map (GetCamera B) s' i)" for i
  proof -
    have "in_step (h_manager h) i (coll_map (GetCamera B) (h_store h) i)" using assms(1) by (simp add: api_ok_def)
    then show ?thesis unfolding n(2)
      by (cases "coll_map (GetCamera B) (h_store h) i")
        (simp_all add: in_step_cong [OF same_pipeline_bill] split: option.split)
  qed
  then show ?thesis using n(1) inv(1) by (simp add: api_ok_def)
qed

lemma entities_ok:
  assumes "api_ok B h" "entity_step B (h_store h) s'"
  shows "api_ok B (h\<lparr>h_store := s'\<rparr>)"
proof -
  have inv: "mgr_inv (h_manager h) []" "store_ok B (h_store h)" using assms(1) by (simp_all add: api_ok_def)
  note r = entity_step_relabels [OF assms(2) inv(2), unfolded relabelled_def]
  have "in_step (h_manager h) i (coll_map (GetCamera B) s' i)" for i
  proof -
    have st: "in_step (h_manager h) i (coll_map (GetCamera B) (h_store h) i)" using assms(1) by (simp add: api_ok_def)
    have ri: "rel_option (\<lambda>c c'. c' = c\<lparr>Tags := Tags c', FolderID := FolderID c'\<rparr>)
      (coll_map (GetCamera B) (h_store h) i) (coll_map (GetCamera B) s' i)" using r by blast
    show ?thesis
    proof (cases "coll_map (GetCamera B) (h_store h) i")
      case None
      then have "coll_map (GetCamera B) s' i = None" using ri by simp
      then show ?thesis using st None by simp
    next
      case (Some c)
      then obtain c' where c': "coll_map (GetCamera B) s' i = Some c'" "c' = c\<lparr>Tags := Tags c', FolderID := FolderID c'\<rparr>"
        using ri by (auto simp: option_rel_Some1)
      have "same_pipeline c' c" by (subst c'(2)) (simp add: same_pipeline_def)
      then show ?thesis using st c'(1) Some by (simp add: in_step_cong)
    qed
  qed
  then show ?thesis using r inv(1) by (simp add: api_ok_def)
qed

subsection \<open>The streams' own activity\<close>

definition same_config :: "'w Stream \<Rightarrow> 'w Stream \<Rightarrow> bool" where
  "same_config s s' \<longleftrightarrow> st_ID s' = st_ID s \<and> ctx_done s' = ctx_done s \<and> st_URL s' = st_URL s \<and> st_transport s' = st_transport s \<and>
     st_tokenAuth s' = st_tokenAuth s \<and> st_lazyHLS s' = st_lazyHLS s \<and> mp4Recorder s' = mp4Recorder s"

lemma same_config_matches: "same_config s s' \<Longrightarrow> matches_cam s' c = matches_cam s c"
  by (simp add: same_config_def matches_cam_def MatchesConfig_def MatchesPipelineConfig_def)

lemma stop_muxer_config: "stop_muxer s None = Inr s' \<Longrightarrow> same_config s s'"
  by (auto simp: stop_muxer_def same_config_def and_then_eq_Inr split: option.splits)

lemma tick_config:
  assumes "TickHousekeeping now s = Inr s'" shows "same_config s s'"
proof -
  let ?s = "tick_bitrate now s" and ?idle = "st_lazyHLS (tick_bitrate now s) \<and> 0 < lastHLSRequest (tick_bitrate now s) \<and>
    60 * second < now - lastHLSRequest (tick_bitrate now s)"
  have t: "same_config s ?s" by (simp add: same_config_def tick_bitrate_def Let_def)
  obtain s1 where s1: "(if ?idle then stop_muxer ?s None else Inr ?s) = Inr s1"
    "s' = s1\<lparr>hlsMuxer := map_option (\<lambda>(m, sub). (CheckWatchdog now m, sub)) (hlsMuxer s1)\<rparr>"
    using assms unfolding TickHousekeeping_def Let_def and_then_eq_Inr by blast
  have "same_config ?s s1"
  proof (cases ?idle)
    case True
    then show ?thesis using s1(1) stop_muxer_config by simp
  next
    case False
    then show ?thesis using s1(1) by (simp add: same_config_def if_not_P)
  qed
  then show ?thesis using t s1(2) by (simp add: same_config_def)
qed

lemma on_frame_config: "on_frame now nalus pts k s = Inr (s', ev) \<Longrightarrow> same_config s s'"
  by (cases k; cases "st_state s = StateOnline") (auto simp: on_frame_def Let_def same_config_def and_then_eq_Inr)

lemma stream_act_ok:
  assumes "stream_act s s'" "stream_inv s" shows "stream_inv s' \<and> same_config s s'"
  using assms
proof (induction rule: stream_act.induct)
  case (1 now nalus pts k s s' ev)
  then show ?case using on_frame_ok [OF 1(2), of now nalus pts k] on_frame_config by auto
next
  case (2 s vps sps pps)
  then show ?case by (simp add: on_params_def SetParams_def stream_inv_def ring_inv_def reader_ok_def same_config_def)
next
  case (3 s err)
  then show ?case by (simp add: connection_lost_def Let_def stream_inv_def same_config_def split: option.split)
next
  case (4 now s s')
  then show ?case using TickHousekeeping_ok [OF 4(2), of now] tick_config by auto
next
  case (5 now s s')
  let ?s = "s\<lparr>lastHLSRequest := now\<rparr>"
  have i: "stream_inv ?s" using 5(3) by (simp add: stream_inv_def)
  show ?case
  proof (cases "hlsMuxer s")
    case None
    then show ?thesis using start_muxer_ok [OF i, of now] 5(1) by (auto simp: WakeUpHLSMuxer_def Let_def same_config_def)
  next
    case (Some m)
    then show ?thesis using i 5(1) by (auto simp: WakeUpHLSMuxer_def Let_def same_config_def)
  qed
next
  case (6 s n)
  then show ?case by (simp add: AddBytesSent_def stream_inv_def same_config_def)
qed

lemma activity_ok:
  assumes "api_ok B h" "objs (h_manager h) a = Some s" "stream_act s s'"
  shows "api_ok B (h\<lparr>h_manager := (h_manager h)\<lparr>objs := (objs (h_manager h))(a \<mapsto> s')\<rparr>\<rparr>)"
proof -
  let ?m = "h_manager h" and ?m' = "(h_manager h)\<lparr>objs := (objs (h_manager h))(a \<mapsto> s')\<rparr>"
  have inv: "mgr_inv ?m []" "store_ok B (h_store h)" using assms(1) by (simp_all add: api_ok_def)
  note d = mgr_invD [OF inv(1)]
  have s': "stream_inv s'" "same_config s s'" using stream_act_ok [OF assms(3) d(5) [OF assms(2)]] by simp_all
  have m': "mgr_inv ?m' []"
  proof (rule mgr_invI)
    show "\<exists>t. objs ?m' b = Some t \<and> \<not> ctx_done t \<and> st_ID t = i" if "streams ?m' i = Some b" for i b
      using d(3) [of i b] that s'(2) assms(2) by (auto simp: same_config_def)
    show "ctx_done t" if "objs ?m' b = Some t" "b \<notin> ran (streams ?m')" "b \<notin> set []" for b t
      using d(6) [of b] that s'(2) assms(2) by (auto simp: same_config_def split: if_splits)
  qed (use d s' assms(2) in \<open>auto split: if_splits\<close>)
  have "in_step ?m' i (coll_map (GetCamera B) (h_store h) i)" for i
  proof -
    have "in_step ?m i (coll_map (GetCamera B) (h_store h) i)" using assms(1) by (simp add: api_ok_def)
    then show ?thesis
      using same_config_matches [OF s'(2)] s'(2) assms(2) by (auto simp: in_step_def same_config_def split: option.splits if_splits)
  qed
  then show ?thesis using m' inv(2) by (simp add: api_ok_def)
qed

subsection \<open>Start-up\<close>

lemma start_cameras_ok:
  assumes "mgr_inv m []" "distinct (map ID cams)" "\<And>c. c \<in> set cams \<Longrightarrow> streams m (ID c) = None"
  shows "\<exists>m'. for_each (start_camera now) cams m = Inr m' \<and> mgr_inv m' [] \<and>
    (\<forall>i. i \<notin> ID ` set cams \<longrightarrow> streams m' i = streams m i \<and> (\<forall>b. streams m i = Some b \<longrightarrow> objs m' b = objs m b)) \<and>
    (\<forall>c\<in>set cams. in_step m' (ID c) (Some c))"
  using assms
proof (induction cams arbitrary: m)
  case (Cons c cams)
  have c: "\<exists>m1. start_camera now c m = Inr m1 \<and> mgr_inv m1 [] \<and> in_step m1 (ID c) (Some c) \<and>
    (\<forall>i. i \<noteq> ID c \<longrightarrow> streams m1 i = streams m i \<and> (\<forall>b. streams m i = Some b \<longrightarrow> objs m1 b = objs m b))"
  proof (cases "Disabled c")
    case True
    then show ?thesis using Cons.prems by (auto simp: start_camera_def in_step_def)
  next
    case False
    obtain m1 s where m1: "AddStream now (ID c) (URL c) (Record c) (LazyHLS c) (Transport c) (TokenAuth c) m = Inr (None, m1)" "mgr_inv m1 []"
      "streams m1 = (streams m)(ID c \<mapsto> mgr_fresh m)" "objs m1 = (objs m)(mgr_fresh m \<mapsto> s)" "matches_cam s c"
      using AddStream_ok [OF Cons.prems(1), of "ID c" now "URL c" "Record c" "LazyHLS c" "Transport c" "TokenAuth c"] Cons.prems(3)
      by (auto simp: matches_cam_def)
    have "mgr_fresh m \<noteq> b" if "streams m i = Some b" for i b
      using mgr_invD(3) [OF Cons.prems(1) that] mgr_invD(4) [OF Cons.prems(1)] by blast
    moreover have "\<not> ctx_done s" using mgr_invD(3) [OF m1(2), of "ID c"] m1(3,4) by simp
    ultimately show ?thesis using m1 False by (auto simp: start_camera_def in_step_def)
  qed
  then obtain m1 where m1: "start_camera now c m = Inr m1" "mgr_inv m1 []" "in_step m1 (ID c) (Some c)"
    "\<And>i. i \<noteq> ID c \<Longrightarrow> streams m1 i = streams m i \<and> (\<forall>b. streams m i = Some b \<longrightarrow> objs m1 b = objs m b)" by blast
  have "streams m1 (ID x) = None" if "x \<in> set cams" for x
  proof -
    have "ID x \<noteq> ID c" using Cons.prems(2) imageI [OF that, of ID] by auto
    then show ?thesis using m1(4) [of "ID x"] Cons.prems(3) [of x] that by simp
  qed
  then obtain m2 where m2: "for_each (start_camera now) cams m1 = Inr m2" "mgr_inv m2 []"
    "\<And>i. i \<notin> ID ` set cams \<Longrightarrow> streams m2 i = streams m1 i \<and> (\<forall>b. streams m1 i = Some b \<longrightarrow> objs m2 b = objs m1 b)"
    "\<And>x. x \<in> set cams \<Longrightarrow> in_step m2 (ID x) (Some x)"
    using Cons.IH [OF m1(2)] Cons.prems(2) by auto
  have "in_step m2 (ID c) (Some c)" using in_step_same [OF m1(3), of m2] m2(3) [of "ID c"] Cons.prems(2) by simp
  moreover have "streams m2 i = streams m i \<and> (\<forall>b. streams m i = Some b \<longrightarrow> objs m2 b = objs m b)" if "i \<notin> ID ` set (c # cams)" for i
    using m1(4) [of i] m2(3) [of i] that by simp
  ultimately show ?case using m1(1) m2 by auto
qed simp

lemma boot_loaded:
  assumes "store_ok B s" "MigrateFromConfig B cfg s0 = (None, s)"
  shows "\<exists>h :: ('w, 'd) Handler. boot B now cfg s0 = Some (Inr h) \<and> api_ok B h"
proof -
  obtain r s2 where l: "ListCameras B s = (r, s2)" by force
  from ListCameras_law [OF assms(1) l] obtain cams where c: "r = Inr cams" "store_ok B s2" "distinct (map ID cams)"
    "\<And>i c. coll_map (GetCamera B) s i = Some c \<longleftrightarrow> c \<in> set cams \<and> ID c = i" "coll_map (GetCamera B) s2 = coll_map (GetCamera B) s" by blast
  have n: "streams (NewManager :: 'w Manager) i = None" for i by (simp add: NewManager_def)
  obtain m :: "'w Manager" where m: "for_each (start_camera now) cams NewManager = Inr m" "mgr_inv m []"
    "\<And>i. i \<notin> ID ` set cams \<Longrightarrow> streams m i = None" "\<And>x. x \<in> set cams \<Longrightarrow> in_step m (ID x) (Some x)"
    using start_cameras_ok [OF mgr_inv_New c(3) n, of now] unfolding n by blast
  have "in_step m i (coll_map (GetCamera B) s2 i)" for i
  proof (cases "coll_map (GetCamera B) s2 i")
    case None
    then have "x \<notin> set cams \<or> ID x \<noteq> i" for x using c(4) [of i x] c(5) by simp
    then have "i \<notin> ID ` set cams" by blast
    then show ?thesis using None m(3) by (simp add: in_step_def)
  next
    case (Some x)
    then have "x \<in> set cams" "ID x = i" using c(4) [of i x] c(5) by simp_all
    then show ?thesis using Some m(4) [of x] by simp
  qed
  then have "api_ok B (NewHandler m s2)" using m(2) c(2) by (simp add: api_ok_def NewHandler_def)
  then show ?thesis using l c(1) m(1) assms(2) by (simp add: boot_def)
qed

lemma boot_ok:
  assumes "store_ok B s" "config_cameras_ok cfg" "boot B now cfg s = Some (Inr (h :: ('w, 'd) Handler))" shows "api_ok B h"
proof -
  obtain s0 where m: "MigrateFromConfig B cfg s = (None, s0)"
    using assms(3) by (auto simp: boot_def split: prod.splits option.splits)
  have s0: "store_ok B s0" using assms(2) by (intro MigrateFromConfig_ok [OF assms(1) m]) (auto simp: config_cameras_ok_def list_all_iff)
  obtain h' :: "('w, 'd) Handler" where "boot B now cfg s = Some (Inr h')" "api_ok B h'" using boot_loaded [OF s0 m] by blast
  then show ?thesis using assms(3) by simp
qed

lemma api_step_ok:
  assumes "api_ok B h" "api_step B h h'" shows "api_ok B h'"
  using assms(2,1)
proof (cases rule: api_step.cases)
  case (add now body r)
  then show ?thesis using AddCamera_ok [OF assms(1), of now body] by auto
next
  case (edit now ts i body r)
  then show ?thesis using EditCamera_ok [OF assms(1), of now ts i body] by auto
next
  case (delete i r)
  then show ?thesis using DeleteCamera_ok [OF assms(1), of i] by auto
next
  case (import E now order up r)
  then show ?thesis using ImportBackupJSON_ok [OF assms(1), of order up E now] by auto
next
  case (listing now r)
  then show ?thesis by (intro GetCameras_ok [OF assms(1)])
next
  case (export E r)
  then show ?thesis by (intro ExportBackupJSON_ok [OF assms(1)])
next
  case (billing us mo e s')
  then show ?thesis using billing_ok [OF assms(1)] by simp
next
  case (entities s')
  then show ?thesis using entities_ok [OF assms(1)] by simp
next
  case (activity a s s')
  then show ?thesis using activity_ok [OF assms(1)] by simp
qed

lemma api_reach_ok: "api_reach B cfg s h \<Longrightarrow> store_ok B s \<Longrightarrow> config_cameras_ok cfg \<Longrightarrow> api_ok B h"
  by (induction rule: api_reach.induct) (rule boot_ok api_step_ok; assumption)+

lemma in_step_served:
  assumes "in_step m i (coll_map (GetCamera B) s i)"
  shows "(\<exists>a st. streams m i = Some a \<and> objs m a = Some st \<and> \<not> ctx_done st \<and> (\<forall>c. GetCamera B i s = Inr c \<longrightarrow> matches_cam st c)) \<longleftrightarrow>
      (\<exists>c. GetCamera B i s = Inr c \<and> \<not> Disabled c)"
    and "streams m i = None \<longleftrightarrow> (\<forall>c. GetCamera B i s = Inr c \<longrightarrow> Disabled c)"
  using assms by (auto simp: in_step_def coll_map_def split: sum.splits if_splits)

subsection \<open>Properties\<close>

text \<open>C1: The running streams and the stored cameras agree at every moment. After start-up on a consistent
  store, and then after any sequence of listings, added, edited and deleted cameras, backup exports and
  imports, changes of tags, folders and users, billing flushes and activity of the streams themselves, whether or not the database fails,
  the identifiers with a running stream are exactly those of the stored cameras that are not disabled,
  and the stream has the settings of the stored camera. No request panics.\<close>

theorem api_consistency:
  assumes "store_ok B s" "config_cameras_ok cfg" "api_reach B cfg s h"
  shows "((\<exists>a st. streams (h_manager h) i = Some a \<and> objs (h_manager h) a = Some st \<and> \<not> ctx_done st \<and>
        (\<forall>c. GetCamera B i (h_store h) = Inr c \<longrightarrow> matches_cam st c)) \<longleftrightarrow>
      (\<exists>c. GetCamera B i (h_store h) = Inr c \<and> \<not> Disabled c)) \<and>
    (streams (h_manager h) i = None \<longleftrightarrow> (\<forall>c. GetCamera B i (h_store h) = Inr c \<longrightarrow> Disabled c)) \<and>
    (\<exists>r h'. h_AddCamera B now body h = Inr (r, h')) \<and> (\<exists>r h'. h_EditCamera B now ts i body h = Inr (r, h')) \<and>
    (\<exists>r h'. h_DeleteCamera B i h = Inr (r, h')) \<and> (covers B order up h \<longrightarrow> (\<exists>r h'. h_ImportBackupJSON E B now order up h = Inr (r, h')))"
proof -
  have ok: "api_ok B h" by (rule api_reach_ok [OF assms(3,1,2)])
  then have "in_step (h_manager h) i (coll_map (GetCamera B) (h_store h) i)" by (simp add: api_ok_def)
  note st = in_step_served [OF this]
  show ?thesis
    using st AddCamera_ok [OF ok, of now body] EditCamera_ok [OF ok, of now ts i body] DeleteCamera_ok [OF ok, of i]
      ImportBackupJSON_ok [OF ok, of order up E now] by blast
qed

lemma api_consistency_witness:
  "\<exists>(h :: (nat, mem_db) Handler) h' r. boot mem_badger 0 (Some ((NewDefaultConfig [] [])\<lparr>GlobalTags := [], Cameras := [zero_camera\<lparr>ID := ''a''\<rparr>]\<rparr>)) demo_store = Some (Inr h) \<and>
     h_DeleteCamera mem_badger ''a'' h = Inr (r, h') \<and> streams (h_manager h) ''a'' \<noteq> None \<and> streams (h_manager h') ''a'' = None"
proof -
  let ?c = "zero_camera\<lparr>ID := ''a''\<rparr>"
  let ?cfg = "Some ((NewDefaultConfig [] [])\<lparr>GlobalTags := [], Cameras := [?c]\<rparr>)"
  have c: "config_cameras_ok ?cfg" by (simp add: config_cameras_ok_def camera_ok_def zero_camera_def in_s64_def)
  obtain e s where m: "MigrateFromConfig mem_badger ?cfg demo_store = (e, s)" by force
  have "txn_items mem_badger [] = []" by (simp add: mem_badger_def mem_items_def)
  then have e: "e = None \<and> db s = [(PrefixCamera @ ''a'', camera_json ?c)]"
    using m by (auto simp: MigrateFromConfig_def update_db_def demo_store_def scan_prefix_def put_cameras_def zero_camera_def
      invalidateCameraCache_def Let_def split: prod.splits)
  have s: "store_ok mem_badger s" using c by (intro MigrateFromConfig_ok [OF demo_store_ok m]) (auto simp: config_cameras_ok_def)
  obtain h :: "(nat, mem_db) Handler" where h: "boot mem_badger 0 ?cfg demo_store = Some (Inr h)"
    using boot_loaded [OF s, of ?cfg demo_store 0] m e by blast
  have r: "api_reach mem_badger ?cfg demo_store h" by (rule api_reach.start [OF h])
  have "db (h_store h) = db s" using h ListCameras_ok [OF s] m e
    by (auto simp: boot_def NewHandler_def and_then_eq_Inr split: prod.splits sum.splits)
  then have g: "GetCamera mem_badger ''a'' (h_store h) = Inr ?c" using e by (simp add: GetCamera_def txn_load_def camera_ok_def zero_camera_def in_s64_def)
  have run: "streams (h_manager h) ''a'' \<noteq> None" using api_consistency [OF demo_store_ok c r, of "''a''"] g by (auto simp: zero_camera_def)
  obtain r1 h' where d: "h_DeleteCamera mem_badger ''a'' h = Inr (r1, h')"
    using api_consistency [OF demo_store_ok c r, of "''a''"] by blast
  have ok: "store_ok mem_badger (h_store h)" using api_reach_ok [OF r demo_store_ok c] by (simp add: api_ok_def)
  obtain e2 s3 where dl: "DeleteCamera mem_badger ''a'' (h_store h) = (e2, s3)" by force
  then have "e2 = None" by (simp add: DeleteCamera_def update_db_def split: prod.splits)
  moreover from this have "h_store h' = s3" using d g dl
    by (auto simp: h_DeleteCamera_def InvalidateCamerasCache_def and_then_eq_Inr)
  ultimately have "GetCamera mem_badger ''a'' (h_store h') \<noteq> Inr x" for x using cams.del_law [OF ok dl] by auto
  then have "streams (h_manager h') ''a'' = None"
    using api_consistency [OF demo_store_ok c api_reach.step [OF r api_step.delete [OF d]], of "''a''"] by blast
  then show ?thesis using h d run by blast
qed

end
