(* ===== verification/Go_Time.thy ===== *)
theory Go_Time
  imports Go_Fmt Go_Path
begin

text \<open>
  Calendar times of the local zone, as package \<open>time\<close> formats and parses them with the two layouts of
  the archive, \<open>2006-01-02_15-04-05\<close> and \<open>15-04-05\<close>. The zone has a constant offset, so that times compare
  as their fields do.

  Shown: a valid time parses back from its text.
\<close>

record civil =
  year :: nat
  month :: nat
  day :: nat
  hour :: nat
  minute :: nat
  sec :: nat
  nsec :: nat

definition leap :: "nat \<Rightarrow> bool" where
  "leap y \<longleftrightarrow> 4 dvd y \<and> (\<not> 100 dvd y \<or> 400 dvd y)"

definition days_in :: "nat \<Rightarrow> nat \<Rightarrow> nat" where
  "days_in y m = (if m = 2 then if leap y then 29 else 28 else if m \<in> {4, 6, 9, 11} then 30 else 31)"

definition valid_civil :: "civil \<Rightarrow> bool" where
  "valid_civil c \<longleftrightarrow> year c < 10000 \<and> 1 \<le> month c \<and> month c \<le> 12 \<and> 1 \<le> day c \<and> day c \<le> days_in (year c) (month c) \<and>
     hour c < 24 \<and> minute c < 60 \<and> sec c < 60 \<and> nsec c < 10 ^ 9"

text \<open>\<open>Before\<close>, and \<open>AddDate(0, 0, 1)\<close>.\<close>

definition day_secs :: "civil \<Rightarrow> nat" where
  "day_secs c = hour c * 3600 + minute c * 60 + sec c"

definition date_before :: "civil \<Rightarrow> civil \<Rightarrow> bool" where
  "date_before a b \<longleftrightarrow> year a < year b \<or> year a = year b \<and> (month a < month b \<or> month a = month b \<and> day a < day b)"

definition same_date :: "civil \<Rightarrow> civil \<Rightarrow> bool" where
  "same_date a b \<longleftrightarrow> year a = year b \<and> month a = month b \<and> day a = day b"

definition civil_Before :: "civil \<Rightarrow> civil \<Rightarrow> bool" where
  "civil_Before a b \<longleftrightarrow> date_before a b \<or> same_date a b \<and> (day_secs a < day_secs b \<or> day_secs a = day_secs b \<and> nsec a < nsec b)"

definition next_day :: "civil \<Rightarrow> civil" where
  "next_day c =
     (if day c < days_in (year c) (month c) then c\<lparr>day := day c + 1\<rparr>
      else if month c < 12 then c\<lparr>month := month c + 1, day := 1\<rparr>
      else c\<lparr>year := year c + 1, month := 1, day := 1\<rparr>)"

subsection \<open>Formatting\<close>

definition two :: "nat \<Rightarrow> string" where
  "two n = zero_pad 2 (dec n)"

definition fmt_clock :: "civil \<Rightarrow> string" where
  "fmt_clock c = two (hour c) @ ''-'' @ two (minute c) @ ''-'' @ two (sec c)"

definition fmt_stamp :: "civil \<Rightarrow> string" where
  "fmt_stamp c = zero_pad 4 (dec (year c)) @ ''-'' @ two (month c) @ ''-'' @ two (day c) @ ''_'' @ fmt_clock c"

subsection \<open>Parsing\<close>

definition is_digit :: "char \<Rightarrow> bool" where
  "is_digit c \<longleftrightarrow> 48 \<le> (of_char c :: nat) \<and> (of_char c :: nat) \<le> 57"

text \<open>\<open>getnum\<close>: two digits, or one unless \<open>fixed\<close>.\<close>

fun getnum :: "bool \<Rightarrow> string \<Rightarrow> (nat \<times> string) option" where
  "getnum fixed [] = None"
| "getnum fixed (a # s) =
     (if \<not> is_digit a then None
      else (case s of
              b # s' \<Rightarrow> if is_digit b then Some (undigit a * 10 + undigit b, s') else if fixed then None else Some (undigit a, s)
            | [] \<Rightarrow> if fixed then None else Some (undigit a, s)))"

definition getyear :: "string \<Rightarrow> (nat \<times> string) option" where
  "getyear s = (if 4 \<le> length s \<and> list_all is_digit (take 4 s) then Some (undec (take 4 s), drop 4 s) else None)"

definition literal :: "char \<Rightarrow> string \<Rightarrow> string option" where
  "literal c s = (case s of x # s' \<Rightarrow> if x = c then Some s' else None | [] \<Rightarrow> None)"

definition in_range :: "nat \<Rightarrow> nat \<Rightarrow> (nat \<times> string) option \<Rightarrow> (nat \<times> string) option" where
  "in_range lo hi r = (case r of Some (n, s) \<Rightarrow> if lo \<le> n \<and> n \<le> hi then Some (n, s) else None | None \<Rightarrow> None)"

text \<open>A fraction after the seconds is accepted although the layout has none; its first nine digits count.\<close>

definition fraction :: "string \<Rightarrow> nat \<times> string" where
  "fraction s =
     (case s of
        x # d # _ \<Rightarrow>
          if (x = CHR ''.'' \<or> x = CHR '','') \<and> is_digit d
          then let ds = takeWhile is_digit (tl s); kept = take 9 ds
               in (undec kept * 10 ^ (9 - length kept), drop (length ds) (tl s))
          else (0, s)
      | _ \<Rightarrow> (0, s))"

definition parse_clock_part :: "string \<Rightarrow> ((nat \<times> nat \<times> nat \<times> nat) \<times> string) option" where
  "parse_clock_part s =
     Option.bind (in_range 0 23 (getnum False s)) (\<lambda>(h, s1).
     Option.bind (literal CHR ''-'' s1) (\<lambda>s2.
     Option.bind (in_range 0 59 (getnum True s2)) (\<lambda>(mi, s3).
     Option.bind (literal CHR ''-'' s3) (\<lambda>s4.
     Option.bind (in_range 0 59 (getnum True s4)) (\<lambda>(se, s5).
     case fraction s5 of (ns, s6) \<Rightarrow> Some ((h, mi, se, ns), s6))))))"

text \<open>A clock time is on the first of January of year 0.\<close>

definition parse_clock :: "string \<Rightarrow> civil option" where
  "parse_clock s =
     (case parse_clock_part s of
        Some ((h, mi, se, ns), []) \<Rightarrow> Some \<lparr>year = 0, month = 1, day = 1, hour = h, minute = mi, sec = se, nsec = ns\<rparr>
      | _ \<Rightarrow> None)"

definition parse_stamp :: "string \<Rightarrow> civil option" where
  "parse_stamp s =
     Option.bind (getyear s) (\<lambda>(y, s1).
     Option.bind (literal CHR ''-'' s1) (\<lambda>s2.
     Option.bind (in_range 1 12 (getnum True s2)) (\<lambda>(mo, s3).
     Option.bind (literal CHR ''-'' s3) (\<lambda>s4.
     Option.bind (getnum True s4) (\<lambda>(d, s5).
     Option.bind (literal CHR ''_'' s5) (\<lambda>s6.
     Option.bind (parse_clock_part s6) (\<lambda>((h, mi, se, ns), s7).
       if s7 = [] \<and> 1 \<le> d \<and> d \<le> days_in y mo
       then Some \<lparr>year = y, month = mo, day = d, hour = h, minute = mi, sec = se, nsec = ns\<rparr>
       else None)))))))"

subsection \<open>Lemmas\<close>

lemma is_digit_digit [simp]: "n < 10 \<Longrightarrow> is_digit (digit n)"
  by (simp add: is_digit_def digit_def of_char_of)

lemma digit_0: "digit 0 = CHR ''0''"
  by (simp add: digit_def char_of_eq_iff)

lemma two_digits: "n < 100 \<Longrightarrow> two n = [digit (n div 10), digit (n mod 10)]"
  by (cases "n < 10") (simp_all add: two_def zero_pad_def dec.simps [of n] dec.simps [of "n div 10"] digit_0)

lemma getnum_two [simp]:
  assumes "n < 100" shows "getnum f (two n @ s) = Some (n, s)"
proof -
  have "n div 10 < 10" "n mod 10 < 10" using assms by simp_all
  then show ?thesis using two_digits [OF assms] by simp
qed

lemma two_hd_digit: "n < 100 \<Longrightarrow> is_digit (hd (two n)) \<and> length (two n) = 2 \<and> list_all is_digit (two n)"
  using two_digits [of n] by simp

lemma parse_clock_part_fmt:
  assumes "valid_civil c" "s = [] \<or> \<not> is_digit (hd s) \<and> hd s \<noteq> CHR ''.'' \<and> hd s \<noteq> CHR '',''"
  shows "parse_clock_part (fmt_clock c @ s) = Some ((hour c, minute c, sec c, 0), s)"
proof -
  have "hour c < 100" "minute c < 100" "sec c < 100" using assms(1) by (simp_all add: valid_civil_def)
  moreover have "fraction s = (0, s)" using assms(2) by (cases s) (auto simp: fraction_def split: list.splits)
  ultimately show ?thesis using assms(1)
    by (simp add: parse_clock_part_def fmt_clock_def in_range_def literal_def valid_civil_def)
qed

lemma getyear_fmt: "y < 10000 \<Longrightarrow> getyear (zero_pad 4 (dec y) @ s) = Some (y, s)"
proof -
  assume y: "y < 10000"
  have "length (zero_pad (Suc 3) (dec y)) = Suc 3" by (rule length_zero_pad) (use y in simp)
  then have l: "length (zero_pad 4 (dec y)) = 4" by simp
  have "is_digit x" if "x \<in> set (zero_pad 4 (dec y))" for x
  proof -
    have "x = digit 0 \<or> x \<in> set (dec y)" using that by (auto simp: zero_pad_def digit_0)
    then show ?thesis using set_dec [of y] by auto
  qed
  then have "list_all is_digit (zero_pad 4 (dec y))" by (simp add: list_all_iff)
  then show ?thesis using l by (simp add: getyear_def)
qed

lemma days_in_le: "days_in y m \<le> 31"
  by (simp add: days_in_def)

lemma parse_fmt_stamp:
  assumes "valid_civil c" "nsec c = 0" shows "parse_stamp (fmt_stamp c) = Some c"
proof -
  have b: "month c < 100" "day c < 100" "year c < 10000" using assms(1) days_in_le [of "year c" "month c"] by (simp_all add: valid_civil_def)
  show ?thesis
    using assms parse_clock_part_fmt [OF assms(1), of "[]"] b
    by (simp add: parse_stamp_def fmt_stamp_def getyear_fmt literal_def in_range_def valid_civil_def)
qed

lemma parse_fmt_clock:
  assumes "valid_civil c"
  shows "parse_clock (fmt_clock c) = Some \<lparr>year = 0, month = 1, day = 1, hour = hour c, minute = minute c, sec = sec c, nsec = 0\<rparr>"
  using parse_clock_part_fmt [OF assms, of "[]"] by (simp add: parse_clock_def)

end
