(* ===== verification/Archive_Index.thy ===== *)
theory Archive_Index
  imports Go_Time
begin

text \<open>
  The archive listing (\<open>internal/archive/indexer.go\<close>): the recordings of a camera and their time
  spans, read off the file names that the recorder and the crash recovery give them. A directory entry is its
  name, its kind and its modification time, which may be unavailable.

  Shown: the span of every recording is listed as it was, also across midnight.
\<close>

record 't dir_entry =
  de_Name :: string
  de_IsDir :: bool
  de_Info :: "'t option"

datatype readdir_err = DirNotExist | DirErr string

record RecordInterval =
  ri_StartTime :: civil
  ri_EndTime :: civil
  ri_Filename :: string

text \<open>The file names that \<open>internal/recorder\<close> chooses.\<close>

definition ongoing_name :: "civil \<Rightarrow> string" where
  "ongoing_name start = fmt_stamp start @ ''_ongoing.mp4''"

definition final_name :: "string \<Rightarrow> civil \<Rightarrow> string" where
  "final_name start finish = start @ ''_to_'' @ fmt_clock finish @ ''.mp4''"

text \<open>The end of a finished recording: the clock time of its name on the day it started or the next.\<close>

definition end_full :: "civil \<Rightarrow> civil \<Rightarrow> civil" where
  "end_full start finish =
     (let endFull = start\<lparr>hour := hour finish, minute := minute finish, sec := sec finish, nsec := 0\<rparr>
      in if civil_Before endFull start then next_day endFull else endFull)"

definition interval_of :: "civil \<Rightarrow> civil dir_entry \<Rightarrow> RecordInterval option" where
  "interval_of now e =
     (let name = de_Name e in
      if de_IsDir e then None
      else if \<not> HasSuffix name ''.mp4'' then None
      else if HasSuffix name ''_ongoing.mp4'' then
        (case parse_stamp (TrimSuffix name ''_ongoing.mp4'') of
           None \<Rightarrow> None
         | Some start \<Rightarrow>
             Some \<lparr>ri_StartTime = start, ri_EndTime = (case de_Info e of None \<Rightarrow> now | Some t \<Rightarrow> t), ri_Filename = name\<rparr>)
      else if strings_Contains name ''_to_'' then
        (case strings_Split (TrimSuffix name ''.mp4'') ''_to_'' of
           [p0, p1] \<Rightarrow>
             (case (parse_stamp p0, parse_clock p1) of
                (Some start, Some finish) \<Rightarrow>
                  Some \<lparr>ri_StartTime = start, ri_EndTime = end_full start finish, ri_Filename = name\<rparr>
              | _ \<Rightarrow> None)
         | _ \<Rightarrow> None)
      else None)"

text \<open>The slice is nil when no entry was appended, and empty when there is no directory.\<close>

definition GetCameraArchive ::
  "civil \<Rightarrow> (string \<Rightarrow> readdir_err + civil dir_entry list) \<Rightarrow> string \<Rightarrow> string \<Rightarrow> readdir_err + RecordInterval list option" where
  "GetCameraArchive now readDir recordDir cameraID =
     (case readDir (filepath_Join [recordDir, cameraID]) of
        Inl DirNotExist \<Rightarrow> Inr (Some [])
      | Inl e \<Rightarrow> Inl e
      | Inr entries \<Rightarrow>
          let intervals = List.map_filter (interval_of now) entries
          in Inr (if intervals = [] then None else Some intervals))"

text \<open>\<open>finish\<close> is at most a day after \<open>start\<close>, in whole seconds.\<close>

definition within_a_day :: "civil \<Rightarrow> civil \<Rightarrow> bool" where
  "within_a_day start finish \<longleftrightarrow>
     same_date start finish \<and> day_secs start \<le> day_secs finish \<or> same_date (next_day start) finish \<and> day_secs finish < day_secs start"

text \<open>What a camera's directory holds: finished and ongoing recordings and other entries.\<close>

datatype item = Finished civil civil "civil option" | Ongoing civil civil | Foreign "civil dir_entry"

fun item_entry :: "item \<Rightarrow> civil dir_entry" where
  "item_entry (Finished start finish info) = \<lparr>de_Name = final_name (fmt_stamp start) finish, de_IsDir = False, de_Info = info\<rparr>"
| "item_entry (Ongoing start modified) = \<lparr>de_Name = ongoing_name start, de_IsDir = False, de_Info = Some modified\<rparr>"
| "item_entry (Foreign e) = e"

definition whole :: "civil \<Rightarrow> bool" where
  "whole t \<longleftrightarrow> valid_civil t \<and> nsec t = 0"

fun item_ok :: "item \<Rightarrow> bool" where
  "item_ok (Finished start finish info) = (whole start \<and> whole finish \<and> within_a_day start finish)"
| "item_ok (Ongoing start modified) = whole start"
| "item_ok (Foreign e) = (de_IsDir e \<or> \<not> HasSuffix (de_Name e) ''.mp4'')"

fun item_span :: "item \<Rightarrow> RecordInterval option" where
  "item_span (Finished start finish info) = Some \<lparr>ri_StartTime = start, ri_EndTime = finish, ri_Filename = final_name (fmt_stamp start) finish\<rparr>"
| "item_span (Ongoing start modified) = Some \<lparr>ri_StartTime = start, ri_EndTime = modified, ri_Filename = ongoing_name start\<rparr>"
| "item_span (Foreign e) = None"

subsection \<open>Lemmas\<close>

lemma set_two: "n < 100 \<Longrightarrow> c \<in> set (two n) \<Longrightarrow> is_digit c"
  using two_hd_digit [of n] by (simp add: list_all_iff)

lemma clock_chars: "valid_civil t \<Longrightarrow> c \<in> set (fmt_clock t) \<Longrightarrow> is_digit c \<or> c = CHR ''-''"
  using set_two [of "hour t" c] set_two [of "minute t" c] set_two [of "sec t" c] by (auto simp: fmt_clock_def valid_civil_def)

lemma stamp_chars:
  assumes "valid_civil t" "c \<in> set (fmt_stamp t)" shows "is_digit c \<or> c = CHR ''-'' \<or> c = CHR ''_''"
proof -
  have b: "month t < 100" "day t < 100" using assms(1) days_in_le [of "year t" "month t"] by (simp_all add: valid_civil_def)
  have y: "is_digit x" if "x \<in> set (zero_pad 4 (dec (year t)))" for x
  proof -
    have "x = digit 0 \<or> x \<in> set (dec (year t))" using that by (auto simp: zero_pad_def digit_0)
    then show ?thesis using set_dec [of "year t"] by auto
  qed
  consider "c \<in> set (zero_pad 4 (dec (year t)))" | "c \<in> set (two (month t))" | "c \<in> set (two (day t))" | "c \<in> set (fmt_clock t)" | "c = CHR ''-''" | "c = CHR ''_''"
    using assms(2) by (auto simp: fmt_stamp_def)
  then show ?thesis using y set_two [OF b(1)] set_two [OF b(2)] clock_chars [OF assms(1)] by cases auto
qed

lemma no_t: "valid_civil t \<Longrightarrow> CHR ''t'' \<notin> set (fmt_stamp t)" "valid_civil t \<Longrightarrow> CHR ''t'' \<notin> set (fmt_clock t)"
  using stamp_chars [of t "CHR ''t''"] clock_chars [of t "CHR ''t''"] by (auto simp: is_digit_def)

lemma to_prefix: "HasPrefix (x # r) ''_to_'' \<Longrightarrow> \<exists>r'. r = CHR ''t'' # r'"
  by (cases r) (auto simp: HasPrefix_def)

lemma split_to:
  assumes "CHR ''t'' \<notin> set a"
  shows "split_from ''_to_'' cur (a @ ''_to_'' @ s) = (rev cur @ a) # split_from ''_to_'' [] s"
  using assms
proof (induction a arbitrary: cur)
  case Nil
  then show ?case by (simp add: HasPrefix_def)
next
  case (Cons x a)
  have "\<not> HasPrefix (x # a @ ''_to_'' @ s) ''_to_''"
  proof
    assume "HasPrefix (x # a @ ''_to_'' @ s) ''_to_''"
    from to_prefix [OF this] Cons.prems show False by (cases a) auto
  qed
  then show ?case using Cons.IH [of "x # cur"] Cons.prems by simp
qed

lemma split_none:
  assumes "CHR ''t'' \<notin> set a" shows "split_from ''_to_'' cur a = [rev cur @ a]"
  using assms
proof (induction a arbitrary: cur)
  case (Cons x a)
  have "\<not> HasPrefix (x # a) ''_to_''" using to_prefix [of x a] Cons.prems by auto
  then show ?case using Cons by simp
qed simp

lemma Contains_append: "strings_Contains (a @ p @ s) p"
proof (induction a)
  case Nil
  have "HasPrefix (p @ s) p" by simp
  then show ?case by (cases "p @ s") (auto simp del: HasPrefix_append simp: HasPrefix_def)
qed simp

lemma final_name_suffix:
  assumes "valid_civil finish"
  shows "HasSuffix (final_name st finish) ''.mp4''" "\<not> HasSuffix (final_name st finish) ''_ongoing.mp4''"
    "TrimSuffix (final_name st finish) ''.mp4'' = st @ ''_to_'' @ fmt_clock finish"
proof -
  have eq: "final_name st finish = (st @ ''_to_'' @ fmt_clock finish) @ ''.mp4''" by (simp add: final_name_def)
  show "HasSuffix (final_name st finish) ''.mp4''" unfolding eq by (rule HasSuffix_append)
  show "TrimSuffix (final_name st finish) ''.mp4'' = st @ ''_to_'' @ fmt_clock finish" unfolding eq by (rule TrimSuffix_append)
  have "sec finish < 100" using assms by (simp add: valid_civil_def)
  then obtain r d where "fmt_clock finish = r @ [d]" "is_digit d" using two_digits [of "sec finish"] by (simp add: fmt_clock_def)
  then show "\<not> HasSuffix (final_name st finish) ''_ongoing.mp4''"
    by (auto simp: final_name_def HasSuffix_iff is_digit_def)
qed

lemma end_full_within:
  assumes "within_a_day start finish" "valid_civil start" "nsec start = 0" "valid_civil finish" "nsec finish = 0"
    and "hour f = hour finish" "minute f = minute finish" "sec f = sec finish"
  shows "end_full start f = finish"
proof -
  let ?e = "start\<lparr>hour := hour f, minute := minute f, sec := sec f, nsec := 0\<rparr>"
  have secs: "day_secs ?e = day_secs finish" using assms(6-8) by (simp add: day_secs_def)
  have b: "civil_Before ?e start \<longleftrightarrow> day_secs finish < day_secs start"
    using secs assms(3) by (auto simp: civil_Before_def date_before_def same_date_def)
  from assms(1) consider (same) "same_date start finish" "day_secs start \<le> day_secs finish"
    | (nxt) "same_date (next_day start) finish" "day_secs finish < day_secs start" unfolding within_a_day_def by blast
  then show ?thesis
  proof cases
    case same
    then show ?thesis using b assms by (simp add: end_full_def same_date_def)
  next
    case nxt
    have "next_day ?e = finish" using nxt(1) assms(5-8) by (auto simp: next_day_def same_date_def)
    then show ?thesis using nxt b by (simp add: end_full_def Let_def)
  qed
qed

lemma interval_of_item:
  assumes "item_ok i" shows "interval_of now (item_entry i) = item_span i"
proof (cases i)
  case (Finished start finish info)
  then have w: "valid_civil start" "nsec start = 0" "valid_civil finish" "nsec finish = 0" "within_a_day start finish"
    using assms by (simp_all add: whole_def)
  note n = final_name_suffix [OF w(3), of "fmt_stamp start"]
  have sp: "strings_Split (fmt_stamp start @ ''_to_'' @ fmt_clock finish) ''_to_'' = [fmt_stamp start, fmt_clock finish]"
    unfolding strings_Split_def using split_to [OF no_t(1) [OF w(1)]] split_none [OF no_t(2) [OF w(3)]] by simp
  have "strings_Contains (final_name (fmt_stamp start) finish) ''_to_''" unfolding final_name_def by (rule Contains_append)
  then show ?thesis
    using Finished n sp parse_fmt_stamp [OF w(1,2)] parse_fmt_clock [OF w(3)] end_full_within [OF w(5,1,2,3,4)]
    by (simp add: interval_of_def)
next
  case (Ongoing start modified)
  then have "parse_stamp (fmt_stamp start) = Some start" using assms parse_fmt_stamp by (simp add: whole_def)
  moreover have "HasSuffix (ongoing_name start) ''.mp4''" unfolding HasSuffix_iff ongoing_name_def by (rule exI [of _ "fmt_stamp start @ ''_ongoing''"]) simp
  ultimately show ?thesis using Ongoing by (simp add: interval_of_def ongoing_name_def)
next
  case (Foreign e)
  then show ?thesis using assms by (auto simp: interval_of_def Let_def)
qed

subsection \<open>Properties\<close>

text \<open>C38: The archive listing gives back what was recorded. For a directory that holds finished recordings of
  at most a day (also across midnight, a month or a year), ongoing ones, and entries that are no
  \<open>.mp4\<close> files, \<open>GetCameraArchive\<close> lists exactly the recordings, in the directory's order, each with the start
  and the end it was named after, an ongoing one up to its last modification.\<close>

theorem archive_listing_exact:
  assumes "readDir (filepath_Join [recordDir, cam]) = Inr (map item_entry items)" "list_all item_ok items"
  shows "GetCameraArchive now readDir recordDir cam =
    Inr (if List.map_filter item_span items = [] then None else Some (List.map_filter item_span items))"
proof -
  have "List.map_filter (interval_of now) (map item_entry items) = List.map_filter item_span items"
    using assms(2) interval_of_item by (induction items) (auto simp: map_filter_simps split: option.split)
  then show ?thesis using assms(1) by (simp add: GetCameraArchive_def)
qed

definition demo_start :: civil where
  "demo_start = \<lparr>year = 2024, month = 2, day = 28, hour = 23, minute = 30, sec = 5, nsec = 0\<rparr>"

definition demo_finish :: civil where
  "demo_finish = \<lparr>year = 2024, month = 2, day = 29, hour = 0, minute = 30, sec = 4, nsec = 0\<rparr>"

lemma archive_listing_exact_witness:
  "GetCameraArchive demo_finish (\<lambda>_. Inr [item_entry (Finished demo_start demo_finish None)]) ''recordings'' ''cam'' =
    Inr (Some [\<lparr>ri_StartTime = demo_start, ri_EndTime = demo_finish, ri_Filename = ''2024-02-28_23-30-05_to_00-30-04.mp4''\<rparr>])"
proof -
  let ?i = "Finished demo_start demo_finish None"
  have ok: "list_all item_ok [?i]"
    by (simp add: demo_start_def demo_finish_def whole_def valid_civil_def days_in_def leap_def within_a_day_def same_date_def next_day_def day_secs_def)
  have n: "final_name (fmt_stamp demo_start) demo_finish = ''2024-02-28_23-30-05_to_00-30-04.mp4''"
    by (simp add: final_name_def fmt_stamp_def fmt_clock_def demo_start_def demo_finish_def two_def zero_pad_def dec.simps digit_def char_of_eq_iff eq_commute)
  show ?thesis
    using archive_listing_exact [of "\<lambda>_. Inr [item_entry ?i]" "''recordings''" "''cam''" "[?i]" demo_finish, OF _ ok] n
    by (simp add: map_filter_simps)
qed

end
