(* ===== verification/Recovery.thy ===== *)
theory Recovery
  imports FMP4 Archive_Index
begin

text \<open>
  Crash recovery (\<open>RecoverCrashedFiles\<close> of \<open>internal/recorder/recovery.go\<close>): at start-up, recordings that were
  being written when the process died are validated and either renamed to finished recordings or set
  aside. The files of a camera's directory are a map from their names, since every path the code builds
  joins that directory with the name of an entry; listings are arguments, and \<open>ok\<close> says which renames the
  operating system performs.

  Shown: recovery loses no file; complete recordings are afterwards listed with their time span, incomplete
  ones are set aside unchanged; and a recording whose last fragment was cut off counts as
  incomplete as a whole.
\<close>

record recovery =
  rc_files :: "string \<rightharpoonup> bytes"
  rc_count :: nat
  rc_events :: "(string \<times> string) list"

definition fs_rename :: "(string \<Rightarrow> bool) \<Rightarrow> string \<Rightarrow> string \<Rightarrow> (string \<rightharpoonup> bytes) \<Rightarrow> bool \<times> (string \<rightharpoonup> bytes)" where
  "fs_rename ok old new files =
     (case files old of
        Some b \<Rightarrow> if ok old then (True, (files(old := None))(new \<mapsto> b)) else (False, files)
      | None \<Rightarrow> (False, files))"

definition recover_file :: "(string \<Rightarrow> bool) \<Rightarrow> string \<Rightarrow> civil dir_entry \<Rightarrow> recovery \<Rightarrow> recovery" where
  "recover_file ok stream e r =
     (let name = de_Name e in
      if \<not> de_IsDir e \<and> HasSuffix name ''_ongoing.mp4'' then
        (case ValidateFMP4File (rc_files r) name of
           Inl _ \<Rightarrow> r\<lparr>rc_files := snd (fs_rename ok name (TrimSuffix name ''.mp4'' @ ''.corrupted'') (rc_files r))\<rparr>
         | Inr _ \<Rightarrow>
             (case de_Info e of
                None \<Rightarrow> r
              | Some modTime \<Rightarrow>
                  (case strings_Split name ''_ongoing.mp4'' of
                     [startTimeStr, _] \<Rightarrow>
                       (case fs_rename ok name (final_name startTimeStr modTime) (rc_files r) of
                          (True, files') \<Rightarrow>
                            r\<lparr>rc_files := files', rc_count := rc_count r + 1,
                              rc_events := rc_events r @ [(stream, final_name startTimeStr modTime)]\<rparr>
                        | (False, files') \<Rightarrow> r\<lparr>rc_files := files'\<rparr>)
                   | _ \<Rightarrow> r)))
      else r)"

definition recover_dir :: "(string \<Rightarrow> bool) \<Rightarrow> string \<Rightarrow> civil dir_entry list \<Rightarrow> recovery \<Rightarrow> recovery" where
  "recover_dir ok stream entries r = fold (recover_file ok stream) entries r"

text \<open>All directories; \<open>store\<close> holds their files.\<close>

definition RecoverCrashedFiles ::
  "(string \<Rightarrow> string \<Rightarrow> bool) \<Rightarrow> readdir_err + civil dir_entry list \<Rightarrow> (string \<Rightarrow> readdir_err + civil dir_entry list) \<Rightarrow>
   (string \<Rightarrow> string \<rightharpoonup> bytes) \<Rightarrow> (string \<Rightarrow> string \<rightharpoonup> bytes) \<times> nat \<times> (string \<times> string) list" where
  "RecoverCrashedFiles ok root readDir store =
     (case root of
        Inl _ \<Rightarrow> (store, 0, [])
      | Inr entries \<Rightarrow>
          fold (\<lambda>entry (store, n, evs).
            if \<not> de_IsDir entry then (store, n, evs)
            else (case readDir (de_Name entry) of
                    Inl _ \<Rightarrow> (store, n, evs)
                  | Inr files \<Rightarrow>
                      let d = de_Name entry;
                          r = recover_dir (ok d) d files \<lparr>rc_files = store d, rc_count = n, rc_events = evs\<rparr>
                      in (store(d := rc_files r), rc_count r, rc_events r)))
            entries (store, 0, []))"

text \<open>What becomes of an item of the directory.\<close>

definition nm :: "item \<Rightarrow> string" where
  "nm i = de_Name (item_entry i)"

definition corrupted_name :: "civil \<Rightarrow> string" where
  "corrupted_name start = fmt_stamp start @ ''_ongoing.corrupted''"

fun recovered :: "(string \<rightharpoonup> bytes) \<Rightarrow> item \<Rightarrow> item" where
  "recovered files (Ongoing start modified) =
     (if ValidateFMP4File files (ongoing_name start) = Inr () then Finished start (modified\<lparr>nsec := 0\<rparr>) (Some modified)
      else Foreign \<lparr>de_Name = corrupted_name start, de_IsDir = False, de_Info = Some modified\<rparr>)"
| "recovered files i = i"

text \<open>A crashed recording was written to for at most a day, and its file exists.\<close>

fun crashed_ok :: "(string \<rightharpoonup> bytes) \<Rightarrow> item \<Rightarrow> bool" where
  "crashed_ok files (Ongoing start modified) \<longleftrightarrow> valid_civil modified \<and> within_a_day start (modified\<lparr>nsec := 0\<rparr>) \<and> ongoing_name start \<in> dom files"
| "crashed_ok files i \<longleftrightarrow> True"

text \<open>A file that is a whole number of boxes, with a \<open>moov\<close> and a fragment.\<close>

definition complete_fmp4 :: "bytes \<Rightarrow> bool" where
  "complete_fmp4 b \<longleftrightarrow> (\<exists>bs. b = boxes_bytes bs \<and> (\<forall>x\<in>set bs. box_ok x) \<and> 32 \<le> length b \<and>
     has_type moov_type bs \<and> has_type moof_type bs \<and> has_type mdat_type bs)"

subsection \<open>Lemmas\<close>

lemma Validate_cong: "files n = files' n \<Longrightarrow> ValidateFMP4File files n = ValidateFMP4File files' n"
  by (simp add: ValidateFMP4File_def)

lemma recovered_cong: "files (nm i) = files' (nm i) \<Longrightarrow> recovered files i = recovered files' i"
proof (cases i)
  case (Ongoing s m)
  assume "files (nm i) = files' (nm i)"
  then show ?thesis using Ongoing Validate_cong [of files "ongoing_name s" files'] by (simp add: nm_def)
qed simp_all

lemma nm_simps [simp]:
  "nm (Ongoing s m) = ongoing_name s" "nm (Finished s f i) = final_name (fmt_stamp s) f" "nm (Foreign e) = de_Name e"
  by (simp_all add: nm_def)

lemma ongoing_prefix: "HasPrefix (x # r) ''_ongoing.mp4'' \<Longrightarrow> \<exists>r'. r = CHR ''o'' # r'"
  by (cases r) (auto simp: HasPrefix_def)

lemma split_ongoing:
  assumes "CHR ''o'' \<notin> set a" shows "split_from ''_ongoing.mp4'' cur (a @ ''_ongoing.mp4'') = [rev cur @ a, []]"
  using assms
proof (induction a arbitrary: cur)
  case Nil
  then show ?case by (simp add: HasPrefix_def)
next
  case (Cons x a)
  have "\<not> HasPrefix (x # a @ ''_ongoing.mp4'') ''_ongoing.mp4''"
  proof
    assume "HasPrefix (x # a @ ''_ongoing.mp4'') ''_ongoing.mp4''"
    from ongoing_prefix [OF this] Cons.prems show False by (cases a) auto
  qed
  then show ?case using Cons.IH [of "x # cur"] Cons.prems by simp
qed

lemma no_o: "valid_civil t \<Longrightarrow> CHR ''o'' \<notin> set (fmt_stamp t)"
  using stamp_chars [of t "CHR ''o''"] by (auto simp: is_digit_def)

lemma ongoing_parts:
  assumes "valid_civil start"
  shows "strings_Split (ongoing_name start) ''_ongoing.mp4'' = [fmt_stamp start, []]" "HasSuffix (ongoing_name start) ''_ongoing.mp4''"
    "TrimSuffix (ongoing_name start) ''.mp4'' @ ''.corrupted'' = corrupted_name start"
proof -
  show "strings_Split (ongoing_name start) ''_ongoing.mp4'' = [fmt_stamp start, []]"
    unfolding strings_Split_def ongoing_name_def using split_ongoing [OF no_o [OF assms]] by simp
  show "HasSuffix (ongoing_name start) ''_ongoing.mp4''" unfolding ongoing_name_def by (rule HasSuffix_append)
  have "ongoing_name start = (fmt_stamp start @ ''_ongoing'') @ ''.mp4''" by (simp add: ongoing_name_def)
  then have "TrimSuffix (ongoing_name start) ''.mp4'' = fmt_stamp start @ ''_ongoing''" by (metis TrimSuffix_append)
  then show "TrimSuffix (ongoing_name start) ''.mp4'' @ ''.corrupted'' = corrupted_name start" by (simp add: corrupted_name_def)
qed

lemma not_ongoing:
  "HasSuffix (corrupted_name start) ''_ongoing.mp4'' = False" "valid_civil t \<Longrightarrow> \<not> HasSuffix (final_name st t) ''_ongoing.mp4''"
  using final_name_suffix(2) by (auto simp: corrupted_name_def HasSuffix_iff)

lemma fmt_clock_secs [simp]: "fmt_clock (t\<lparr>nsec := n\<rparr>) = fmt_clock t" "final_name s (t\<lparr>nsec := n\<rparr>) = final_name s t"
  by (simp_all add: fmt_clock_def final_name_def)

text \<open>One entry.\<close>

lemma recover_item:
  assumes "\<And>n. ok n" "item_ok i" "crashed_ok (rc_files r) i"
  shows "rc_files (recover_file ok st (item_entry i) r) =
    (if recovered (rc_files r) i = i then rc_files r
     else ((rc_files r)(nm i := None))(nm (recovered (rc_files r) i) := rc_files r (nm i)))"
proof (cases i)
  case (Ongoing start m)
  then have v: "valid_civil start" using assms(2) by (simp add: whole_def)
  obtain b where b: "rc_files r (ongoing_name start) = Some b" using assms(3) Ongoing by auto
  have rn: "fs_rename ok (ongoing_name start) n (rc_files r) = (True, ((rc_files r)(ongoing_name start := None))(n \<mapsto> b))" for n
    using assms(1) b by (simp add: fs_rename_def)
  show ?thesis using Ongoing ongoing_parts [OF v] rn b
    by (cases "ValidateFMP4File (rc_files r) (ongoing_name start)") (simp_all add: recover_file_def)
next
  case (Finished s f info)
  then have "valid_civil f" using assms(2) by (simp add: whole_def)
  then show ?thesis using Finished final_name_suffix(2) by (simp add: recover_file_def)
next
  case (Foreign e)
  have "\<not> HasSuffix (de_Name e) ''_ongoing.mp4''" if "\<not> HasSuffix (de_Name e) ''.mp4''"
  proof
    assume "HasSuffix (de_Name e) ''_ongoing.mp4''"
    then obtain t where "de_Name e = (t @ ''_ongoing'') @ ''.mp4''" by (auto simp: HasSuffix_iff)
    then show False using that by (metis HasSuffix_append)
  qed
  then show ?thesis using Foreign assms(2) by (auto simp: recover_file_def Let_def)
qed

lemma recovered_name_differs:
  assumes "crashed_ok f i" "item_ok j" "recovered f i \<noteq> i" "nm (recovered f i) \<noteq> nm (recovered f j)"
  shows "nm (recovered f i) \<noteq> nm j"
proof
  assume eq: "nm (recovered f i) = nm j"
  obtain s m where i: "i = Ongoing s m" "valid_civil m" using assms(1,3) by (cases i) auto
  have "\<not> HasSuffix (nm (recovered f i)) ''_ongoing.mp4''" using i not_ongoing by simp
  then have "recovered f j = j" using eq ongoing_parts(2) assms(2) by (cases j) (auto simp: whole_def)
  then show False using eq assms(4) by simp
qed

lemma recover_items:
  assumes "\<And>n. ok n" "list_all item_ok its" "list_all (crashed_ok (rc_files r)) its" "distinct (map nm its)"
    and "distinct (map (\<lambda>i. nm (recovered (rc_files r) i)) its)"
  shows "(\<forall>i\<in>set its. rc_files (recover_dir ok st (map item_entry its) r) (nm (recovered (rc_files r) i)) = rc_files r (nm i)) \<and>
    (\<forall>n. n \<notin> nm ` set its \<and> n \<notin> (\<lambda>i. nm (recovered (rc_files r) i)) ` set its \<longrightarrow> rc_files (recover_dir ok st (map item_entry its) r) n = rc_files r n) \<and>
    (\<forall>i\<in>set its. nm i \<notin> (\<lambda>i. nm (recovered (rc_files r) i)) ` set its \<longrightarrow> rc_files (recover_dir ok st (map item_entry its) r) (nm i) = None)"
  using assms(2-5)
proof (induction its arbitrary: r)
  case (Cons i its)
  let ?f = "rc_files r" and ?r1 = "recover_file ok st (item_entry i) r"
  let ?f1 = "rc_files ?r1" and ?n' = "nm (recovered (rc_files r) i)"
  have io: "item_ok i" "crashed_ok ?f i" and all: "list_all item_ok its" "list_all (crashed_ok ?f) its" "distinct (map nm its)"
    "distinct (map (\<lambda>i. nm (recovered ?f i)) its)" using Cons.prems by simp_all
  have f1: "?f1 = (if recovered ?f i = i then ?f else (?f(nm i := None))(?n' := ?f (nm i)))" by (rule recover_item [OF assms(1) io])
  have nd: "nm j \<noteq> nm i" "nm (recovered ?f j) \<noteq> ?n'" if "j \<in> set its" for j
    using Cons.prems(3,4) that by (metis (no_types, lifting) distinct.simps(2) image_eqI list.set_map list.simps(9))+
  have same: "?f1 (nm j) = ?f (nm j)" if "j \<in> set its" for j
  proof (cases "recovered ?f i = i")
    case False
    have "?n' \<noteq> nm j" using recovered_name_differs [OF io(2) _ False] all(1) nd(2) [OF that] that by (metis list_all_iff)
    then show ?thesis using f1 nd(1) [OF that] by simp
  qed (simp add: f1)
  have rec: "recovered ?f1 j = recovered ?f j" if "j \<in> set its" for j using recovered_cong [of ?f1 j ?f] same [OF that] by simp
  have c1: "list_all (crashed_ok ?f1) its" unfolding list_all_iff
  proof
    fix j assume j: "j \<in> set its"
    then have "crashed_ok ?f j" using all(2) by (simp add: list_all_iff)
    then show "crashed_ok ?f1 j" using same [OF j] by (cases j) (auto simp: dom_def)
  qed
  have mp: "map (\<lambda>j. nm (recovered ?f1 j)) its = map (\<lambda>j. nm (recovered ?f j)) its" using rec by simp
  then have im: "(\<lambda>j. nm (recovered ?f1 j)) ` set its = (\<lambda>j. nm (recovered ?f j)) ` set its" by (metis set_map)
  let ?F = "rc_files (recover_dir ok st (map item_entry its) ?r1)"
  have eq: "rc_files (recover_dir ok st (map item_entry (i # its)) r) = ?F" by (simp add: recover_dir_def)
  have ih: "j \<in> set its \<Longrightarrow> ?F (nm (recovered ?f j)) = ?f1 (nm j)"
    "n \<notin> nm ` set its \<Longrightarrow> n \<notin> (\<lambda>j. nm (recovered ?f j)) ` set its \<Longrightarrow> ?F n = ?f1 n"
    "j \<in> set its \<Longrightarrow> nm j \<notin> (\<lambda>j. nm (recovered ?f j)) ` set its \<Longrightarrow> ?F (nm j) = None" for j n
    using Cons.IH [of ?r1, OF all(1) c1 all(3)] all(4) mp im rec by auto
  have fresh: "nm i \<notin> nm ` set its" "?n' \<notin> (\<lambda>j. nm (recovered ?f j)) ` set its" using nd by force+
  have n': "?F ?n' = ?f (nm i)"
  proof (cases "recovered ?f i = i")
    case True
    then have "?F (nm i) = ?f1 (nm i)" using ih(2) fresh by simp
    then show ?thesis using True f1 by simp
  next
    case False
    have "?n' \<notin> nm ` set its" using recovered_name_differs [OF io(2) _ False] all(1) nd(2) by (metis (no_types, lifting) imageE list_all_iff)
    then have "?F ?n' = ?f1 ?n'" using ih(2) fresh(2) by simp
    then show ?thesis using False f1 by simp
  qed
  show ?case unfolding eq
  proof (intro conjI ballI allI impI)
    show "?F (nm (recovered ?f j)) = ?f (nm j)" if "j \<in> set (i # its)" for j
      using that n' ih(1) same by (cases "j = i") auto
    show "?F n = ?f n" if "n \<notin> nm ` set (i # its) \<and> n \<notin> (\<lambda>j. nm (recovered ?f j)) ` set (i # its)" for n
      using that ih(2) [of n] f1 by auto
    show "?F (nm j) = None" if j: "j \<in> set (i # its)" and x: "nm j \<notin> (\<lambda>j. nm (recovered ?f j)) ` set (i # its)" for j
    proof (cases "j = i")
      case True
      then have "?F (nm i) = ?f1 (nm i)" using ih(2) [of "nm i"] fresh(1) x by auto
      moreover have "recovered ?f i \<noteq> i" "nm i \<noteq> ?n'" using x True by auto
      ultimately show ?thesis using f1 True by simp
    next
      case False
      then show ?thesis using ih(3) [of j] j x by auto
    qed
  qed
qed (simp add: recover_dir_def)

lemma Validate_complete: "files n = Some b \<Longrightarrow> ValidateFMP4File files n = Inr () \<longleftrightarrow> complete_fmp4 b"
  by (auto simp: ValidateFMP4File_accepts complete_fmp4_def)

lemma recovered_ongoing:
  assumes "files (ongoing_name s) = Some b"
  shows "recovered files (Ongoing s m) =
    (if complete_fmp4 b then Finished s (m\<lparr>nsec := 0\<rparr>) (Some m)
     else Foreign \<lparr>de_Name = corrupted_name s, de_IsDir = False, de_Info = Some m\<rparr>)"
  using Validate_complete [of files "ongoing_name s" b] assms by simp

lemma ongoing_left:
  assumes "list_all item_ok its" "list_all (crashed_ok files) its" "Ongoing s m \<in> set its" "distinct (map nm its)"
  shows "ongoing_name s \<notin> (\<lambda>i. nm (recovered files i)) ` set its"
proof
  assume "ongoing_name s \<in> (\<lambda>i. nm (recovered files i)) ` set its"
  then obtain i where i: "i \<in> set its" "nm (recovered files i) = ongoing_name s" by auto
  have "HasSuffix (ongoing_name s) ''_ongoing.mp4''" unfolding ongoing_name_def by (rule HasSuffix_append)
  moreover have "\<not> HasSuffix (nm (recovered files i)) ''_ongoing.mp4''"
  proof (cases i)
    case (Ongoing t n)
    then have "valid_civil n" using assms(2) i(1) by (auto simp: list_all_iff)
    then show ?thesis using Ongoing not_ongoing by simp
  next
    case (Finished t f info)
    then have "valid_civil f" using assms(1) i(1) by (auto simp: list_all_iff whole_def)
    then show ?thesis using Finished not_ongoing by simp
  next
    case (Foreign e)
    then have "nm (Foreign e) = nm (Ongoing s m)" using i(2) by simp
    then have "Foreign e = Ongoing s m" using assms(3,4) i(1) Foreign by (metis distinct_map inj_onD)
    then show ?thesis by simp
  qed
  ultimately show False using i(2) by simp
qed

text \<open>A recording whose last box was cut off by the crash is incomplete, whatever complete fragments precede it.\<close>

lemma torn_box:
  assumes "box_ok y" "0 < k" "k < length (box_bytes y)" "\<forall>x\<in>set cs. box_ok x"
  shows "take k (box_bytes y) \<noteq> boxes_bytes cs"
proof -
  let ?rest = "take k (box_bytes y)"
  have l: "length (box_bytes y) = length (snd y) + 8" using assms(1) by (cases y) (simp add: box_ok_def length_box_bytes)
  have n: "be_uint32 (take 4 (box_bytes y)) = length (box_bytes y)" using box_bytes_take(1) [OF assms(1), of "[]"] l by simp
  have "\<not> (8 \<le> length ?rest \<and> 8 \<le> be_uint32 (take 4 ?rest) \<and> be_uint32 (take 4 ?rest) \<le> length ?rest)"
  proof
    assume h: "8 \<le> length ?rest \<and> 8 \<le> be_uint32 (take 4 ?rest) \<and> be_uint32 (take 4 ?rest) \<le> length ?rest"
    then have "8 \<le> k" by simp
    then have "take 4 ?rest = take 4 (box_bytes y)" by (simp add: min_absorb1)
    then show False using h n assms(3) by simp
  qed
  from boxes_bytes_bad_header [OF assms(4) this] show ?thesis using assms(2) l by auto
qed

lemma torn_recording_incomplete:
  assumes "\<forall>x\<in>set bs. box_ok x" "box_ok y" "0 < k" "k < length (box_bytes y)"
  shows "\<not> complete_fmp4 (boxes_bytes bs @ take k (box_bytes y))"
proof -
  have "boxes_bytes bs @ take k (box_bytes y) \<noteq> boxes_bytes cs" if "\<forall>x\<in>set cs. box_ok x" for cs
    using assms(1) that
  proof (induction bs arbitrary: cs)
    case Nil
    then show ?case using torn_box [OF assms(2-4)] by (simp add: boxes_bytes_def)
  next
    case (Cons x bs)
    show ?case
    proof
      assume "boxes_bytes (x # bs) @ take k (box_bytes y) = boxes_bytes cs"
      then have "box_bytes x @ (boxes_bytes bs @ take k (box_bytes y)) = boxes_bytes cs" by (simp add: boxes_bytes_def)
      then obtain ds where "cs = x # ds" "boxes_bytes bs @ take k (box_bytes y) = boxes_bytes ds"
        using boxes_bytes_first [of cs x] Cons.prems by auto
      then show False using Cons.IH [of ds] Cons.prems by simp
    qed
  qed
  then show ?thesis unfolding complete_fmp4_def by blast
qed

subsection \<open>Properties\<close>

text \<open>C39: Crash recovery loses nothing. In a camera's directory of recordings and other files, when the renames
  succeed and no new name is taken, every recording that was being written is gone from its
  old name and its content, unchanged, is under the name of a finished recording (which the archive then
  lists from its start to its last modification) if it is a complete MP4 with at least one fragment,
  and under a name that the archive ignores otherwise. All other files stay as they are.\<close>

theorem crash_recovery:
  assumes "\<forall>n. ok n" "list_all item_ok its" "list_all (crashed_ok files) its" "distinct (map nm its)"
    and "distinct (map (\<lambda>i. nm (recovered files i)) its)"
    and "r = recover_dir ok cam (map item_entry its) \<lparr>rc_files = files, rc_count = 0, rc_events = []\<rparr>"
  shows "(\<forall>s m b. Ongoing s m \<in> set its \<and> files (ongoing_name s) = Some b \<longrightarrow> rc_files r (ongoing_name s) = None \<and>
      (if complete_fmp4 b
       then rc_files r (final_name (fmt_stamp s) m) = Some b \<and>
         interval_of now \<lparr>de_Name = final_name (fmt_stamp s) m, de_IsDir = False, de_Info = Some m\<rparr> =
           Some \<lparr>ri_StartTime = s, ri_EndTime = m\<lparr>nsec := 0\<rparr>, ri_Filename = final_name (fmt_stamp s) m\<rparr>
       else rc_files r (corrupted_name s) = Some b \<and>
         interval_of now \<lparr>de_Name = corrupted_name s, de_IsDir = False, de_Info = Some m\<rparr> = None)) \<and>
    (\<forall>i\<in>set its. recovered files i = i \<longrightarrow> rc_files r (nm i) = files (nm i)) \<and>
    (\<forall>n. n \<notin> nm ` set its \<and> n \<notin> (\<lambda>i. nm (recovered files i)) ` set its \<longrightarrow> rc_files r n = files n)"
proof -
  let ?r0 = "\<lparr>rc_files = files, rc_count = 0, rc_events = []\<rparr>"
  have ok: "\<And>n. ok n" using assms(1) by blast
  note law = recover_items [of ok its ?r0 cam, OF ok assms(2), simplified, OF assms(3,4) assms(5) [simplified], folded assms(6)]
  have o: "rc_files r (ongoing_name s) = None \<and>
      (if complete_fmp4 b
       then rc_files r (final_name (fmt_stamp s) m) = Some b \<and>
         interval_of now \<lparr>de_Name = final_name (fmt_stamp s) m, de_IsDir = False, de_Info = Some m\<rparr> =
           Some \<lparr>ri_StartTime = s, ri_EndTime = m\<lparr>nsec := 0\<rparr>, ri_Filename = final_name (fmt_stamp s) m\<rparr>
       else rc_files r (corrupted_name s) = Some b \<and>
         interval_of now \<lparr>de_Name = corrupted_name s, de_IsDir = False, de_Info = Some m\<rparr> = None)"
    if i: "Ongoing s m \<in> set its" and b: "files (ongoing_name s) = Some b" for s m b
  proof -
    have ok: "item_ok (Ongoing s m)" "crashed_ok files (Ongoing s m)" using assms(2,3) i by (auto simp: list_all_iff)
    have gone: "rc_files r (ongoing_name s) = None" using law i ongoing_left [OF assms(2,3) i assms(4)] by force
    have new: "rc_files r (nm (recovered files (Ongoing s m))) = Some b" using law i b by force
    note rec = recovered_ongoing [of files s b m, OF b]
    have fin: "item_ok (Finished s (m\<lparr>nsec := 0\<rparr>) (Some m))" using ok by (simp add: whole_def valid_civil_def)
    have "\<not> HasSuffix (corrupted_name s) ''.mp4''" by (auto simp: corrupted_name_def HasSuffix_iff)
    then show ?thesis using gone new interval_of_item [OF fin, of now] unfolding rec by (cases "complete_fmp4 b") (simp_all add: interval_of_def [of now "\<lparr>de_Name = corrupted_name s, de_IsDir = False, de_Info = Some m\<rparr>"])
  qed
  have same: "rc_files r (nm i) = files (nm i)" if i: "i \<in> set its" "recovered files i = i" for i
  proof -
    have "rc_files r (nm (recovered files i)) = files (nm i)" using law i(1) by blast
    then show ?thesis using i(2) by simp
  qed
  show ?thesis using o same law by blast
qed

definition demo_mp4 :: bytes where
  "demo_mp4 = boxes_bytes [(moov_type, [1, 2]), (moof_type, [3]), (mdat_type, [4, 5, 6, 7, 8])]"

lemma demo_mp4_complete: "complete_fmp4 demo_mp4"
  unfolding complete_fmp4_def demo_mp4_def
  by (intro exI [of _ "[(moov_type, [1, 2]), (moof_type, [3]), (mdat_type, [4, 5, 6, 7, 8])]"]) (simp add: box_ok_def length_box_bytes has_type_def)

lemma crash_recovery_witness:
  "\<exists>r. r = recover_dir (\<lambda>_. True) ''cam'' [item_entry (Ongoing demo_start demo_finish)]
        \<lparr>rc_files = [ongoing_name demo_start \<mapsto> demo_mp4], rc_count = 0, rc_events = []\<rparr> \<and>
     rc_files r (ongoing_name demo_start) = None \<and> rc_files r (final_name (fmt_stamp demo_start) demo_finish) = Some demo_mp4"
proof -
  let ?its = "[Ongoing demo_start demo_finish]" and ?f = "[ongoing_name demo_start \<mapsto> demo_mp4]"
  define r where "r = recover_dir (\<lambda>_. True) ''cam'' (map item_entry ?its) \<lparr>rc_files = ?f, rc_count = 0, rc_events = []\<rparr>"
  have ok: "list_all item_ok ?its" "list_all (crashed_ok ?f) ?its"
    by (simp_all add: demo_start_def demo_finish_def whole_def valid_civil_def days_in_def leap_def within_a_day_def same_date_def next_day_def day_secs_def)
  have "rc_files r (ongoing_name demo_start) = None \<and> rc_files r (final_name (fmt_stamp demo_start) demo_finish) = Some demo_mp4"
    using crash_recovery [of "\<lambda>_. True" ?its ?f r "''cam''" demo_finish, OF _ ok _ _ r_def] demo_mp4_complete by auto
  then show ?thesis using r_def by auto
qed

end
