(* ===== verification/Recorder.thy ===== *)
theory Recorder
  imports RingBuffer Timestamp Archive Recovery
begin

text \<open>
  The archive recorder (\<open>internal/recorder/recorder.go\<close>). One iteration of the loop of \<open>run\<close> takes a frame from
  the ring buffer; the local variables of the loop are the record \<open>recorder\<close>. Samples are shared between
  \<open>pendingSample\<close> and \<open>partSamples\<close> through pointers, so they live in a store. The fMP4 library is a
  parameter (\<open>fmp4_writer\<close>); \<open>loc\<close> reads an instant as local time, and \<open>rec_env\<close> says what the clock (read once per
  iteration), the operating system and the ring buffer answer. A write that fails may leave
  any bytes behind. Metrics, log lines and the dropping of the page cache have no effect on the model.

  Shown: without failures a recording holds every frame from its first keyframe on, in order and
  once, as one fragment per group of pictures, numbered from one, at the base time of its
  first frame; and whatever fails, a file under the name of a finished recording is a complete one, and
  so is the file being written from its first fragment on.
\<close>

record fmp4_writer =
  init_Marshal :: "fmp4_codec \<Rightarrow> bytes option"
  part_Marshal :: "nat \<Rightarrow> nat \<Rightarrow> fmp4_sample list \<Rightarrow> bytes option"
  NewPartSampleH26x :: "bool \<Rightarrow> bytes list \<Rightarrow> fmp4_sample option"

record rec_env =
  ev_now :: int
  ev_create :: "string option"
  ev_init :: "bytes option"
  ev_part :: "bytes option"
  ev_rename :: "string \<Rightarrow> bool"
  ev_rename_err :: string
  ev_delete :: bool
  ev_params :: "bytes option \<times> bytes \<times> bytes"

record recorder =
  rec_files :: "string \<rightharpoonup> bytes"
  rec_open :: bool
  rec_seqno :: nat
  partsWritten :: nat
  partSamples :: "nat list"
  partStartBaseTime :: nat
  rec_lastPts :: int
  recordStartTime :: int
  pendingSample :: "nat option"
  initialPts :: int
  currentFilename :: string
  lastGoodDuration :: nat
  rec_samples :: "nat \<Rightarrow> fmp4_sample"
  rec_fresh :: nat
  rec_events :: "(string \<times> (string \<times> string) list) list"
  onDegraded_calls :: "bool list"

definition new_recorder :: "(string \<rightharpoonup> bytes) \<Rightarrow> recorder" where
  "new_recorder files =
     \<lparr>rec_files = files, rec_open = False, rec_seqno = 0, partsWritten = 0, partSamples = [], partStartBaseTime = 0,
      rec_lastPts = 0, recordStartTime = 0, pendingSample = None, initialPts = - 1, currentFilename = [],
      lastGoodDuration = 90000 div 25, rec_samples = (\<lambda>_. \<lparr>s_Duration = 0, IsNonSyncSample = False, s_Payload = []\<rparr>),
      rec_fresh = 0, rec_events = [], onDegraded_calls = []\<rparr>"

definition rec_publish :: "string \<Rightarrow> (string \<times> string) list \<Rightarrow> recorder \<Rightarrow> recorder" where
  "rec_publish kind data s = s\<lparr>rec_events := rec_events s @ [(kind, data)]\<rparr>"

definition onDegraded :: "bool \<Rightarrow> recorder \<Rightarrow> recorder" where
  "onDegraded d s = s\<lparr>onDegraded_calls := onDegraded_calls s @ [d]\<rparr>"

definition finalize :: "(int \<Rightarrow> civil) \<Rightarrow> rec_env \<Rightarrow> bool \<Rightarrow> recorder \<Rightarrow> recorder" where
  "finalize loc env isError s =
     (if rec_open s then
        let cur = currentFilename s; dir = filepath_Dir cur in
        (if isError then
           let s1 = rec_publish ''recording_failed'' [(''error'', ''recording write failure''), (''file'', cur)] s;
               corruptedFilename = filepath_Join [dir, TrimSuffix (filepath_Base cur) ''.mp4'' @ ''.corrupted'']
           in s1\<lparr>rec_files := snd (fs_rename (ev_rename env) cur corruptedFilename (rec_files s)), rec_open := False\<rparr>
         else if 0 < partsWritten s then
           let finalFilename = filepath_Join [dir, final_name (fmt_stamp (loc (recordStartTime s))) (loc (ev_now env))] in
           (case fs_rename (ev_rename env) cur finalFilename (rec_files s) of
              (True, files') \<Rightarrow>
                (rec_publish ''archive_segment_ready'' [(''file'', finalFilename)] s)\<lparr>rec_files := files', rec_open := False\<rparr>
            | (False, files') \<Rightarrow>
                (rec_publish ''recording_failed'' [(''error'', ''failed to rename recording: '' @ ev_rename_err env), (''file'', cur)] s)
                  \<lparr>rec_files := files', rec_open := False\<rparr>)
         else s\<lparr>rec_files := (if ev_delete env then (rec_files s)(cur := None) else rec_files s), rec_open := False\<rparr>)
      else s)"

text \<open>Marshalling into the open file: \<open>enc\<close> is what the library produces, \<open>res\<close> what a failure leaves behind.\<close>

definition file_append :: "bytes \<Rightarrow> recorder \<Rightarrow> recorder" where
  "file_append x s =
     s\<lparr>rec_files := (case rec_files s (currentFilename s) of
        Some b \<Rightarrow> (rec_files s)(currentFilename s \<mapsto> b @ x) | None \<Rightarrow> rec_files s)\<rparr>"

definition marshal_to :: "bytes option \<Rightarrow> bytes option \<Rightarrow> recorder \<Rightarrow> bool \<times> recorder" where
  "marshal_to enc res s =
     (case (enc, res) of
        (Some bs, None) \<Rightarrow> (True, file_append bs s)
      | (None, None) \<Rightarrow> (False, s)
      | (_, Some junk) \<Rightarrow> (False, file_append junk s))"

definition marshal_part :: "fmp4_writer \<Rightarrow> rec_env \<Rightarrow> recorder \<Rightarrow> bool \<times> recorder" where
  "marshal_part W env s =
     (case marshal_to (part_Marshal W (rec_seqno s) (partStartBaseTime s) (map (rec_samples s) (partSamples s))) (ev_part env) s of
        (True, s1) \<Rightarrow> (True, s1\<lparr>partsWritten := u32 (partsWritten s1 + 1)\<rparr>)
      | (False, s1) \<Rightarrow> (False, s1))"

definition end_pending :: "nat \<Rightarrow> recorder \<Rightarrow> recorder" where
  "end_pending dur s =
     (case pendingSample s of
        None \<Rightarrow> s
      | Some a \<Rightarrow> s\<lparr>rec_samples := (rec_samples s)(a := (rec_samples s a)\<lparr>s_Duration := dur\<rparr>), partSamples := partSamples s @ [a]\<rparr>)"

definition drop_part :: "recorder \<Rightarrow> recorder" where
  "drop_part s = s\<lparr>pendingSample := None, partSamples := [], initialPts := - 1\<rparr>"

text \<open>Hourly rotation at a keyframe. The flag says that the iteration ends here (\<open>continue\<close>).\<close>

definition rec_rotate :: "fmp4_writer \<Rightarrow> (int \<Rightarrow> civil) \<Rightarrow> rec_env \<Rightarrow> frame \<Rightarrow> recorder \<Rightarrow> bool \<times> recorder" where
  "rec_rotate W loc env frame s =
     (if rec_open s \<and> IsKeyFrame frame \<and> 3600 * 10 ^ 9 < ev_now env - recordStartTime s then
        let s1 = end_pending (lastGoodDuration s) s in
        (case (if partSamples s1 \<noteq> [] then marshal_part W env s1 else (True, s1)) of
           (False, s2) \<Rightarrow> (True, drop_part (finalize loc env True (onDegraded True s2)))
         | (True, s2) \<Rightarrow> (False, (drop_part (finalize loc env False s2))\<lparr>partsWritten := 0\<rparr>))
      else (False, s))"

definition rec_codec :: "bytes option \<times> bytes \<times> bytes \<Rightarrow> fmp4_codec" where
  "rec_codec params =
     (case params of
        (Some vps, sps, pps) \<Rightarrow> CodecH265 vps sps pps
      | (None, sps, pps) \<Rightarrow> CodecH264 sps pps)"

definition rec_start :: "fmp4_writer \<Rightarrow> (int \<Rightarrow> civil) \<Rightarrow> string \<Rightarrow> rec_env \<Rightarrow> frame \<Rightarrow> recorder \<Rightarrow> bool \<times> recorder" where
  "rec_start W loc streamDir env frame s =
     (if rec_open s then (False, s)
      else if \<not> IsKeyFrame frame then (True, s)
      else
        let cur = filepath_Join [streamDir, ongoing_name (loc (ev_now env))];
            s1 = s\<lparr>recordStartTime := ev_now env, currentFilename := cur\<rparr>
        in (case ev_create env of
              Some err \<Rightarrow> (True, onDegraded True (rec_publish ''recording_failed'' [(''error'', err), (''file'', cur)] s1))
            | None \<Rightarrow>
                let s2 = onDegraded False (s1\<lparr>rec_files := (rec_files s1)(cur \<mapsto> []), rec_open := True\<rparr>) in
                (case marshal_to (init_Marshal W (rec_codec (ev_params env))) (ev_init env) s2 of
                   (False, s3) \<Rightarrow> (True, finalize loc env True (onDegraded True s3))
                 | (True, s3) \<Rightarrow>
                     (False, s3\<lparr>initialPts := DurationTo90k (Timestamp frame), partStartBaseTime := 0, rec_lastPts := 0,
                                rec_seqno := 1, partsWritten := 0, pendingSample := None, partSamples := []\<rparr>))))"

definition sample_duration :: "nat \<Rightarrow> int \<Rightarrow> nat" where
  "sample_duration good dur = (if dur \<le> 0 \<or> 90000 * 5 < dur then good else nat dur)"

definition rec_sample :: "fmp4_writer \<Rightarrow> frame \<Rightarrow> int \<Rightarrow> recorder \<Rightarrow> recorder" where
  "rec_sample W frame currentPts s =
     (let s1 = (if pendingSample s = None then s
                else let d = sample_duration (lastGoodDuration s) (s64 (currentPts - rec_lastPts s))
                     in end_pending d (s\<lparr>lastGoodDuration := d\<rparr>));
          s2 = (case NewPartSampleH26x W (IsKeyFrame frame) (NALUs frame) of
                  None \<Rightarrow> s1
                | Some x \<Rightarrow> s1\<lparr>rec_samples := (rec_samples s1)(rec_fresh s1 := x), pendingSample := Some (rec_fresh s1),
                              rec_fresh := rec_fresh s1 + 1\<rparr>)
      in s2\<lparr>rec_lastPts := currentPts\<rparr>)"

definition rec_flush :: "fmp4_writer \<Rightarrow> (int \<Rightarrow> civil) \<Rightarrow> rec_env \<Rightarrow> frame \<Rightarrow> int \<Rightarrow> recorder \<Rightarrow> recorder" where
  "rec_flush W loc env frame currentPts s =
     (if IsKeyFrame frame \<and> partSamples s \<noteq> [] then
        (case marshal_part W env s of
           (False, s1) \<Rightarrow> (drop_part (finalize loc env True (onDegraded True s1)))\<lparr>partsWritten := 0\<rparr>
         | (True, s1) \<Rightarrow>
             s1\<lparr>partSamples := [], rec_seqno := u32 (rec_seqno s1 + 1), partStartBaseTime := nat (currentPts mod 2 ^ 64)\<rparr>)
      else s)"

definition rec_frame :: "fmp4_writer \<Rightarrow> (int \<Rightarrow> civil) \<Rightarrow> string \<Rightarrow> rec_env \<Rightarrow> frame \<Rightarrow> recorder \<Rightarrow> recorder" where
  "rec_frame W loc streamDir env frame s =
     (case rec_rotate W loc env frame s of
        (True, s1) \<Rightarrow> s1
      | (False, s1) \<Rightarrow>
          (case rec_start W loc streamDir env frame s1 of
             (True, s2) \<Rightarrow> s2
           | (False, s2) \<Rightarrow>
               let currentPts = s64 (DurationTo90k (Timestamp frame) - initialPts s2)
               in rec_flush W loc env frame currentPts (rec_sample W frame currentPts s2)))"

text \<open>The end of the loop, and the handler of a panic.\<close>

definition rec_exit :: "fmp4_writer \<Rightarrow> (int \<Rightarrow> civil) \<Rightarrow> rec_env \<Rightarrow> recorder \<Rightarrow> recorder" where
  "rec_exit W loc env s =
     (if rec_open s then
        let s1 = end_pending (lastGoodDuration s) s;
            s2 = (if partSamples s1 \<noteq> [] then snd (marshal_part W env s1) else s1)
        in finalize loc env False s2
      else s)"

definition rec_panic :: "(int \<Rightarrow> civil) \<Rightarrow> rec_env \<Rightarrow> recorder \<Rightarrow> recorder" where
  "rec_panic loc env s = finalize loc env True (onDegraded True s)"

fun rec_run :: "fmp4_writer \<Rightarrow> (int \<Rightarrow> civil) \<Rightarrow> string \<Rightarrow> (rec_env \<times> frame) list \<Rightarrow> recorder \<Rightarrow> recorder" where
  "rec_run W loc streamDir [] s = s"
| "rec_run W loc streamDir ((env, frame) # fs) s = rec_run W loc streamDir fs (rec_frame W loc streamDir env frame s)"

subsection \<open>Whatever fails, finished recordings are complete\<close>

text \<open>What the library writes: an initialisation of at least two boxes with a \<open>moov\<close>, and parts that are a
  \<open>moof\<close> followed by an \<open>mdat\<close>.\<close>

definition init_boxes :: "box list \<Rightarrow> bool" where
  "init_boxes x \<longleftrightarrow> list_all box_ok x \<and> has_type moov_type x \<and> 2 \<le> length x"

definition writer_ok :: "fmp4_writer \<Rightarrow> bool" where
  "writer_ok W \<longleftrightarrow>
     (\<forall>c bs. init_Marshal W c = Some bs \<longrightarrow> (\<exists>x. bs = boxes_bytes x \<and> init_boxes x)) \<and>
     (\<forall>q b ss bs. part_Marshal W q b ss = Some bs \<longrightarrow>
        (\<exists>m d. bs = frag_bytes (m, d) \<and> box_ok (moof_type, m) \<and> box_ok (mdat_type, d)))"

definition temporary :: "(int \<Rightarrow> civil) \<Rightarrow> string \<Rightarrow> string \<Rightarrow> bool" where
  "temporary loc dir p \<longleftrightarrow> (\<exists>t. p = filepath_Join [dir, ongoing_name (loc t)] \<or> p = filepath_Join [dir, corrupted_name (loc t)])"

text \<open>Every file is an old one, a temporary one or a complete recording.\<close>

definition accounted :: "(int \<Rightarrow> civil) \<Rightarrow> string \<Rightarrow> (string \<rightharpoonup> bytes) \<Rightarrow> recorder \<Rightarrow> bool" where
  "accounted loc dir old s \<longleftrightarrow>
     (\<forall>p b. rec_files s p = Some b \<longrightarrow> old p = Some b \<or> temporary loc dir p \<or> complete_fmp4 b) \<and>
     (rec_open s \<longrightarrow> currentFilename s = filepath_Join [dir, ongoing_name (loc (recordStartTime s))] \<and>
        currentFilename s \<in> dom (rec_files s))"

definition started :: "bytes \<Rightarrow> bool" where
  "started b \<longleftrightarrow> (\<exists>x. b = boxes_bytes x \<and> init_boxes x)"

definition current_ok :: "recorder \<Rightarrow> bool" where
  "current_ok s \<longleftrightarrow> (rec_open s \<longrightarrow> (\<exists>b. rec_files s (currentFilename s) = Some b \<and> started b \<and> (0 < partsWritten s \<longrightarrow> complete_fmp4 b)))"

lemma boxes_length: "list_all box_ok x \<Longrightarrow> 8 * length x \<le> length (boxes_bytes x)"
  using box_bytes_nonempty by (induction x) fastforce+

lemma started_frag:
  assumes "started b" "box_ok (moof_type, m)" "box_ok (mdat_type, d)"
  shows "started (b @ frag_bytes (m, d)) \<and> complete_fmp4 (b @ frag_bytes (m, d))"
proof -
  obtain x where x: "b = boxes_bytes x" "init_boxes x" using assms(1) by (auto simp: started_def)
  let ?x = "x @ [(moof_type, m), (mdat_type, d)]"
  have b: "b @ frag_bytes (m, d) = boxes_bytes ?x" using x(1) by (simp add: frag_bytes_def)
  have i: "init_boxes ?x" using x(2) assms(2,3) by (auto simp: init_boxes_def has_type_def)
  have "8 * length ?x \<le> length (boxes_bytes ?x)" using i by (intro boxes_length) (simp add: init_boxes_def)
  then have "32 \<le> length (boxes_bytes ?x)" using x(2) by (simp add: init_boxes_def)
  then have "complete_fmp4 (boxes_bytes ?x)" unfolding complete_fmp4_def
    using i by (intro exI [of _ ?x]) (auto simp: init_boxes_def has_type_def list_all_iff)
  then show ?thesis unfolding b started_def using i by blast
qed

lemma proper_names:
  assumes "valid_civil t"
  shows "proper_name (ongoing_name t)" "proper_name (corrupted_name t)" "valid_civil u \<Longrightarrow> proper_name (final_name (fmt_stamp t) u)"
proof -
  have s: "slash \<notin> set (fmt_stamp t)" using stamp_chars [OF assms, of slash] by (auto simp: is_digit_def)
  have c: "slash \<notin> set (fmt_clock u)" if "valid_civil u" using clock_chars [OF that, of slash] by (auto simp: is_digit_def)
  have l: "proper_name (a @ b)" if "slash \<notin> set a" "slash \<notin> set b" "2 < length b" for a b
  proof -
    have "a @ b \<noteq> x" if "length x \<le> 2" for x using that \<open>2 < length b\<close> by auto
    then show ?thesis using that by (auto simp: proper_name_def plain_def)
  qed
  show "proper_name (ongoing_name t)" "proper_name (corrupted_name t)"
    unfolding ongoing_name_def corrupted_name_def by (rule l; use s in simp)+
  show "proper_name (final_name (fmt_stamp t) u)" if "valid_civil u"
    unfolding final_name_def by (rule l; use s c [OF that] in simp)
qed

lemma finalize_failed:
  assumes "accounted loc dir old s" "\<forall>t. valid_civil (loc t)" "dir \<noteq> []"
  shows "accounted loc dir old (finalize loc env True s)" "\<not> rec_open (finalize loc env True s)"
proof -
  let ?t = "loc (recordStartTime s)"
  let ?c = "filepath_Join [dir, corrupted_name ?t]"
  have n: "proper_name (ongoing_name ?t)" using assms(2) proper_names(1) by blast
  have "filepath_Join [filepath_Dir (currentFilename s), TrimSuffix (filepath_Base (currentFilename s)) ''.mp4'' @ ''.corrupted''] = ?c"
    if "rec_open s"
    using assms(1,2) that Dir_Base_Join [OF assms(3) n] Join_Clean [OF assms(3)] ongoing_parts(3) [of ?t]
    by (simp add: accounted_def)
  moreover have "temporary loc dir ?c" by (auto simp: temporary_def)
  ultimately show "accounted loc dir old (finalize loc env True s)"
    using assms(1) by (auto simp: accounted_def finalize_def rec_publish_def fs_rename_def Let_def split: option.splits)
  show "\<not> rec_open (finalize loc env True s)"
    by (simp add: finalize_def rec_publish_def Let_def)
qed

lemma finalize_done:
  assumes "accounted loc dir old s" "current_ok s"
  shows "accounted loc dir old (finalize loc env False s)" "\<not> rec_open (finalize loc env False s)"
proof -
  show "\<not> rec_open (finalize loc env False s)"
    by (simp add: finalize_def rec_publish_def Let_def split: prod.split bool.split)
  have "accounted loc dir old (s\<lparr>rec_files := f, rec_open := False\<rparr>)"
    if "\<forall>p b. f p = Some b \<longrightarrow> rec_files s p = Some b \<or> complete_fmp4 b" for f
    using assms(1) that unfolding accounted_def by (simp, blast)
  then have acc: "accounted loc dir old (r\<lparr>rec_files := f, rec_open := False\<rparr>)"
    if "\<forall>p b. f p = Some b \<longrightarrow> rec_files s p = Some b \<or> complete_fmp4 b" for f and r :: recorder
    using that by (simp add: accounted_def)
  show "accounted loc dir old (finalize loc env False s)"
  proof (cases "rec_open s")
    case True
    obtain b where b: "rec_files s (currentFilename s) = Some b" "0 < partsWritten s \<longrightarrow> complete_fmp4 b"
      using assms(2) True by (auto simp: current_ok_def)
    show ?thesis
    proof (cases "0 < partsWritten s")
      case True
      then show ?thesis using b \<open>rec_open s\<close>
        by (auto simp: finalize_def fs_rename_def Let_def intro!: acc split: if_splits)
    qed (use \<open>rec_open s\<close> assms(1) in \<open>auto simp: finalize_def Let_def accounted_def split: if_splits\<close>)
  qed (use assms(1) in \<open>simp add: finalize_def\<close>)
qed

lemma file_append_accounted:
  assumes "accounted loc dir old s" "rec_open s"
  shows "accounted loc dir old (file_append x s)"
proof -
  have "temporary loc dir (currentFilename s)" using assms by (auto simp: accounted_def temporary_def)
  then show ?thesis using assms by (auto simp: accounted_def file_append_def split: option.splits)
qed

lemma file_append_simps [simp]:
  "rec_open (file_append x s) = rec_open s" "currentFilename (file_append x s) = currentFilename s"
  "recordStartTime (file_append x s) = recordStartTime s" "partsWritten (file_append x s) = partsWritten s"
  "partSamples (file_append x s) = partSamples s"
  by (simp_all add: file_append_def)

text \<open>Fields neither definition looks at.\<close>

lemma accounted_upd [simp]:
  "accounted loc dir old (s\<lparr>partsWritten := v0\<rparr>) = accounted loc dir old s"
  "accounted loc dir old (s\<lparr>pendingSample := v1\<rparr>) = accounted loc dir old s"
  "accounted loc dir old (s\<lparr>partSamples := v2\<rparr>) = accounted loc dir old s"
  "accounted loc dir old (s\<lparr>initialPts := v3\<rparr>) = accounted loc dir old s"
  "accounted loc dir old (s\<lparr>lastGoodDuration := v4\<rparr>) = accounted loc dir old s"
  "accounted loc dir old (s\<lparr>rec_samples := v5\<rparr>) = accounted loc dir old s"
  "accounted loc dir old (s\<lparr>rec_fresh := v6\<rparr>) = accounted loc dir old s"
  "accounted loc dir old (s\<lparr>rec_events := v7\<rparr>) = accounted loc dir old s"
  "accounted loc dir old (s\<lparr>onDegraded_calls := v8\<rparr>) = accounted loc dir old s"
  "accounted loc dir old (s\<lparr>rec_lastPts := v9\<rparr>) = accounted loc dir old s"
  "accounted loc dir old (s\<lparr>rec_seqno := v10\<rparr>) = accounted loc dir old s"
  "accounted loc dir old (s\<lparr>partStartBaseTime := v11\<rparr>) = accounted loc dir old s"
  by (simp_all add: accounted_def)

lemma current_ok_upd [simp]:
  "current_ok (s\<lparr>pendingSample := v0\<rparr>) = current_ok s"
  "current_ok (s\<lparr>partSamples := v1\<rparr>) = current_ok s"
  "current_ok (s\<lparr>initialPts := v2\<rparr>) = current_ok s"
  "current_ok (s\<lparr>lastGoodDuration := v3\<rparr>) = current_ok s"
  "current_ok (s\<lparr>rec_samples := v4\<rparr>) = current_ok s"
  "current_ok (s\<lparr>rec_fresh := v5\<rparr>) = current_ok s"
  "current_ok (s\<lparr>rec_events := v6\<rparr>) = current_ok s"
  "current_ok (s\<lparr>onDegraded_calls := v7\<rparr>) = current_ok s"
  "current_ok (s\<lparr>rec_lastPts := v8\<rparr>) = current_ok s"
  "current_ok (s\<lparr>rec_seqno := v9\<rparr>) = current_ok s"
  "current_ok (s\<lparr>partStartBaseTime := v10\<rparr>) = current_ok s"
  by (simp_all add: current_ok_def)

definition rec_ok :: "(int \<Rightarrow> civil) \<Rightarrow> string \<Rightarrow> (string \<rightharpoonup> bytes) \<Rightarrow> recorder \<Rightarrow> bool" where
  "rec_ok loc dir old s \<longleftrightarrow> accounted loc dir old s \<and> current_ok s"

lemma closed_ok: "accounted loc dir old s \<Longrightarrow> \<not> rec_open s \<Longrightarrow> rec_ok loc dir old s"
  by (simp add: rec_ok_def current_ok_def)

lemma marshal_part_ok:
  assumes "writer_ok W" "rec_ok loc dir old s" "rec_open s" "marshal_part W env s = (ok, s')"
  shows "accounted loc dir old s'" "rec_open s'" "ok \<Longrightarrow> rec_ok loc dir old s'"
proof -
  let ?enc = "part_Marshal W (rec_seqno s) (partStartBaseTime s) (map (rec_samples s) (partSamples s))"
  have acc: "accounted loc dir old (file_append x s)" for x
    using assms(2,3) file_append_accounted by (simp add: rec_ok_def)
  obtain b where b: "rec_files s (currentFilename s) = Some b" "started b"
    using assms(2,3) by (auto simp: rec_ok_def current_ok_def)
  have s': "s' = (case (?enc, ev_part env) of (Some bs, None) \<Rightarrow> (file_append bs s)\<lparr>partsWritten := u32 (partsWritten s + 1)\<rparr>
      | (None, None) \<Rightarrow> s | (_, Some j) \<Rightarrow> file_append j s)" "ok = (?enc \<noteq> None \<and> ev_part env = None)"
    using assms(4) by (auto simp: marshal_part_def marshal_to_def split: option.splits)
  show a: "accounted loc dir old s'" unfolding s'(1) using acc assms(2)
    by (auto simp: rec_ok_def split: option.splits)
  show "rec_open s'" unfolding s'(1) using assms(3) by (auto split: option.splits)
  assume ok
  then obtain bs where bs: "?enc = Some bs" "ev_part env = None" using s'(2) by auto
  then obtain m d where md: "bs = frag_bytes (m, d)" "box_ok (moof_type, m)" "box_ok (mdat_type, d)"
    using assms(1) unfolding writer_ok_def by blast
  have "rec_files s' (currentFilename s') = Some (b @ bs)" using b(1) bs by (simp add: s'(1) file_append_def)
  then have "current_ok s'" using started_frag [OF b(2) md(2,3)] md(1) by (simp add: current_ok_def)
  then show "rec_ok loc dir old s'" using a by (simp add: rec_ok_def)
qed

lemma end_pending_ok [simp]:
  "rec_ok loc dir old (end_pending d s) = rec_ok loc dir old s" "rec_open (end_pending d s) = rec_open s"
  by (auto simp: rec_ok_def end_pending_def split: option.splits)

lemma rec_sample_ok [simp]:
  "rec_ok loc dir old (rec_sample W f pts s) = rec_ok loc dir old s" "rec_open (rec_sample W f pts s) = rec_open s"
proof -
  have upd: "rec_ok loc dir old (s\<lparr>lastGoodDuration := v\<rparr>) = rec_ok loc dir old s" for v :: nat and s :: recorder
    by (simp add: rec_ok_def)
  define s1 where "s1 = (if pendingSample s = None then s
    else let d = sample_duration (lastGoodDuration s) (s64 (pts - rec_lastPts s)) in end_pending d (s\<lparr>lastGoodDuration := d\<rparr>))"
  have 1: "rec_ok loc dir old s1 = rec_ok loc dir old s" "rec_open s1 = rec_open s"
    by (simp_all add: s1_def Let_def upd)
  have "rec_ok loc dir old (rec_sample W f pts s) = rec_ok loc dir old s1 \<and> rec_open (rec_sample W f pts s) = rec_open s1"
    unfolding rec_sample_def s1_def [symmetric] by (simp add: rec_ok_def Let_def split: option.split)
  with 1 show "rec_ok loc dir old (rec_sample W f pts s) = rec_ok loc dir old s" "rec_open (rec_sample W f pts s) = rec_open s"
    by simp_all
qed

lemma drop_part_ok [simp]: "accounted loc dir old (drop_part s) = accounted loc dir old s" "rec_open (drop_part s) = rec_open s"
  by (simp_all add: drop_part_def)

lemma onDegraded_ok [simp]: "accounted loc dir old (onDegraded d s) = accounted loc dir old s" "rec_open (onDegraded d s) = rec_open s"
  "current_ok (onDegraded d s) = current_ok s"
  by (simp_all add: onDegraded_def)

lemma rec_rotate_ok:
  assumes "writer_ok W" "rec_ok loc dir old s" "\<forall>t. valid_civil (loc t)" "dir \<noteq> []" "rec_rotate W loc env f s = (stop, s')"
  shows "rec_ok loc dir old s'"
proof (cases "rec_open s \<and> IsKeyFrame f \<and> 3600 * 10 ^ 9 < ev_now env - recordStartTime s")
  case True
  define s1 where "s1 = end_pending (lastGoodDuration s) s"
  obtain ok s2 where m: "(if partSamples s1 \<noteq> [] then marshal_part W env s1 else (True, s1)) = (ok, s2)" by (rule prod.exhaust)
  have s1: "rec_ok loc dir old s1" "rec_open s1" using assms(2) True by (simp_all add: s1_def)
  have s2: "accounted loc dir old s2" "ok \<Longrightarrow> rec_ok loc dir old s2"
    using m marshal_part_ok [OF assms(1) s1, of env ok s2] s1(1) by (auto simp: rec_ok_def split: if_splits)
  have "s' = (if ok then (drop_part (finalize loc env False s2))\<lparr>partsWritten := 0\<rparr>
      else drop_part (finalize loc env True (onDegraded True s2)))"
    using assms(5) unfolding rec_rotate_def if_P [OF True] Let_def s1_def [symmetric] m by (cases ok) auto
  then show ?thesis
    using s2 finalize_done [of loc dir old s2 env] finalize_failed [of loc dir old "onDegraded True s2" env] assms(3,4)
    by (auto simp: rec_ok_def current_ok_def)
qed (use assms(2,5) in \<open>auto simp: rec_rotate_def\<close>)

lemma rec_start_ok:
  assumes "writer_ok W" "rec_ok loc dir old s" "\<forall>t. valid_civil (loc t)" "dir \<noteq> []" "rec_start W loc dir env f s = (stop, s')"
  shows "rec_ok loc dir old s'" "\<not> stop \<Longrightarrow> rec_open s'"
proof -
  define cur where "cur = filepath_Join [dir, ongoing_name (loc (ev_now env))]"
  define s1 where "s1 = s\<lparr>recordStartTime := ev_now env, currentFilename := cur\<rparr>"
  define s2 where "s2 = onDegraded False (s1\<lparr>rec_files := (rec_files s1)(cur \<mapsto> []), rec_open := True\<rparr>)"
  have tmp: "temporary loc dir cur" by (auto simp: temporary_def cur_def)
  have a2: "accounted loc dir old s2" using assms(2) tmp
    by (auto simp: rec_ok_def accounted_def s2_def s1_def cur_def onDegraded_def)
  have f2: "rec_files s2 (currentFilename s2) = Some []" "rec_open s2" by (simp_all add: s2_def s1_def onDegraded_def)
  obtain ok s3 where m: "marshal_to (init_Marshal W (rec_codec (ev_params env))) (ev_init env) s2 = (ok, s3)" by (rule prod.exhaust)
  have a3: "accounted loc dir old s3" "rec_open s3"
    using m a2 f2 file_append_accounted [OF a2 f2(2)] by (auto simp: marshal_to_def split: option.splits)
  have c3: "\<exists>b. rec_files s3 (currentFilename s3) = Some b \<and> started b" if h: ok
  proof -
    obtain bs where bs: "init_Marshal W (rec_codec (ev_params env)) = Some bs" "s3 = file_append bs s2"
      using m h by (auto simp: marshal_to_def split: option.splits)
    have "started bs" using assms(1) bs(1) unfolding writer_ok_def started_def by blast
    then show ?thesis using f2(1) bs(2) by (simp add: file_append_def)
  qed
  have failed: "rec_ok loc dir old (finalize loc env True (onDegraded True s3))"
    using a3 finalize_failed [of loc dir old "onDegraded True s3" env] assms(3,4) by (intro closed_ok) simp_all
  show "rec_ok loc dir old s'" "\<not> stop \<Longrightarrow> rec_open s'"
  proof -
    have cases: "(rec_open s \<and> s' = s \<and> \<not> stop) \<or> (\<not> rec_open s \<and> stop \<and> s' = s) \<or>
      (\<not> rec_open s \<and> stop \<and> (\<exists>err. s' = onDegraded True (rec_publish ''recording_failed'' [(''error'', err), (''file'', cur)] s1))) \<or>
      (stop \<and> s' = finalize loc env True (onDegraded True s3)) \<or>
      (\<not> stop \<and> ok \<and> s' = s3\<lparr>initialPts := DurationTo90k (Timestamp f), partStartBaseTime := 0, rec_lastPts := 0,
                                rec_seqno := 1, partsWritten := 0, pendingSample := None, partSamples := []\<rparr>)"
      using assms(5) m unfolding rec_start_def cur_def [symmetric] s1_def [symmetric] Let_def s2_def [symmetric]
      by (auto split: if_splits option.splits bool.splits)
    show "rec_ok loc dir old s'"
      using cases
    proof (elim disjE conjE exE)
      assume "ok" and s': "s' = s3\<lparr>initialPts := DurationTo90k (Timestamp f), partStartBaseTime := 0, rec_lastPts := 0,
        rec_seqno := 1, partsWritten := 0, pendingSample := None, partSamples := []\<rparr>"
      have "accounted loc dir old s'" "current_ok s'" unfolding s' using a3 c3 [OF \<open>ok\<close>] by (simp_all add: current_ok_def)
      then show ?thesis by (simp add: rec_ok_def)
    next
      fix err assume "\<not> rec_open s" "s' = onDegraded True (rec_publish ''recording_failed'' [(''error'', err), (''file'', cur)] s1)"
      then show ?thesis using assms(2) by (simp add: rec_ok_def accounted_def current_ok_def rec_publish_def s1_def onDegraded_def)
    qed (use assms(2) failed in simp_all)
    show "rec_open s'" if "\<not> stop" using cases that a3(2) by auto
  qed
qed

lemma rec_flush_ok:
  assumes "writer_ok W" "rec_ok loc dir old s" "\<forall>t. valid_civil (loc t)" "dir \<noteq> []" "rec_open s"
  shows "rec_ok loc dir old (rec_flush W loc env f pts s)"
proof (cases "IsKeyFrame f \<and> partSamples s \<noteq> []")
  case True
  obtain ok s1 where m: "marshal_part W env s = (ok, s1)" by (rule prod.exhaust)
  note s1 = marshal_part_ok [OF assms(1,2,5) m]
  show ?thesis
    using s1 finalize_failed [of loc dir old "onDegraded True s1" env] assms(3,4) True
    by (cases ok) (auto simp: rec_flush_def m rec_ok_def current_ok_def)
qed (use assms(2) in \<open>auto simp: rec_flush_def\<close>)

lemma rec_frame_ok:
  assumes "writer_ok W" "rec_ok loc dir old s" "\<forall>t. valid_civil (loc t)" "dir \<noteq> []"
  shows "rec_ok loc dir old (rec_frame W loc dir env f s)"
proof -
  obtain stop1 s1 where 1: "rec_rotate W loc env f s = (stop1, s1)" by (rule prod.exhaust)
  obtain stop2 s2 where 2: "rec_start W loc dir env f s1 = (stop2, s2)" by (rule prod.exhaust)
  note s1 = rec_rotate_ok [OF assms 1]
  note s2 = rec_start_ok [OF assms(1) s1 assms(3,4) 2]
  show ?thesis
    using s1 s2 rec_flush_ok [OF assms(1) _ assms(3,4)]
    by (cases stop1; cases stop2) (simp_all add: rec_frame_def 1 2 Let_def)
qed

lemma rec_run_ok:
  assumes "writer_ok W" "\<forall>t. valid_civil (loc t)" "dir \<noteq> []"
  shows "rec_ok loc dir old s \<Longrightarrow> rec_ok loc dir old (rec_run W loc dir fs s)"
  using rec_frame_ok [OF assms(1) _ assms(2,3)]
  by (induction W loc dir fs s rule: rec_run.induct) simp_all

lemma rec_exit_ok:
  assumes "writer_ok W" "rec_ok loc dir old s" "ev_part env = None"
  shows "rec_ok loc dir old (rec_exit W loc env s)" "\<not> rec_open (rec_exit W loc env s)"
proof -
  define s1 where "s1 = end_pending (lastGoodDuration s) s"
  define s2 where "s2 = (if partSamples s1 \<noteq> [] then snd (marshal_part W env s1) else s1)"
  have "rec_ok loc dir old s2" if "rec_open s"
  proof -
    have s1: "rec_ok loc dir old s1" "rec_open s1" using assms(2) that by (simp_all add: s1_def)
    obtain ok s' where m: "marshal_part W env s1 = (ok, s')" by (rule prod.exhaust)
    have "s' = s1" if "\<not> ok" using m that assms(3) by (auto simp: marshal_part_def marshal_to_def split: option.splits)
    then have "rec_ok loc dir old s'" using marshal_part_ok(3) [OF assms(1) s1 m] s1(1) by blast
    then show ?thesis using s1(1) m by (simp add: s2_def)
  qed
  then show "rec_ok loc dir old (rec_exit W loc env s)" "\<not> rec_open (rec_exit W loc env s)"
    using finalize_done [of loc dir old s2 env] assms(2)
    unfolding rec_exit_def s1_def [symmetric] Let_def s2_def [symmetric] by (auto simp: rec_ok_def current_ok_def)
qed

lemma rec_panic_ok:
  assumes "rec_ok loc dir old s" "\<forall>t. valid_civil (loc t)" "dir \<noteq> []"
  shows "rec_ok loc dir old (rec_panic loc env s)"
  using finalize_failed [of loc dir old "onDegraded True s" env] assms
  by (intro closed_ok) (simp_all add: rec_panic_def rec_ok_def)

subsection \<open>Without failures, a recording holds every frame\<close>

text \<open>What a recording of frames \<open>fs\<close> should be: the groups of pictures, the time of a frame relative to the
  first, and the samples with their durations (\<open>g\<close> is the last plausible duration seen before).\<close>

fun gops :: "frame list \<Rightarrow> frame list list" where
  "gops [] = []"
| "gops [f] = [[f]]"
| "gops (f # f' # fs) =
     (case gops (f' # fs) of
        h # t \<Rightarrow> if IsKeyFrame f' then [f] # h # t else (f # h) # t
      | [] \<Rightarrow> [])"

definition rel_pts :: "int \<Rightarrow> frame \<Rightarrow> int" where
  "rel_pts p0 f = s64 (DurationTo90k (Timestamp f) - p0)"

fun durations :: "nat \<Rightarrow> int list \<Rightarrow> nat list" where
  "durations g [] = []"
| "durations g [p] = [g]"
| "durations g (p # q # ps) = (let d = sample_duration g (s64 (q - p)) in d # durations d (q # ps))"

definition sample_of :: "fmp4_writer \<Rightarrow> frame \<Rightarrow> nat \<Rightarrow> fmp4_sample" where
  "sample_of W f d = (the (NewPartSampleH26x W (IsKeyFrame f) (NALUs f)))\<lparr>s_Duration := d\<rparr>"

definition track :: "fmp4_writer \<Rightarrow> nat \<Rightarrow> int \<Rightarrow> frame list \<Rightarrow> fmp4_sample list" where
  "track W g p0 fs = map2 (sample_of W) fs (durations g (map (rel_pts p0) fs))"

fun cut_at :: "'a list list \<Rightarrow> 'b list \<Rightarrow> 'b list list" where
  "cut_at [] ys = []"
| "cut_at (g # gs) ys = take (length g) ys # cut_at gs (drop (length g) ys)"

definition base_time :: "int \<Rightarrow> frame list \<Rightarrow> nat" where
  "base_time p0 g = nat (rel_pts p0 (hd g) mod 2 ^ 64)"

fun encode_parts :: "fmp4_writer \<Rightarrow> nat \<Rightarrow> (nat \<times> fmp4_sample list) list \<Rightarrow> bytes" where
  "encode_parts W q [] = []"
| "encode_parts W q ((b, ss) # ps) = the (part_Marshal W q b ss) @ encode_parts W (q + 1) ps"

definition parts_of :: "int \<Rightarrow> frame list list \<Rightarrow> fmp4_sample list \<Rightarrow> (nat \<times> fmp4_sample list) list" where
  "parts_of p0 G S = zip (map (base_time p0) G) (cut_at G S)"

lemma gops_nonempty: "fs \<noteq> [] \<Longrightarrow> gops fs \<noteq> []"
  by (induction fs rule: gops.induct) (auto split: list.splits)

lemma concat_gops [simp]: "concat (gops fs) = fs"
proof (induction fs rule: gops.induct)
  case (3 f f' fs)
  then show ?case using gops_nonempty [of "f' # fs"] by (auto split: list.splits)
qed simp_all

lemma gops_heads:
  "IsKeyFrame (hd fs) \<Longrightarrow> g \<in> set (gops fs) \<Longrightarrow> g \<noteq> [] \<and> IsKeyFrame (hd g) \<and> (\<forall>f\<in>set (tl g). \<not> IsKeyFrame f)"
proof -
  have gen: "gops fs = h # t \<Longrightarrow> h \<noteq> [] \<and> hd h = hd fs \<and> (\<forall>f\<in>set (tl h). \<not> IsKeyFrame f) \<and>
    (\<forall>g\<in>set t. g \<noteq> [] \<and> IsKeyFrame (hd g) \<and> (\<forall>f\<in>set (tl g). \<not> IsKeyFrame f))" for h t
  proof (induction fs arbitrary: h t rule: gops.induct)
    case (3 f f' fs)
    obtain h' t' where g: "gops (f' # fs) = h' # t'" using gops_nonempty [of "f' # fs"] by (cases "gops (f' # fs)") auto
    note IH = "3.IH" [OF g]
    show ?case using "3.prems" IH by (cases h') (auto simp: g split: if_splits)
  qed simp_all
  assume "IsKeyFrame (hd fs)" "g \<in> set (gops fs)"
  then show ?thesis using gen by (cases "gops fs") auto
qed

lemma gops_snoc:
  "fs \<noteq> [] \<Longrightarrow> gops (fs @ [f]) =
     (if IsKeyFrame f then gops fs @ [[f]] else butlast (gops fs) @ [last (gops fs) @ [f]])"
proof (induction fs rule: gops.induct)
  case (3 f1 f' fs)
  have ne: "gops (f' # fs) \<noteq> []" by (rule gops_nonempty) simp
  from "3.IH" have IH: "gops (f' # fs @ [f]) =
     (if IsKeyFrame f then gops (f' # fs) @ [[f]] else butlast (gops (f' # fs)) @ [last (gops (f' # fs)) @ [f]])" by simp
  show ?case using IH ne by (cases "gops (f' # fs)") (auto split: list.splits)
qed simp_all

lemma length_durations [simp]: "length (durations g ps) = length ps"
  by (induction g ps rule: durations.induct) (simp_all add: Let_def)

lemma durations_snoc:
  "ps \<noteq> [] \<Longrightarrow> durations g (ps @ [q]) =
     (let d = sample_duration (last (durations g ps)) (s64 (q - last ps)) in butlast (durations g ps) @ [d, d])"
proof (induction g ps rule: durations.induct)
  case (3 g p q' ps)
  have "durations x (q' # ps) \<noteq> []" for x using length_durations [of x "q' # ps"] by (metis length_0_conv list.distinct(1))
  then show ?case using 3 by (simp add: Let_def)
qed (simp_all add: Let_def)

lemma length_track [simp]: "length (track W g p0 fs) = length fs"
  by (simp add: track_def)

lemma map2_snoc: "length xs = length ys \<Longrightarrow> map2 f (xs @ [x]) (ys @ [y]) = map2 f xs ys @ [f x y]"
  by (induction xs ys rule: list_induct2) simp_all

lemma track_butlast:
  assumes "fs \<noteq> []"
  shows "track W g p0 fs = butlast (track W g p0 fs) @ [sample_of W (last fs) (last (durations g (map (rel_pts p0) fs)))]"
proof -
  let ?d = "durations g (map (rel_pts p0) fs)"
  have ne: "track W g p0 fs \<noteq> []" "?d \<noteq> []"
    using assms by (metis length_0_conv length_track, metis length_0_conv length_durations length_map)
  have "last (track W g p0 fs) = sample_of W (last fs) (last ?d)"
    using assms ne by (simp add: track_def last_map last_zip)
  then show ?thesis using append_butlast_last_id [OF ne(1)] by simp
qed

lemma track_snoc:
  fixes g :: nat and p0 :: int and f :: frame
  assumes "fs \<noteq> []"
  defines "d \<equiv> sample_duration (last (durations g (map (rel_pts p0) fs))) (s64 (rel_pts p0 f - rel_pts p0 (last fs)))"
  shows "track W g p0 (fs @ [f]) = butlast (track W g p0 fs) @ [sample_of W (last fs) d, sample_of W f d]"
    "last (durations g (map (rel_pts p0) (fs @ [f]))) = d"
proof -
  let ?d = "durations g (map (rel_pts p0) fs)"
  have D: "durations g (map (rel_pts p0) (fs @ [f])) = (butlast ?d @ [d]) @ [d]"
    using durations_snoc [of "map (rel_pts p0) fs" g "rel_pts p0 f"] assms by (simp add: last_map Let_def)
  show "last (durations g (map (rel_pts p0) (fs @ [f]))) = d" unfolding D by simp
  obtain xs x where fs: "fs = xs @ [x]" using assms(1) by (cases fs rule: rev_cases) auto
  obtain ds y where ds: "?d = ds @ [y]" using assms(1) length_durations [of g "map (rel_pts p0) fs"] by (cases ?d rule: rev_cases) auto
  have l: "length xs = length ds" using arg_cong [OF ds, of length] fs by simp
  have "track W g p0 fs = map2 (sample_of W) xs ds @ [sample_of W x y]"
    unfolding track_def ds unfolding fs using l by (simp add: map2_snoc)
  moreover have "track W g p0 (fs @ [f]) = map2 (sample_of W) xs ds @ [sample_of W x d, sample_of W f d]"
    unfolding track_def D unfolding ds unfolding fs using l
      map2_snoc [of "xs @ [x]" "ds @ [d]" "sample_of W" f d] map2_snoc [of xs ds "sample_of W" x d] by simp
  ultimately show "track W g p0 (fs @ [f]) = butlast (track W g p0 fs) @ [sample_of W (last fs) d, sample_of W f d]"
    using fs by simp
qed

lemma cut_append: "length (concat G) \<le> length xs \<Longrightarrow> cut_at G (xs @ ys) = cut_at G xs"
  by (induction G arbitrary: xs) auto

lemma cut_snoc: "cut_at (G @ [g]) xs = cut_at G xs @ [take (length g) (drop (length (concat G)) xs)]"
  by (induction G arbitrary: xs) (simp_all add: add.commute)

lemma length_cut [simp]: "length (cut_at G xs) = length G"
  by (induction G arbitrary: xs) simp_all

lemma encode_parts_append: "encode_parts W q (ps @ rs) = encode_parts W q ps @ encode_parts W (q + length ps) rs"
  by (induction W q ps rule: encode_parts.induct) simp_all

lemma parts_of_snoc:
  "parts_of p0 (G @ [g]) S = parts_of p0 G S @ [(base_time p0 g, take (length g) (drop (length (concat G)) S))]"
  by (simp add: parts_of_def cut_snoc)

lemma parts_of_append: "length (concat G) \<le> length xs \<Longrightarrow> parts_of p0 G (xs @ ys) = parts_of p0 G xs"
  by (simp add: parts_of_def cut_append)

lemma length_parts_of [simp]: "length (parts_of p0 G S) = length G"
  by (simp add: parts_of_def)

text \<open>The state of the loop after recording frames \<open>fs\<close> into the file \<open>cur\<close>.\<close>

definition recording ::
  "fmp4_writer \<Rightarrow> (string \<rightharpoonup> bytes) \<Rightarrow> string \<Rightarrow> int \<Rightarrow> bytes \<Rightarrow> nat \<Rightarrow> int \<Rightarrow> frame list \<Rightarrow> recorder \<Rightarrow> bool" where
  "recording W F cur t0 ib g p0 fs s \<longleftrightarrow>
     rec_open s \<and> currentFilename s = cur \<and> recordStartTime s = t0 \<and> initialPts s = p0 \<and>
     rec_files s = F(cur \<mapsto> ib @ encode_parts W 1 (parts_of p0 (butlast (gops fs)) (track W g p0 fs))) \<and>
     partsWritten s = length (gops fs) - 1 \<and> rec_seqno s = length (gops fs) \<and>
     partStartBaseTime s = base_time p0 (last (gops fs)) \<and> rec_lastPts s = rel_pts p0 (last fs) \<and>
     lastGoodDuration s = last (durations g (map (rel_pts p0) fs)) \<and>
     (\<exists>a. pendingSample s = Some a \<and> a < rec_fresh s \<and>
        rec_samples s a = the (NewPartSampleH26x W (IsKeyFrame (last fs)) (NALUs (last fs))) \<and>
        (\<forall>x\<in>set (partSamples s). x < rec_fresh s \<and> x \<noteq> a)) \<and>
     map (rec_samples s) (partSamples s) = drop (length (concat (butlast (gops fs)))) (butlast (track W g p0 fs))"

definition smooth_env :: "int \<Rightarrow> rec_env \<Rightarrow> bool" where
  "smooth_env t0 env \<longleftrightarrow> ev_part env = None \<and> ev_now env - t0 \<le> 3600 * 10 ^ 9"

definition encodes :: "fmp4_writer \<Rightarrow> bool" where
  "encodes W \<longleftrightarrow> (\<forall>q b ss. ss \<noteq> [] \<longrightarrow> part_Marshal W q b ss \<noteq> None)"

lemma length_gops: "length (gops fs) \<le> length fs"
proof (induction fs rule: gops.induct)
  case (3 f f' fs)
  then show ?case by (cases "gops (f' # fs)") auto
qed simp_all

lemma last_gop: "fs \<noteq> [] \<Longrightarrow> last (gops fs) \<noteq> []"
  by (induction fs rule: gops.induct) (auto split: list.splits if_splits dest: gops_nonempty)

lemma length_before: "fs \<noteq> [] \<Longrightarrow> length (concat (butlast (gops fs))) \<le> length fs - 1"
proof -
  assume fs: "fs \<noteq> []"
  have G: "gops fs = butlast (gops fs) @ [last (gops fs)]" using gops_nonempty [OF fs] by simp
  have "last (gops fs) \<noteq> []" using fs by (rule last_gop)
  moreover have "length fs = length (concat (butlast (gops fs))) + length (last (gops fs))"
    using arg_cong [OF G, of "\<lambda>x. length (concat x)"] by simp
  ultimately show ?thesis by (cases "last (gops fs)") auto
qed

lemma close_gop:
  assumes "fs \<noteq> []"
    and "part_Marshal W (length (gops fs)) (base_time p0 (last (gops fs))) (drop (length (concat (butlast (gops fs)))) (take (length fs) S)) = Some bs"
  shows "encode_parts W 1 (parts_of p0 (gops fs) S) = encode_parts W 1 (parts_of p0 (butlast (gops fs)) S) @ bs"
proof -
  let ?G = "gops fs"
  have Gs: "?G = butlast ?G @ [last ?G]" using gops_nonempty [OF assms(1)] by simp
  have "length fs = length (concat (butlast ?G)) + length (last ?G)"
    using arg_cong [OF Gs, of "\<lambda>x. length (concat x)"] by simp
  then have "take (length (last ?G)) (drop (length (concat (butlast ?G))) S) = drop (length (concat (butlast ?G))) (take (length fs) S)"
    by (simp add: drop_take)
  then have "parts_of p0 ?G S = parts_of p0 (butlast ?G) S @
      [(base_time p0 (last ?G), drop (length (concat (butlast ?G))) (take (length fs) S))]"
    using parts_of_snoc [of p0 "butlast ?G" "last ?G" S, folded Gs] by simp
  then show ?thesis using assms(2) gops_nonempty [OF assms(1)] by (simp add: encode_parts_append Suc_diff_1)
qed

lemma end_pending_recording:
  assumes "recording W F cur t0 ib g p0 fs s"
  shows "\<exists>a. pendingSample s = Some a \<and> partSamples (end_pending d s) = partSamples s @ [a] \<and>
    map (rec_samples (end_pending d s)) (partSamples (end_pending d s)) =
      drop (length (concat (butlast (gops fs)))) (butlast (track W g p0 fs)) @ [sample_of W (last fs) d]"
proof -
  obtain a where a: "pendingSample s = Some a" "rec_samples s a = the (NewPartSampleH26x W (IsKeyFrame (last fs)) (NALUs (last fs)))"
    "a \<notin> set (partSamples s)" using assms unfolding recording_def by blast
  then show ?thesis using assms by (simp add: end_pending_def sample_of_def recording_def)
qed

lemma rec_sample_recording:
  assumes "recording W F cur t0 ib g p0 fs s" "fs \<noteq> []" "NewPartSampleH26x W (IsKeyFrame f) (NALUs f) = Some x"
  defines "s' \<equiv> rec_sample W f (rel_pts p0 f) s"
  shows "pendingSample s' = Some (rec_fresh s) \<and> rec_fresh s' = rec_fresh s + 1 \<and> rec_samples s' (rec_fresh s) = x \<and>
      (\<forall>y\<in>set (partSamples s'). y < rec_fresh s)" (is ?A)
    and "map (rec_samples s') (partSamples s') = drop (length (concat (butlast (gops fs)))) (butlast (track W g p0 (fs @ [f])))" (is ?B)
    and "rec_lastPts s' = rel_pts p0 f \<and> lastGoodDuration s' = last (durations g (map (rel_pts p0) (fs @ [f])))" (is ?C)
    and "rec_open s' \<and> currentFilename s' = cur \<and> recordStartTime s' = t0 \<and> initialPts s' = p0 \<and> rec_files s' = rec_files s \<and>
      partsWritten s' = partsWritten s \<and> rec_seqno s' = rec_seqno s \<and> partStartBaseTime s' = partStartBaseTime s" (is ?D)
    and "partSamples s' \<noteq> []" (is ?E)
proof -
  define d where "d = sample_duration (last (durations g (map (rel_pts p0) fs))) (s64 (rel_pts p0 f - rel_pts p0 (last fs)))"
  note tr = track_snoc(1) [OF assms(2), of W g p0 f, folded d_def] track_snoc(2) [OF assms(2), of g p0 f, folded d_def]
  obtain a where a: "pendingSample s = Some a" "a < rec_fresh s" "\<forall>x\<in>set (partSamples s). x < rec_fresh s"
    using assms(1) by (auto simp: recording_def)
  let ?e = "end_pending d (s\<lparr>lastGoodDuration := d\<rparr>)"
  have s': "s' = ?e\<lparr>rec_samples := (rec_samples ?e)(rec_fresh s := x), pendingSample := Some (rec_fresh s),
      rec_fresh := rec_fresh s + 1, rec_lastPts := rel_pts p0 f\<rparr>"
    using assms(1,3) a(1) unfolding s'_def rec_sample_def by (simp add: recording_def d_def Let_def end_pending_def)
  have ps: "partSamples s' = partSamples s @ [a]" using a(1) by (simp add: s' end_pending_def)
  show ?A ?E using a unfolding ps by (auto simp: s')
  have "map (rec_samples s') (partSamples s') = map (rec_samples ?e) (partSamples s @ [a])"
    unfolding ps using a(2,3) by (auto simp: s')
  also have "\<dots> = drop (length (concat (butlast (gops fs)))) (butlast (track W g p0 fs)) @ [sample_of W (last fs) d]"
    using end_pending_recording [OF assms(1), of d] a(1) by (auto simp: end_pending_def)
  finally show ?B using length_before [OF assms(2)] by (simp add: tr(1) butlast_append)
  show ?C unfolding tr(2) using a(1) by (simp add: s' end_pending_def)
  show ?D using assms(1) a(1) by (simp add: s' end_pending_def recording_def)
qed

lemma rec_frame_recording:
  assumes rec: "recording W F cur t0 ib g p0 fs s" and fs: "fs \<noteq> []" and x: "NewPartSampleH26x W (IsKeyFrame f) (NALUs f) \<noteq> None"
    and env: "smooth_env t0 env" and enc: "encodes W" and len: "length fs + 1 < 2 ^ 32"
  shows "recording W F cur t0 ib g p0 (fs @ [f]) (rec_frame W loc dir env f s)"
proof -
  obtain x where x: "NewPartSampleH26x W (IsKeyFrame f) (NALUs f) = Some x" using x by blast
  define s' where "s' = rec_sample W f (rel_pts p0 f) s"
  note n = rec_sample_recording [OF rec fs x, folded s'_def]
  have o: "rec_open s" "initialPts s = p0" "recordStartTime s = t0" using rec by (auto simp: recording_def)
  have step: "rec_frame W loc dir env f s = rec_flush W loc env f (rel_pts p0 f) s'"
    using env o by (simp add: rec_frame_def rec_rotate_def rec_start_def smooth_env_def s'_def rel_pts_def Let_def)
  let ?G = "gops fs" and ?S = "track W g p0 fs" and ?S' = "track W g p0 (fs @ [f])"
  have Gne: "?G \<noteq> []" using fs by (rule gops_nonempty)
  obtain y z where S': "?S' = butlast ?S @ [y, z]" using track_snoc(1) [OF fs] by blast
  have bl: "length (butlast ?S) = length fs - 1" by simp
  have old: "parts_of p0 (butlast ?G) ?S' = parts_of p0 (butlast ?G) ?S"
  proof -
    have "parts_of p0 (butlast ?G) ?S = parts_of p0 (butlast ?G) (butlast ?S)"
      using parts_of_append [of "butlast ?G" "butlast ?S" p0] length_before [OF fs] track_butlast [OF fs, of W g p0] by (metis bl)
    then show ?thesis unfolding S' using parts_of_append [of "butlast ?G" "butlast ?S" p0] length_before [OF fs] by simp
  qed
  show ?thesis
  proof (cases "IsKeyFrame f")
    case False
    have p: "\<exists>a. pendingSample s' = Some a \<and> a < rec_fresh s' \<and> rec_samples s' a = the (NewPartSampleH26x W (IsKeyFrame f) (NALUs f)) \<and>
        (\<forall>y\<in>set (partSamples s'). y < rec_fresh s' \<and> y \<noteq> a)"
      using n(1) x by (intro exI [of _ "rec_fresh s"]) auto
    have G: "gops (fs @ [f]) = butlast ?G @ [last ?G @ [f]]" using False by (simp add: gops_snoc [OF fs])
    have b: "base_time p0 (last ?G @ [f]) = base_time p0 (last ?G)" using last_gop [OF fs] by (simp add: base_time_def)
    have l: "length (butlast ?G @ [last ?G @ [f]]) = length ?G" using Gne by simp
    have "rec_frame W loc dir env f s = s'" unfolding step using False by (simp add: rec_flush_def)
    then show ?thesis
      using rec n(2,3,4) p old l b unfolding recording_def G by (simp only: butlast_snoc last_snoc)
  next
    case True
    have G: "gops (fs @ [f]) = ?G @ [[f]]" using True by (simp add: gops_snoc [OF fs])
    obtain bs where bs: "part_Marshal W (rec_seqno s) (partStartBaseTime s) (map (rec_samples s') (partSamples s')) = Some bs"
      using enc n(5) unfolding encodes_def by (metis map_is_Nil_conv option.exhaust)
    have "take (length fs) ?S' = butlast ?S'" by (simp add: butlast_conv_take)
    then have cont: "encode_parts W 1 (parts_of p0 ?G ?S') = encode_parts W 1 (parts_of p0 (butlast ?G) ?S) @ bs"
      using close_gop [OF fs, of W p0 ?S' bs] bs n(2) rec old by (simp add: recording_def)
    define r where "r = rec_flush W loc env f (rel_pts p0 f) s'"
    have r: "r = (file_append bs s')\<lparr>partsWritten := u32 (partsWritten s + 1), partSamples := [], rec_seqno := u32 (rec_seqno s + 1),
        partStartBaseTime := nat (rel_pts p0 f mod 2 ^ 64)\<rparr>"
      using True n(4,5) env bs unfolding r_def by (simp add: rec_flush_def marshal_part_def marshal_to_def smooth_env_def file_append_def)
    have lg: "length ?G < 2 ^ 32 - 1" using length_gops [of fs] len by linarith
    have "rec_files r = F(cur \<mapsto> ib @ encode_parts W 1 (parts_of p0 ?G ?S'))"
      using n(4) rec cont by (simp add: r file_append_def recording_def)
    then show ?thesis
      unfolding step r_def [symmetric] recording_def G using n(1,3,4) rec lg Gne x
      by (simp add: r file_append_def recording_def u32_def base_time_def)
  qed
qed

lemma rec_start_recording:
  assumes "\<not> rec_open s" "IsKeyFrame f" "NewPartSampleH26x W True (NALUs f) \<noteq> None" "ev_create env = None" "ev_init env = None"
    and "init_Marshal W (rec_codec (ev_params env)) = Some ib"
  shows "recording W (rec_files s) (filepath_Join [dir, ongoing_name (loc (ev_now env))]) (ev_now env) ib (lastGoodDuration s)
    (DurationTo90k (Timestamp f)) [f] (rec_frame W loc dir env f s)"
  using assms
  by (auto simp: rec_frame_def rec_rotate_def rec_start_def marshal_to_def rec_sample_def rec_flush_def file_append_def onDegraded_def
      recording_def parts_of_def track_def rel_pts_def base_time_def s64_def Let_def split: option.splits)

lemma rec_run_recording:
  assumes "recording W F cur t0 ib g p0 gs s" "gs \<noteq> []" "encodes W" "length gs + length fs < 2 ^ 32"
    and "\<forall>(env, f)\<in>set fs. smooth_env t0 env \<and> NewPartSampleH26x W (IsKeyFrame f) (NALUs f) \<noteq> None"
  shows "recording W F cur t0 ib g p0 (gs @ map snd fs) (rec_run W loc dir fs s)"
  using assms
proof (induction fs arbitrary: gs s)
  case (Cons ef fs)
  obtain env f where ef: "ef = (env, f)" by (rule prod.exhaust)
  have "recording W F cur t0 ib g p0 (gs @ [f]) (rec_frame W loc dir env f s)"
    using Cons.prems ef by (intro rec_frame_recording) auto
  then show ?case using Cons.IH [of "gs @ [f]" "rec_frame W loc dir env f s"] Cons.prems ef by simp
qed simp

lemma rec_exit_recording:
  assumes rec: "recording W F cur t0 ib g p0 fs s" and fs: "fs \<noteq> []" and W: "encodes W" and env: "ev_part env = None" "ev_rename env cur"
    and len: "length fs < 2 ^ 32" and cur: "cur = filepath_Join [dir, ongoing_name (loc t0)]" "dir \<noteq> []" "valid_civil (loc t0)"
  shows "rec_files (rec_exit W loc env s) = F(cur := None, filepath_Join [dir, final_name (fmt_stamp (loc t0)) (loc (ev_now env))] \<mapsto>
      ib @ encode_parts W 1 (parts_of p0 (gops fs) (track W g p0 fs)))"
    "\<not> rec_open (rec_exit W loc env s)"
proof -
  let ?G = "gops fs" and ?S = "track W g p0 fs"
  have Gne: "?G \<noteq> []" using fs by (rule gops_nonempty)
  define s1 where "s1 = end_pending (lastGoodDuration s) s"
  have s1: "rec_open s1" "currentFilename s1 = cur" "rec_files s1 = rec_files s" "rec_seqno s1 = rec_seqno s" "partsWritten s1 = partsWritten s"
    "partStartBaseTime s1 = partStartBaseTime s" "recordStartTime s1 = t0"
    using rec by (auto simp: s1_def end_pending_def recording_def split: option.split)
  have l: "lastGoodDuration s = last (durations g (map (rel_pts p0) fs))" using rec by (simp add: recording_def)
  have ss: "partSamples s1 \<noteq> []" "map (rec_samples s1) (partSamples s1) = drop (length (concat (butlast ?G))) ?S"
    using end_pending_recording [OF rec, of "lastGoodDuration s"] track_butlast [OF fs, of W g p0] length_before [OF fs]
    unfolding s1_def [symmetric] l [symmetric] by (auto, metis drop_append diff_is_0_eq drop_0 length_butlast length_track)
  obtain bs where bs: "part_Marshal W (rec_seqno s) (partStartBaseTime s) (map (rec_samples s1) (partSamples s1)) = Some bs"
    using W ss(1) unfolding encodes_def by (metis map_is_Nil_conv option.exhaust)
  have cont: "encode_parts W 1 (parts_of p0 ?G ?S) = encode_parts W 1 (parts_of p0 (butlast ?G) ?S) @ bs"
    using close_gop [OF fs, of W p0 ?S bs] bs ss(2) rec by (simp add: recording_def)
  have ex: "rec_exit W loc env s = finalize loc env False ((file_append bs s1)\<lparr>partsWritten := u32 (partsWritten s + 1)\<rparr>)"
    using rec s1 ss(1) bs env unfolding rec_exit_def s1_def [symmetric] Let_def
    by (simp add: recording_def marshal_part_def marshal_to_def)
  have "u32 (partsWritten s + 1) = length ?G" using rec Gne length_gops [of fs] len by (simp add: recording_def u32_def)
  then have pos: "0 < u32 (partsWritten s + 1)" using Gne by simp
  have files: "rec_files (file_append bs s1) = F(cur \<mapsto> ib @ encode_parts W 1 (parts_of p0 ?G ?S))"
    using rec cont s1 by (simp add: file_append_def recording_def)
  have d: "filepath_Join [filepath_Dir cur, n] = filepath_Join [dir, n]" for n
    using Dir_Base_Join(1) [OF cur(2) proper_names(1) [OF cur(3)]] Join_Clean [OF cur(2)] cur(1) by simp
  show "rec_files (rec_exit W loc env s) = F(cur := None, filepath_Join [dir, final_name (fmt_stamp (loc t0)) (loc (ev_now env))] \<mapsto>
      ib @ encode_parts W 1 (parts_of p0 ?G ?S))" "\<not> rec_open (rec_exit W loc env s)"
    unfolding ex using files s1 pos env(2) d
    by (simp_all add: finalize_def fs_rename_def Let_def rec_publish_def)
qed

text \<open>The parts follow each other without gap while the frames are at most five seconds apart.\<close>

fun steady :: "int list \<Rightarrow> bool" where
  "steady (p # q # ps) \<longleftrightarrow> 0 < q - p \<and> q - p \<le> 90000 * 5 \<and> steady (q # ps)"
| "steady _ \<longleftrightarrow> True"

fun contiguous :: "(nat \<times> fmp4_sample list) list \<Rightarrow> bool" where
  "contiguous ((b, ss) # (b', ss') # ps) \<longleftrightarrow> b' = b + sum_list (map s_Duration ss) \<and> contiguous ((b', ss') # ps)"
| "contiguous _ \<longleftrightarrow> True"

lemma s64_small: "0 < x \<Longrightarrow> x \<le> 450000 \<Longrightarrow> s64 x = x"
  by (simp add: s64_def)

lemma sum_durations:
  "steady ps \<Longrightarrow> a + n < length ps \<Longrightarrow>
   int (sum_list (take n (drop a (durations g ps)))) = ps ! (a + n) - ps ! a"
proof (induction g ps arbitrary: a n rule: durations.induct)
  case (3 g p q ps)
  let ?d = "sample_duration g (s64 (q - p))"
  have st: "0 < q - p" "q - p \<le> 450000" "steady (q # ps)" using "3.prems"(1) by simp_all
  then have d: "int ?d = q - p" by (simp add: s64_small sample_duration_def)
  note IH = "3.IH" [OF refl st(3)]
  show ?case
  proof (cases a)
    case 0
    then show ?thesis using "3.prems"(2) IH [of 0 "n - 1"] d st by (cases n) (auto simp: Let_def)
  next
    case (Suc b)
    then show ?thesis using "3.prems"(2) IH [of b n] by (simp add: Let_def)
  qed
qed auto

lemma contiguousI:
  "(\<And>k. Suc k < length ps \<Longrightarrow> fst (ps ! Suc k) = fst (ps ! k) + sum_list (map s_Duration (snd (ps ! k)))) \<Longrightarrow> contiguous ps"
proof (induction ps rule: contiguous.induct)
  case (1 b ss b' ss' ps)
  have "contiguous ((b', ss') # ps)" by (rule "1.IH") (use "1.prems" [of "Suc _"] in simp)
  then show ?case using "1.prems" [of 0] by simp
qed simp_all

lemma cut_nth: "k < length G \<Longrightarrow> cut_at G xs ! k = take (length (G ! k)) (drop (length (concat (take k G))) xs)"
proof (induction G arbitrary: xs k)
  case (Cons g G)
  then show ?case by (cases k) (simp_all add: add.commute)
qed simp

lemma concat_cut: "length (concat G) = length xs \<Longrightarrow> concat (cut_at G xs) = xs"
  by (induction G arbitrary: xs) simp_all

lemma concat_nth_start:
  "k < length G \<Longrightarrow> G ! k \<noteq> [] \<Longrightarrow> concat G ! length (concat (take k G)) = hd (G ! k)"
proof (induction G arbitrary: k)
  case (Cons g G)
  then show ?case by (cases k) (auto simp: nth_append hd_conv_nth)
qed simp

lemma start_less: "k < length G \<Longrightarrow> G ! k \<noteq> [] \<Longrightarrow> length (concat (take k G)) < length (concat G)"
proof (induction G arbitrary: k)
  case (Cons g G)
  then show ?case by (cases k) auto
qed simp

lemma map_Duration_track: "map s_Duration (track W g p0 fs) = durations g (map (rel_pts p0) fs)"
proof -
  have "length xs = length ds \<Longrightarrow> map s_Duration (map2 (sample_of W) xs ds) = ds" for xs ds
    by (induction xs ds rule: list_induct2) (simp_all add: sample_of_def)
  then show ?thesis by (simp add: track_def)
qed

lemma rel_pts_lower: "- (2 ^ 63) \<le> rel_pts p0 f"
  by (simp add: rel_pts_def s64_def)

lemma rel_pts_range: "rel_pts p0 f < 2 ^ 63"
  by (simp add: rel_pts_def s64_def)

lemma nat_step: "int n = y - x \<Longrightarrow> 0 \<le> x \<Longrightarrow> nat y = nat x + n" for x y :: int
  by linarith

lemma steady_contiguous:
  assumes key: "IsKeyFrame (hd fs)" and st: "steady (map (rel_pts p0) fs)" and first: "rel_pts p0 (hd fs) = 0"
  shows "contiguous (parts_of p0 (gops fs) (track W g p0 fs))"
proof (rule contiguousI, unfold length_parts_of)
  fix k assume k: "Suc k < length (gops fs)"
  let ?G = "gops fs" and ?D = "durations g (map (rel_pts p0) fs)"
  let ?a = "length (concat (take k ?G))" and ?n = "length (?G ! k)"
  have ne: "?G ! i \<noteq> []" if "i < length ?G" for i using gops_heads [OF key] nth_mem [OF that] by blast
  have b: "length (concat (take (Suc k) ?G)) = ?a + ?n" using k by (simp add: take_Suc_conv_app_nth)
  have lt: "?a + ?n < length fs" using start_less [OF k ne [OF k]] unfolding b concat_gops .
  have bt: "base_time p0 (?G ! i) = nat (rel_pts p0 (fs ! length (concat (take i ?G))))"
      "0 \<le> rel_pts p0 (fs ! length (concat (take i ?G)))" if "i < length ?G" for i
  proof -
    let ?i = "length (concat (take i ?G))"
    have i: "?i < length fs" using start_less [OF that ne [OF that]] by simp
    then have 0: "0 < length fs" by linarith
    have "int (sum_list (take ?i (drop 0 ?D))) = rel_pts p0 (fs ! ?i) - rel_pts p0 (fs ! 0)"
      using sum_durations [OF st, of 0 ?i g] i unfolding add_0 length_map nth_map [OF i] nth_map [OF 0] by blast
    moreover have "fs ! 0 = hd fs" using 0 by (intro hd_conv_nth [symmetric]) auto
    ultimately show "0 \<le> rel_pts p0 (fs ! ?i)" using first by simp
    then show "base_time p0 (?G ! i) = nat (rel_pts p0 (fs ! ?i))" using concat_nth_start [OF that ne [OF that]] rel_pts_range [of p0 "fs ! ?i"] by (simp add: base_time_def)
  qed
  have p: "parts_of p0 ?G (track W g p0 fs) ! i = (base_time p0 (?G ! i), cut_at ?G (track W g p0 fs) ! i)" if "i < length ?G" for i
    using that by (simp add: parts_of_def)
  have sum: "sum_list (map s_Duration (cut_at ?G (track W g p0 fs) ! k)) = sum_list (take ?n (drop ?a ?D))"
    using k by (simp add: cut_nth take_map [symmetric] drop_map [symmetric] map_Duration_track)
  have "int (sum_list (take ?n (drop ?a ?D))) = rel_pts p0 (fs ! (?a + ?n)) - rel_pts p0 (fs ! ?a)"
    using sum_durations [OF st, of ?a ?n g] lt by simp
  note step = nat_step [OF this bt(2) [OF Suc_lessD [OF k]]]
  show "fst (parts_of p0 ?G (track W g p0 fs) ! Suc k) =
      fst (parts_of p0 ?G (track W g p0 fs) ! k) + sum_list (map s_Duration (snd (parts_of p0 ?G (track W g p0 fs) ! k)))"
    unfolding p [OF k] p [OF Suc_lessD [OF k]] fst_conv snd_conv bt(1) [OF k] bt(1) [OF Suc_lessD [OF k]] b sum by (rule step)
qed

lemma rotate_like_exit:
  assumes "rec_open s" "IsKeyFrame f" "3600 * 10 ^ 9 < ev_now env - recordStartTime s" "ev_part env = None" "encodes W"
  shows "\<exists>r. rec_rotate W loc env f s = (False, r) \<and> rec_files r = rec_files (rec_exit W loc env s) \<and> \<not> rec_open r"
proof -
  define s1 where "s1 = end_pending (lastGoodDuration s) s"
  obtain s2 where m: "(if partSamples s1 \<noteq> [] then marshal_part W env s1 else (True, s1)) = (True, s2)"
    "(if partSamples s1 \<noteq> [] then snd (marshal_part W env s1) else s1) = s2"
  proof (cases "partSamples s1 = []")
    case False
    then obtain bs where "part_Marshal W (rec_seqno s1) (partStartBaseTime s1) (map (rec_samples s1) (partSamples s1)) = Some bs"
      using assms(5) unfolding encodes_def by (metis map_is_Nil_conv option.exhaust)
    then show ?thesis using that False assms(4) by (simp add: marshal_part_def marshal_to_def)
  qed (use that in simp)
  have c: "rec_open s \<and> IsKeyFrame f \<and> 3600 * 10 ^ 9 < ev_now env - recordStartTime s" using assms(1-3) by blast
  have "\<not> rec_open (finalize loc env False s2)"
    by (simp add: finalize_def rec_publish_def Let_def split: prod.split bool.split)
  then show ?thesis
    unfolding rec_rotate_def rec_exit_def s1_def [symmetric] Let_def if_P [OF c] if_P [OF assms(1)] m by (simp add: drop_part_def)
qed



subsection \<open>Instances\<close>

definition demo_writer :: fmp4_writer where
  "demo_writer = \<lparr>init_Marshal = (\<lambda>_. Some (boxes_bytes [([102, 116, 121, 112], []), (moov_type, [])])),
     part_Marshal = (\<lambda>q b ss. Some (frag_bytes ([of_nat q], take 8 (concat (map s_Payload ss))))),
     NewPartSampleH26x = (\<lambda>key nalus. if nalus = [] then None
       else Some \<lparr>s_Duration = 0, IsNonSyncSample = \<not> key, s_Payload = concat nalus\<rparr>)\<rparr>"

definition demo_frame :: "int \<Rightarrow> bool \<Rightarrow> 8 word \<Rightarrow> frame" where
  "demo_frame t key b = \<lparr>Timestamp = t, IsKeyFrame = key, NALUs = [[b]]\<rparr>"

definition calm :: rec_env where
  "calm = \<lparr>ev_now = 0, ev_create = None, ev_init = None, ev_part = None, ev_rename = (\<lambda>_. True), ev_rename_err = [],
     ev_delete = True, ev_params = (None, [103], [104])\<rparr>"

lemma demo_writer_ok: "writer_ok demo_writer" "encodes demo_writer"
proof -
  have b: "box_ok (moof_type, [of_nat q])" "box_ok (mdat_type, take 8 xs)" for q :: nat and xs :: bytes
    by (simp_all add: box_ok_def)
  show "writer_ok demo_writer"
    unfolding writer_ok_def
  proof (intro conjI allI impI)
    fix c bs assume "init_Marshal demo_writer c = Some bs"
    then show "\<exists>x. bs = boxes_bytes x \<and> init_boxes x"
      by (intro exI [of _ "[([102, 116, 121, 112], []), (moov_type, [])]"]) (simp add: demo_writer_def init_boxes_def box_ok_def has_type_def)
  next
    fix q b ss bs assume "part_Marshal demo_writer q b ss = Some bs"
    then show "\<exists>m d. bs = frag_bytes (m, d) \<and> box_ok (moof_type, m) \<and> box_ok (mdat_type, d)"
      using b by (simp add: demo_writer_def) blast
  qed
  show "encodes demo_writer" by (simp add: encodes_def demo_writer_def)
qed



text \<open>Three ways in which a recording goes wrong. A frame that cannot be encoded makes the one before it
  appear twice; a recorder stopped while its last write fails publishes the torn file under a
  final name; and when the camera's clock restarts below the first frame, which each
  reconnection may do, the base time wraps around.\<close>

lemma unencodable_frame_duplicates_previous:
  assumes "pendingSample s = Some a" "NewPartSampleH26x W (IsKeyFrame f) (NALUs f) = None"
  shows "partSamples (rec_sample W f' pts' (rec_sample W f pts s)) = partSamples s @ [a, a]"
  using assms by (simp add: rec_sample_def end_pending_def Let_def split: option.split)

lemma torn_recording_published:
  assumes "rec_open s" "0 < partsWritten s" "pendingSample s \<noteq> None" "rec_files s (currentFilename s) = Some b"
    and "ev_part env = Some junk" "\<forall>p. ev_rename env p"
  shows "rec_files (rec_exit W loc env s)
    (filepath_Join [filepath_Dir (currentFilename s), final_name (fmt_stamp (loc (recordStartTime s))) (loc (ev_now env))]) = Some (b @ junk)"
proof -
  obtain a where a: "pendingSample s = Some a" using assms(3) by blast
  show ?thesis using assms(1,2,4-) a
    by (simp add: rec_exit_def end_pending_def marshal_part_def marshal_to_def file_append_def finalize_def fs_rename_def Let_def rec_publish_def
        split: option.split)
qed

lemma base_time_wraps:
  assumes "rel_pts p0 (hd g) < 0" shows "2 ^ 63 \<le> base_time p0 g"
proof -
  let ?x = "rel_pts p0 (hd g)"
  have "(?x + 2 ^ 64) mod 2 ^ 64 = ?x + 2 ^ 64" using rel_pts_lower [of p0 "hd g"] assms by (intro mod_pos_pos_trivial) simp_all
  then have "?x mod 2 ^ 64 = ?x + 2 ^ 64" by (simp only: mod_add_self2)
  then show ?thesis using rel_pts_lower [of p0 "hd g"] by (simp add: base_time_def)
qed

end
