(* ===== verification/Retention.thy ===== *)
theory Retention
  imports Archive Archive_Index Api_Entities
begin

text \<open>
  Automatic clean-up: expired recordings (\<open>internal/recorder/cleanup.go\<close>) and old database backups
  (\<open>internal/backup/worker.go\<close>). Times are nanoseconds in a zone of constant offset, so that \<open>AddDate\<close> moves by days
  of 24 hours; \<open>ok\<close> says which deletions the operating system performs.

  Shown: clean-up removes exactly the recordings older than their camera's retention, keeps the cache of
  archive indexes coherent, and the backup rotation removes exactly the expired backups.
\<close>

definition AddDate_days :: "int \<Rightarrow> int \<Rightarrow> int" where
  "AddDate_days t n = t + n * (24 * 3600 * second)"

subsection \<open>Recordings\<close>

definition camRetention :: "int \<Rightarrow> CameraConfig list \<Rightarrow> string \<rightharpoonup> int" where
  "camRetention globalRetention cams =
     fold (\<lambda>cam m. m(ID cam \<mapsto> if 0 < RetentionDays cam then RetentionDays cam else globalRetention)) cams Map.empty"

record archive_state =
  as_files :: "string \<rightharpoonup> bytes"
  as_cache :: index_cache

definition cleanup_file :: "(string \<Rightarrow> bool) \<Rightarrow> int \<Rightarrow> string \<Rightarrow> int dir_entry \<Rightarrow> archive_state \<Rightarrow> archive_state" where
  "cleanup_file ok cutoff camDir fileInfo s =
     (if \<not> de_IsDir fileInfo \<and> filepath_Ext (de_Name fileInfo) = ''.mp4'' then
        (case de_Info fileInfo of
           None \<Rightarrow> s
         | Some modTime \<Rightarrow>
             if modTime < cutoff then
               let filePath = filepath_Join [camDir, de_Name fileInfo] in
               if ok filePath \<and> as_files s filePath \<noteq> None
               then s\<lparr>as_files := (as_files s)(filePath := None), as_cache := InvalidateFileIndex filePath (as_cache s)\<rparr>
               else s
             else s)
      else s)"

definition retention_of :: "int \<Rightarrow> CameraConfig list \<Rightarrow> string \<Rightarrow> int" where
  "retention_of globalRetention cams camID =
     (case camRetention globalRetention cams camID of Some v \<Rightarrow> v | None \<Rightarrow> globalRetention)"

definition cleanup_dir ::
  "(string \<Rightarrow> bool) \<Rightarrow> int \<Rightarrow> int \<Rightarrow> CameraConfig list \<Rightarrow> (string \<Rightarrow> readdir_err + int dir_entry list) \<Rightarrow> string \<Rightarrow>
   int dir_entry \<Rightarrow> archive_state \<Rightarrow> archive_state" where
  "cleanup_dir ok now globalRetention cams readDir recordDir entry s =
     (if \<not> de_IsDir entry then s
      else
        let camID = de_Name entry; camDir = filepath_Join [recordDir, camID] in
        (case readDir camDir of
           Inl _ \<Rightarrow> s
         | Inr files \<Rightarrow>
             let retention = retention_of globalRetention cams camID in
             if retention \<le> 0 then s
             else fold (cleanup_file ok (AddDate_days now (- retention)) camDir) files s))"

definition cleanupOldFiles ::
  "('d, 't) badger_ops \<Rightarrow> (string \<Rightarrow> bool) \<Rightarrow> int \<Rightarrow> Config \<Rightarrow> (string \<Rightarrow> readdir_err + int dir_entry list) \<Rightarrow> string \<Rightarrow>
   'd Storage \<Rightarrow> archive_state \<Rightarrow> archive_state \<times> 'd Storage" where
  "cleanupOldFiles B ok now cfg readDir recordDir store s =
     (case listed_cameras B store of
        (cams, store') \<Rightarrow>
          (case readDir recordDir of
             Inl _ \<Rightarrow> (s, store')
           | Inr entries \<Rightarrow> (fold (cleanup_dir ok now (RecordRetentionDays cfg) cams readDir recordDir) entries s, store')))"

text \<open>The usage in hundredths of a percent, \<open>None\<close> when it cannot be read.\<close>

definition checkDiskUsage :: "bool \<Rightarrow> nat option \<Rightarrow> string \<Rightarrow> (string \<times> string \<times> nat) list" where
  "checkDiskUsage dirExists usage absDir =
     (if \<not> dirExists then []
      else (case usage of None \<Rightarrow> [] | Some u \<Rightarrow> if 9000 < u then [(''storage_warning'', absDir, u)] else []))"

subsection \<open>Backups\<close>

text \<open>The paths removed; the sorting before has no effect on which they are, since each is tested on its own.\<close>

definition sort_newest :: "(string \<times> int) list \<Rightarrow> (string \<times> int) list" where
  "sort_newest bs = rev (sort_key snd bs)"

definition cleanupOldBackups ::
  "(string \<Rightarrow> bool) \<Rightarrow> int \<Rightarrow> int \<Rightarrow> string \<Rightarrow> readdir_err + int dir_entry list \<Rightarrow> string set \<Rightarrow> string set" where
  "cleanupOldBackups ok now retentionDays backupDir listing files =
     (if retentionDays \<le> 0 then files
      else (case listing of
              Inl _ \<Rightarrow> files
            | Inr entries \<Rightarrow>
                let backups = List.map_filter (\<lambda>e. if de_IsDir e \<or> filepath_Ext (de_Name e) \<noteq> ''.bak'' then None
                                else map_option (\<lambda>t. (filepath_Join [backupDir, de_Name e], t)) (de_Info e)) entries;
                    cutoffTime = AddDate_days now (- retentionDays)
                in fold (\<lambda>(path, t) fs. if t < cutoffTime \<and> ok path then fs - {path} else fs) (sort_newest backups) files))"

text \<open>One backup: the file is created, and the old ones are removed only if the dump succeeded.\<close>

definition doBackup ::
  "(string \<Rightarrow> bool) \<Rightarrow> bool \<Rightarrow> bool \<Rightarrow> int \<Rightarrow> civil \<Rightarrow> int \<Rightarrow> string \<Rightarrow> (string set \<Rightarrow> readdir_err + int dir_entry list) \<Rightarrow> string set \<Rightarrow> string set" where
  "doBackup ok createOk backupOk now stamp retentionDays backupDir list_dir files =
     (let filename = filepath_Clean (filepath_Join [backupDir, ''badger_backup_'' @ fmt_stamp stamp @ ''.bak'']) in
      if \<not> createOk then files
      else
        let files' = insert filename files in
        if \<not> backupOk then files' else cleanupOldBackups ok now retentionDays backupDir (list_dir files') files')"

subsection \<open>What is expired\<close>

definition expired :: "int \<Rightarrow> int \<Rightarrow> int dir_entry \<Rightarrow> bool" where
  "expired now retention e \<longleftrightarrow> 0 < retention \<and> \<not> de_IsDir e \<and> filepath_Ext (de_Name e) = ''.mp4'' \<and>
     (\<exists>t. de_Info e = Some t \<and> t < now - retention * (24 * 3600 * second))"

definition removed_in :: "int \<Rightarrow> int \<Rightarrow> string \<Rightarrow> int dir_entry list \<Rightarrow> string set" where
  "removed_in now retention camDir files = (\<lambda>e. filepath_Join [camDir, de_Name e]) ` {e \<in> set files. expired now retention e}"

definition removed ::
  "int \<Rightarrow> int \<Rightarrow> CameraConfig list \<Rightarrow> (string \<Rightarrow> readdir_err + int dir_entry list) \<Rightarrow> string \<Rightarrow> int dir_entry list \<Rightarrow> string set" where
  "removed now g cams readDir recordDir entries =
     (\<Union>d \<in> {d \<in> set entries. de_IsDir d}. case readDir (filepath_Join [recordDir, de_Name d]) of Inl _ \<Rightarrow> {}
        | Inr files \<Rightarrow> removed_in now (retention_of g cams (de_Name d)) (filepath_Join [recordDir, de_Name d]) files)"

text \<open>What clean-up leaves, and that the cache stays coherent.\<close>

definition cleaned :: "(bytes \<Rightarrow> fmp4_part list option) \<Rightarrow> string set \<Rightarrow> archive_state \<Rightarrow> archive_state \<Rightarrow> bool" where
  "cleaned um R s s' \<longleftrightarrow> as_files s' = as_files s |` (- R) \<and> lru_ok (as_cache s') \<and> cache_coherent um (as_files s') (as_cache s')"

definition archive_ok :: "(bytes \<Rightarrow> fmp4_part list option) \<Rightarrow> archive_state \<Rightarrow> bool" where
  "archive_ok um s \<longleftrightarrow> lru_ok (as_cache s) \<and> cache_coherent um (as_files s) (as_cache s)"

lemma cleaned_refl: "archive_ok um s \<Longrightarrow> cleaned um {} s s"
  by (simp add: cleaned_def archive_ok_def restrict_map_def)

lemma cleaned_trans: "cleaned um R s s1 \<Longrightarrow> cleaned um R' s1 s2 \<Longrightarrow> cleaned um (R \<union> R') s s2"
  by (auto simp: cleaned_def restrict_map_def fun_eq_iff)

lemma cleaned_ok: "cleaned um R s s' \<Longrightarrow> archive_ok um s'"
  unfolding cleaned_def archive_ok_def by blast

lemma cleaned_fold:
  assumes "archive_ok um s" "\<And>x s. x \<in> set xs \<Longrightarrow> archive_ok um s \<Longrightarrow> cleaned um (R x) s (f x s)"
  shows "cleaned um (\<Union>x\<in>set xs. R x) s (fold f xs s)"
  using assms
proof (induction xs arbitrary: s)
  case Nil
  then show ?case by (simp add: cleaned_refl)
next
  case (Cons x xs)
  have 1: "cleaned um (R x) s (f x s)" using Cons.prems by simp
  have "cleaned um (\<Union>x\<in>set xs. R x) (f x s) (fold f xs (f x s))" using Cons.IH [OF cleaned_ok [OF 1]] Cons.prems(2) by simp
  from cleaned_trans [OF 1 this] show ?case by simp
qed

lemma InvalidateFileIndex_ok:
  assumes "lru_ok c" "cache_coherent um files c"
  shows "lru_ok (InvalidateFileIndex p c) \<and> cache_coherent um (files(p := None)) (InvalidateFileIndex p c)"
proof -
  have "lru.coherent (index_of um (files(p := None))) (lru_Remove p c)"
    using assms by (intro lru.coherent_remove [where f = "index_of um files"]) (auto simp: coherent_iff index_of_def)
  then show ?thesis using lru_Remove_ok [OF assms(1)] by (simp add: coherent_iff InvalidateFileIndex_def)
qed

lemma cleanup_file_cleaned:
  assumes "archive_ok um s" "0 < retention"
  shows "cleaned um {p. p = filepath_Join [camDir, de_Name e] \<and> ok p \<and> expired now retention e} s
    (cleanup_file ok (AddDate_days now (- retention)) camDir e s)"
proof (cases "expired now retention e \<and> ok (filepath_Join [camDir, de_Name e])")
  case True
  let ?p = "filepath_Join [camDir, de_Name e]"
  obtain t where t: "\<not> de_IsDir e" "filepath_Ext (de_Name e) = ''.mp4''" "de_Info e = Some t" "t < AddDate_days now (- retention)"
    using True by (auto simp: expired_def AddDate_days_def)
  have R: "{p. p = ?p \<and> ok p \<and> expired now retention e} = {?p}" using True by auto
  have f: "as_files s |` (- {?p}) = (as_files s)(?p := None)" by (auto simp: restrict_map_def)
  show ?thesis
  proof (cases "as_files s ?p = None")
    case True
    then show ?thesis using t assms(1) unfolding R cleaned_def f
      by (simp add: cleanup_file_def Let_def archive_ok_def fun_upd_idem)
  next
    case False
    then show ?thesis using t True assms(1) InvalidateFileIndex_ok [of "as_cache s" um "as_files s" ?p] unfolding R cleaned_def f
      by (simp add: cleanup_file_def Let_def archive_ok_def)
  qed
next
  case False
  have R: "{p. p = filepath_Join [camDir, de_Name e] \<and> ok p \<and> expired now retention e} = {}" using False by auto
  have "cleanup_file ok (AddDate_days now (- retention)) camDir e s = s"
    using False assms(2) by (auto simp: cleanup_file_def expired_def AddDate_days_def Let_def split: option.split)
  then show ?thesis using cleaned_refl [OF assms(1)] unfolding R by simp
qed

lemma cleanup_dir_cleaned:
  assumes "archive_ok um s"
  shows "cleaned um {p. ok p \<and> p \<in> removed now g cams readDir recordDir [d]} s (cleanup_dir ok now g cams readDir recordDir d s)"
proof (cases "de_IsDir d \<and> 0 < retention_of g cams (de_Name d) \<and> (\<exists>files. readDir (filepath_Join [recordDir, de_Name d]) = Inr files)")
  case True
  let ?c = "filepath_Join [recordDir, de_Name d]" and ?r = "retention_of g cams (de_Name d)"
  obtain files where f: "readDir ?c = Inr files" using True by blast
  have "cleaned um (\<Union>e\<in>set files. {p. p = filepath_Join [?c, de_Name e] \<and> ok p \<and> expired now ?r e}) s
    (fold (cleanup_file ok (AddDate_days now (- ?r)) ?c) files s)"
    using True by (intro cleaned_fold [OF assms] cleanup_file_cleaned) simp_all
  moreover have "(\<Union>e\<in>set files. {p. p = filepath_Join [?c, de_Name e] \<and> ok p \<and> expired now ?r e}) = {p. ok p \<and> p \<in> removed now g cams readDir recordDir [d]}"
    using True f by (auto simp: removed_def removed_in_def)
  ultimately show ?thesis using True f by (simp add: cleanup_dir_def Let_def)
next
  case False
  have R: "{p. ok p \<and> p \<in> removed now g cams readDir recordDir [d]} = {}"
    using False by (auto simp: removed_def removed_in_def expired_def split: sum.splits)
  have "cleanup_dir ok now g cams readDir recordDir d s = s" using False by (auto simp: cleanup_dir_def Let_def split: sum.split)
  then show ?thesis using cleaned_refl [OF assms] unfolding R by simp
qed

lemma cleanup_cleaned:
  assumes "archive_ok um s"
  shows "cleaned um {p. ok p \<and> p \<in> removed now g cams readDir recordDir entries} s (fold (cleanup_dir ok now g cams readDir recordDir) entries s)"
proof -
  have "removed now g cams readDir recordDir entries = (\<Union>d\<in>set entries. removed now g cams readDir recordDir [d])"
    unfolding removed_def by auto
  then have R: "{p. ok p \<and> p \<in> removed now g cams readDir recordDir entries} = (\<Union>d\<in>set entries. {p. ok p \<and> p \<in> removed now g cams readDir recordDir [d]})"
    by blast
  show ?thesis unfolding R by (rule cleaned_fold [OF assms]) (rule cleanup_dir_cleaned)
qed

text \<open>The directory listings have distinct, proper names.\<close>

definition listing_ok :: "int dir_entry list \<Rightarrow> bool" where
  "listing_ok es \<longleftrightarrow> distinct (map de_Name es) \<and> (\<forall>e\<in>set es. proper_name (de_Name e))"

lemma find_append: "find P (xs @ ys) = (case find P xs of None \<Rightarrow> find P ys | Some x \<Rightarrow> Some x)"
  by (induction xs) simp_all

lemma find_unique:
  assumes "distinct (map f xs)" "x \<in> set xs" shows "find (\<lambda>y. f y = f x) xs = Some x"
  using assms by (induction xs) force+

lemma retention_of_fold:
  "fold (\<lambda>cam m. m(ID cam \<mapsto> if 0 < RetentionDays cam then RetentionDays cam else g)) cams m i =
    (case find (\<lambda>c. ID c = i) (rev cams) of Some c \<Rightarrow> Some (if 0 < RetentionDays c then RetentionDays c else g) | None \<Rightarrow> m i)"
  by (induction cams arbitrary: m) (auto simp: find_append split: option.split)

lemma retention_of_stored:
  assumes "distinct (map ID cams)"
  shows "c \<in> set cams \<Longrightarrow> retention_of g cams (ID c) = (if 0 < RetentionDays c then RetentionDays c else g)"
    and "i \<notin> ID ` set cams \<Longrightarrow> retention_of g cams i = g"
proof -
  assume c: "c \<in> set cams"
  have "find (\<lambda>x. ID x = ID c) (rev cams) = Some c" using assms c by (intro find_unique) (simp_all add: rev_map [symmetric])
  then show "retention_of g cams (ID c) = (if 0 < RetentionDays c then RetentionDays c else g)"
    by (simp add: retention_of_def camRetention_def retention_of_fold)
next
  assume "i \<notin> ID ` set cams"
  then have "find (\<lambda>x. ID x = i) (rev cams) = None" by (auto simp: find_None_iff)
  then show "retention_of g cams i = g" by (simp add: retention_of_def camRetention_def retention_of_fold)
qed

lemma removedE:
  assumes "p \<in> removed now g cams readDir recordDir entries"
  obtains d files e where "d \<in> set entries" "readDir (filepath_Join [recordDir, de_Name d]) = Inr files" "e \<in> set files"
    "expired now (retention_of g cams (de_Name d)) e" "p = filepath_Join [filepath_Join [recordDir, de_Name d], de_Name e]"
proof -
  obtain d where d: "d \<in> set entries" "p \<in> (case readDir (filepath_Join [recordDir, de_Name d]) of Inl _ \<Rightarrow> {}
        | Inr files \<Rightarrow> removed_in now (retention_of g cams (de_Name d)) (filepath_Join [recordDir, de_Name d]) files)"
    using assms unfolding removed_def by blast
  then obtain files where f: "readDir (filepath_Join [recordDir, de_Name d]) = Inr files"
    by (cases "readDir (filepath_Join [recordDir, de_Name d])") simp_all
  then show thesis using that [OF d(1) f] d(2) by (auto simp: removed_in_def)
qed

lemma removed_iff:
  assumes "recordDir \<noteq> []" "listing_ok entries" "\<And>d files. d \<in> set entries \<Longrightarrow> readDir (filepath_Join [recordDir, de_Name d]) = Inr files \<Longrightarrow> listing_ok files"
    and "d \<in> set entries" "de_IsDir d" "readDir (filepath_Join [recordDir, de_Name d]) = Inr files" "e \<in> set files"
  shows "filepath_Join [filepath_Join [recordDir, de_Name d], de_Name e] \<in> removed now g cams readDir recordDir entries \<longleftrightarrow>
    expired now (retention_of g cams (de_Name d)) e" (is "?p \<in> ?R \<longleftrightarrow> ?x")
proof
  assume ?x
  then have "?p \<in> removed_in now (retention_of g cams (de_Name d)) (filepath_Join [recordDir, de_Name d]) files"
    using assms(7) by (auto simp: removed_in_def)
  then show "?p \<in> ?R" using assms(4-6) by (auto simp: removed_def intro!: bexI [of _ d])
next
  assume "?p \<in> ?R"
  then obtain d' files' e' where d': "d' \<in> set entries" "readDir (filepath_Join [recordDir, de_Name d']) = Inr files'" "e' \<in> set files'"
    "expired now (retention_of g cams (de_Name d')) e'" "?p = filepath_Join [filepath_Join [recordDir, de_Name d'], de_Name e']"
    by (rule removedE)
  have l: "listing_ok files" "listing_ok files'" using assms(3) [OF assms(4,6)] assms(3) [OF d'(1,2)] .
  have "de_Name d = de_Name d' \<and> de_Name e = de_Name e'"
    using assms(2,4,7) d'(1,3) l by (intro path_inject [OF assms(1) _ _ _ _ d'(5)]) (simp_all add: listing_ok_def)
  moreover have "e' = e" if "files' = files" "de_Name e = de_Name e'"
    using that l(1) assms(7) d'(3) unfolding listing_ok_def by (metis distinct_map inj_onD)
  ultimately show ?x using d'(2,4) assms(6) by simp
qed

subsection \<open>Properties\<close>

text \<open>C40: Clean-up removes exactly the expired recordings. Of each camera directory listed, a file is removed
  if and only if it is an \<open>.mp4\<close> last modified before the camera's retention (its own, or the global one;
  never when that is not positive) and the deletion succeeds; every other file, listed or not,
  is untouched; and the index cache stays coherent with the files, so that no deleted recording is served from
  it.\<close>

theorem retention_exact:
  assumes "recordDir \<noteq> []" "archive_ok um s" "listed_cameras B store = (cams, store1)" "readDir recordDir = Inr entries" "listing_ok entries"
    and "\<forall>d files. d \<in> set entries \<and> readDir (filepath_Join [recordDir, de_Name d]) = Inr files \<longrightarrow> listing_ok files"
    and "cleanupOldFiles B ok now cfg readDir recordDir store s = (s', store')"
  shows "archive_ok um s' \<and>
    (\<forall>d files e. d \<in> set entries \<and> de_IsDir d \<and> readDir (filepath_Join [recordDir, de_Name d]) = Inr files \<and> e \<in> set files \<longrightarrow>
       (let p = filepath_Join [filepath_Join [recordDir, de_Name d], de_Name e] in
        as_files s' p = (if ok p \<and> expired now (retention_of (RecordRetentionDays cfg) cams (de_Name d)) e then None else as_files s p))) \<and>
    (\<forall>p. (\<forall>d files e. d \<in> set entries \<and> readDir (filepath_Join [recordDir, de_Name d]) = Inr files \<and> e \<in> set files \<longrightarrow>
         p \<noteq> filepath_Join [filepath_Join [recordDir, de_Name d], de_Name e]) \<longrightarrow> as_files s' p = as_files s p)"
proof -
  let ?R = "removed now (RecordRetentionDays cfg) cams readDir recordDir entries"
  have s': "s' = fold (cleanup_dir ok now (RecordRetentionDays cfg) cams readDir recordDir) entries s"
    using assms(3,4,7) by (simp add: cleanupOldFiles_def)
  have c: "cleaned um {p. ok p \<and> p \<in> ?R} s s'" unfolding s' by (rule cleanup_cleaned [OF assms(2)])
  then have f: "as_files s' p = (if ok p \<and> p \<in> ?R then None else as_files s p)" for p by (auto simp: cleaned_def restrict_map_def)
  have 1: "as_files s' p = (if ok p \<and> expired now (retention_of (RecordRetentionDays cfg) cams (de_Name d)) e then None else as_files s p)"
    if "d \<in> set entries" "de_IsDir d" "readDir (filepath_Join [recordDir, de_Name d]) = Inr files" "e \<in> set files"
      "p = filepath_Join [filepath_Join [recordDir, de_Name d], de_Name e]" for d files e p
    unfolding f using removed_iff [of recordDir entries readDir d files e, OF assms(1,5) _ that(1-4)] assms(6) that(5) by simp
  have 2: "p \<notin> ?R" if "\<forall>d files e. d \<in> set entries \<and> readDir (filepath_Join [recordDir, de_Name d]) = Inr files \<and> e \<in> set files \<longrightarrow>
         p \<noteq> filepath_Join [filepath_Join [recordDir, de_Name d], de_Name e]" for p
    using that by (metis removedE)
  show ?thesis using cleaned_ok [OF c] 1 2 f unfolding Let_def by simp
qed

definition demo_listing :: "string \<Rightarrow> readdir_err + int dir_entry list" where
  "demo_listing p = (if p = ''r'' then Inr [\<lparr>de_Name = ''cam'', de_IsDir = True, de_Info = None\<rparr>]
     else Inr [\<lparr>de_Name = ''a.mp4'', de_IsDir = False, de_Info = Some 0\<rparr>, \<lparr>de_Name = ''b.mp4'', de_IsDir = False, de_Info = Some (8 * 24 * 3600 * second)\<rparr>])"

definition demo_archive :: archive_state where
  "demo_archive = \<lparr>as_files = [''r/cam/a.mp4'' \<mapsto> [1], ''r/cam/b.mp4'' \<mapsto> [2]], as_cache = NewIndexLRUCache 5\<rparr>"

lemma retention_exact_witness:
  "\<exists>s' st. cleanupOldFiles mem_badger (\<lambda>_. True) (8 * 24 * 3600 * second) (NewDefaultConfig [] []) demo_listing ''r'' demo_store demo_archive = (s', st) \<and>
     as_files s' ''r/cam/a.mp4'' = None \<and> as_files s' ''r/cam/b.mp4'' = Some [2]"
proof -
  let ?now = "8 * 24 * 3600 * second" and ?cfg = "NewDefaultConfig [] []"
  obtain s' st where c: "cleanupOldFiles mem_badger (\<lambda>_. True) ?now ?cfg demo_listing ''r'' demo_store demo_archive = (s', st)" by force
  obtain cams st1 where l: "listed_cameras mem_badger demo_store = (cams, st1)" by force
  have "cams = []" using l by (simp add: listed_cameras_def ListCameras_def read_cameras_def demo_store_def mem_items_def scan_prefix_def load_all_def)
  then have r: "retention_of g cams i = g" for g i by (simp add: retention_of_def camRetention_def)
  have ok: "archive_ok (\<lambda>_. None) demo_archive"
    by (simp add: archive_ok_def demo_archive_def lru_ok_def NewIndexLRUCache_def cache_coherent_def lru_abs_def)
  have p: "proper_name ''cam''" "proper_name ''a.mp4''" "proper_name ''b.mp4''" by (simp_all add: proper_name_def plain_def)
  have e: "demo_listing ''r'' = Inr [\<lparr>de_Name = ''cam'', de_IsDir = True, de_Info = None\<rparr>]" "listing_ok [\<lparr>de_Name = ''cam'', de_IsDir = True, de_Info = None\<rparr>]"
    using p by (simp_all add: demo_listing_def listing_ok_def)
  have j: "filepath_Join [''r'', ''cam''] = ''r/cam''" "filepath_Join [''r/cam'', ''a.mp4''] = ''r/cam/a.mp4''" "filepath_Join [''r/cam'', ''b.mp4''] = ''r/cam/b.mp4''"
    by (simp_all add: filepath_Join_def filepath_Clean_def elements_def clean_step_def rooted_def render_def)
  have f: "\<forall>d files. d \<in> set [\<lparr>de_Name = ''cam'', de_IsDir = True, de_Info = None\<rparr>] \<and> demo_listing (filepath_Join [''r'', de_Name d]) = Inr files \<longrightarrow> listing_ok files"
    using p j by (auto simp: demo_listing_def listing_ok_def)
  have x: "filepath_Ext ''a.mp4'' = ''.mp4''" "filepath_Ext ''b.mp4'' = ''.mp4''" by (simp_all add: filepath_Ext_def)
  note t = retention_exact [OF _ ok l e f c]
  have "as_files s' ''r/cam/a.mp4'' = None \<and> as_files s' ''r/cam/b.mp4'' = Some [2]"
    using t by (simp add: j demo_listing_def expired_def x r NewDefaultConfig_def demo_archive_def Let_def)
  then show ?thesis using c by blast
qed

lemma set_map_filter: "set (List.map_filter f xs) = {y. \<exists>x\<in>set xs. f x = Some y}"
  by (force simp: List.map_filter_def)

lemma backup_fold:
  "fold (\<lambda>(path, t) fs. if t < c \<and> ok path then fs - {path} else fs) xs files = files - {p. ok p \<and> (\<exists>t. (p, t) \<in> set xs \<and> t < (c :: int))}"
proof (induction xs arbitrary: files)
  case (Cons x xs)
  obtain p t where x: "x = (p, t)" by force
  show ?case using Cons.IH by (cases "t < c \<and> ok p") (auto simp: x)
qed simp

text \<open>A backup is removed if and only if it is listed and older than the retention.\<close>

lemma backup_rotation:
  assumes "0 < days"
  shows "cleanupOldBackups ok now days dir (Inr entries) files = files - {p. ok p \<and>
    (\<exists>e t. e \<in> set entries \<and> p = filepath_Join [dir, de_Name e] \<and> \<not> de_IsDir e \<and> filepath_Ext (de_Name e) = ''.bak'' \<and>
       de_Info e = Some t \<and> t < now - days * (24 * 3600 * second))}"
proof -
  let ?b = "List.map_filter (\<lambda>e. if de_IsDir e \<or> filepath_Ext (de_Name e) \<noteq> ''.bak'' then None
                                else map_option (\<lambda>t. (filepath_Join [dir, de_Name e], t)) (de_Info e)) entries"
  have "set (sort_newest ?b) = {(filepath_Join [dir, de_Name e], t) | e t. e \<in> set entries \<and> \<not> de_IsDir e \<and> filepath_Ext (de_Name e) = ''.bak'' \<and> de_Info e = Some t}"
    unfolding sort_newest_def set_rev set_sort set_map_filter by (auto split: if_splits)
  then show ?thesis using assms by (auto simp: cleanupOldBackups_def Let_def backup_fold AddDate_days_def)
qed

end
