(* ===== verification/Annexb.thy ===== *)
theory Annexb
  imports Prelude
begin

text \<open>
  Byte formats of the live outputs. NAL units are sent in Annex-B form, each after the start code 0, 0, 0, 1;
  a receiver finds them again because a NAL unit never contains that code (the emulation
  prevention of H.264 and H.265). Numbers are big-endian. Buffers are filled in place, with \<open>copy\<close>
  and \<open>binary.BigEndian.Put\<close>, which panic when the slice expression is out of range.

  Shown: splitting undoes Annex-B framing, big-endian numbers read back, and consecutive writes into a buffer
  that is large enough succeed and overwrite exactly the bytes they should, whatever it held.
\<close>

definition start_code :: bytes where
  "start_code = [0, 0, 0, 1]"

definition annexb :: "bytes list \<Rightarrow> bytes" where
  "annexb nalus = concat (map (\<lambda>n. start_code @ n) nalus)"

text \<open>The receiver: cut at every start code.\<close>

function scan_codes :: "bytes \<Rightarrow> bytes \<Rightarrow> bytes list" where
  "scan_codes cur bs =
     (if take 4 bs = start_code then rev cur # scan_codes [] (drop 4 bs)
      else (case bs of [] \<Rightarrow> [rev cur] | x # r \<Rightarrow> scan_codes (x # cur) r))"
  by pat_completeness auto
termination
proof (relation "measure (\<lambda>(cur, bs). length bs)")
  fix cur bs :: bytes assume "take 4 bs = start_code"
  then have "bs \<noteq> []" by (auto simp: start_code_def)
  then show "(([], drop 4 bs), (cur, bs)) \<in> measure (\<lambda>(cur, bs). length bs)" by (cases bs) auto
qed simp_all

declare scan_codes.simps [simp del]

definition split_annexb :: "bytes \<Rightarrow> bytes list" where
  "split_annexb bs = tl (scan_codes [] bs)"

definition no_start_code :: "bytes \<Rightarrow> bool" where
  "no_start_code n \<longleftrightarrow> \<not> sublist start_code n"

fun be_bytes :: "nat \<Rightarrow> nat \<Rightarrow> bytes" where
  "be_bytes 0 n = []"
| "be_bytes (Suc k) n = be_bytes k (n div 256) @ [of_nat n]"

definition be_nat :: "bytes \<Rightarrow> nat" where
  "be_nat bs = foldl (\<lambda>a b. 256 * a + unat b) 0 bs"

text \<open>\<open>copy(buf[off:], src)\<close>, \<open>buf[i] = v\<close> and \<open>binary.BigEndian.PutUint16/64(buf[off:], n)\<close>.\<close>

definition copy_at :: "nat \<Rightarrow> bytes \<Rightarrow> bytes \<Rightarrow> bytes outcome" where
  "copy_at off src buf =
     (if off \<le> length buf then Inr (take off buf @ take (length buf - off) src @ drop (off + length src) buf)
      else Inl IndexOutOfRange)"

definition set_at :: "nat \<Rightarrow> byte \<Rightarrow> bytes \<Rightarrow> bytes outcome" where
  "set_at i v buf = (if i < length buf then Inr (buf[i := v]) else Inl IndexOutOfRange)"

definition put_be_at :: "nat \<Rightarrow> nat \<Rightarrow> nat \<Rightarrow> bytes \<Rightarrow> bytes outcome" where
  "put_be_at k off n buf = (if off + k \<le> length buf then copy_at off (be_bytes k n) buf else Inl IndexOutOfRange)"

subsection \<open>Annex-B\<close>

lemma code_boundary:
  assumes "no_start_code n" "n \<noteq> []"
  shows "take 4 (n @ start_code @ r) \<noteq> start_code" "take 4 n \<noteq> start_code"
proof -
  have p: "\<not> prefix start_code n" using assms(1) by (auto simp: no_start_code_def)
  show "take 4 n \<noteq> start_code" using p by (metis take_is_prefix)
  show "take 4 (n @ start_code @ r) \<noteq> start_code"
  proof
    assume a: "take 4 (n @ start_code @ r) = start_code"
    consider "4 \<le> length n" | "length n = 1" | "length n = 2" | "length n = 3" proof -
      have "length n \<noteq> 0" using assms(2) by simp
      then show ?thesis using that by linarith
    qed
    then show False
    proof cases
      case 1
      then have "take 4 n = start_code" using a by simp
      then show False using p by (metis take_is_prefix)
    qed (use a in \<open>auto simp: start_code_def length_Suc_conv numeral_2_eq_2 numeral_3_eq_3 take_Cons'\<close>)
  qed
qed

lemma no_start_code_tl: "no_start_code (x # n) \<Longrightarrow> no_start_code n"
  by (auto simp: no_start_code_def sublist_Cons_right)

lemma scan_codes_next: "no_start_code n \<Longrightarrow> scan_codes cur (n @ start_code @ r) = (rev cur @ n) # scan_codes [] r"
proof (induction n arbitrary: cur)
  case Nil
  then show ?case by (subst scan_codes.simps) (simp add: start_code_def)
next
  case (Cons x n)
  then show ?case using code_boundary(1) [OF Cons.prems, of r] no_start_code_tl [OF Cons.prems]
    by (subst scan_codes.simps) simp
qed

lemma scan_codes_last: "no_start_code n \<Longrightarrow> scan_codes cur n = [rev cur @ n]"
proof (induction n arbitrary: cur)
  case Nil
  then show ?case by (subst scan_codes.simps) (simp add: start_code_def)
next
  case (Cons x n)
  then show ?case using code_boundary(2) [OF Cons.prems] no_start_code_tl [OF Cons.prems]
    by (subst scan_codes.simps) simp
qed

lemma scan_annexb:
  "no_start_code p \<Longrightarrow> \<forall>n\<in>set ns. no_start_code n \<Longrightarrow> scan_codes [] (p @ annexb ns) = p # ns"
proof (induction ns arbitrary: p)
  case Nil
  then show ?case by (simp add: annexb_def scan_codes_last)
next
  case (Cons n ns)
  have "scan_codes [] (p @ annexb (n # ns)) = scan_codes [] (p @ start_code @ n @ annexb ns)" by (simp add: annexb_def)
  also have "\<dots> = p # scan_codes [] (n @ annexb ns)" using scan_codes_next [OF Cons.prems(1)] by simp
  finally show ?case using Cons.IH [of n] Cons.prems(2) by simp
qed

lemma split_annexb [simp]: "\<forall>n\<in>set ns. no_start_code n \<Longrightarrow> split_annexb (annexb ns) = ns"
  using scan_annexb [of "[]" ns] by (simp add: split_annexb_def no_start_code_def start_code_def)

lemma annexb_append [simp]: "annexb (a @ b) = annexb a @ annexb b"
  by (simp add: annexb_def)

subsection \<open>Numbers and buffers\<close>

lemma length_be_bytes [simp]: "length (be_bytes k n) = k"
  by (induction k n rule: be_bytes.induct) simp_all

lemma be_nat_be_bytes: "n < 256 ^ k \<Longrightarrow> be_nat (be_bytes k n) = n"
proof (induction k n rule: be_bytes.induct)
  case (2 k n)
  have "n div 256 < 256 ^ k" using "2.prems" by (simp add: less_mult_imp_div_less mult.commute)
  with "2.IH" show ?case by (simp add: be_nat_def unat_of_nat)
qed (simp add: be_nat_def)

lemma copy_next [simp]:
  "length src \<le> length rest \<Longrightarrow> copy_at (length pre) src (pre @ rest) = Inr (pre @ src @ drop (length src) rest)"
  by (simp add: copy_at_def)

lemma put_be_next [simp]:
  "k \<le> length rest \<Longrightarrow> put_be_at k (length pre) n (pre @ rest) = Inr (pre @ be_bytes k n @ drop k rest)"
  by (simp add: put_be_at_def)

end
