(* ===== verification/Viewers.thy ===== *)
theory Viewers
  imports Annexb Camera_Stream ClientTracker
begin

text \<open>
  The live outputs that push frames to a viewer: the binary WebSocket protocol (\<open>internal/api/ws.go\<close>), the frame
  service of \<open>internal/grpc/server.go\<close> and the WebRTC pump of \<open>internal/webrtc/muxer.go\<close>. Each is a loop over what its ring reader
  delivers; the answers of the network library are part of the events. The WebSocket loop reuses one packet
  buffer, whose old contents are part of its state.

  Shown: a client that follows the documented WebSocket protocol gets the parameter sets and then exactly the camera's frames from
  the first keyframe on; gRPC and WebRTC payloads split into the parameter sets and the NAL units of the frame;
  WebRTC durations stay within a millisecond and a second.
\<close>

definition blen :: "bytes option \<Rightarrow> nat" where
  "blen b = (case b of None \<Rightarrow> 0 | Some x \<Rightarrow> length x)"

definition bytes_of :: "bytes option \<Rightarrow> bytes" where
  "bytes_of b = (case b of None \<Rightarrow> [] | Some x \<Rightarrow> x)"

subsection \<open>WebSocket\<close>

text \<open>\<open>cors\<close> is \<open>None\<close> without a configuration.\<close>

definition checkWSOrigin :: "string list option \<Rightarrow> string \<Rightarrow> bool" where
  "checkWSOrigin cors origin =
     (if origin = [] then True
      else if cors = None \<or> cors = Some [] then True
      else list_ex (\<lambda>p. p = ''*'' \<or> p = origin) (the cors))"

definition ws_header :: "bytes \<Rightarrow> bytes \<Rightarrow> bytes \<Rightarrow> bytes outcome" where
  "ws_header vps sps pps =
     (let codecType = (if 0 < length vps then 2 else 1);
          headerSize = 1 + 1 + 2 + length vps + 2 + length sps + 2 + length pps
      in and_then (set_at 0 1 (replicate headerSize 0)) (\<lambda>b.
         and_then (set_at 1 codecType b) (\<lambda>b.
         and_then (put_be_at 2 2 (length vps) b) (\<lambda>b.
         and_then (copy_at (2 + 2) vps b) (\<lambda>b.
           let offset = 2 + 2 + length vps in
         and_then (put_be_at 2 offset (length sps) b) (\<lambda>b.
         and_then (copy_at (offset + 2) sps b) (\<lambda>b.
           let offset = offset + 2 + length sps in
         and_then (put_be_at 2 offset (length pps) b) (\<lambda>b.
           copy_at (offset + 2) pps b))))))))"

definition write_nalu :: "bytes \<Rightarrow> nat \<times> bytes \<Rightarrow> (nat \<times> bytes) outcome" where
  "write_nalu nalu = (\<lambda>(writePos, b).
     and_then (copy_at writePos start_code b) (\<lambda>b.
     and_then (copy_at (writePos + 4) nalu b) (\<lambda>b.
       Inr (writePos + 4 + length nalu, b))))"

definition ts_micro :: "frame \<Rightarrow> nat" where
  "ts_micro f = (let tsMicro = Timestamp f sdiv 1000 in nat (if tsMicro < 0 then 0 else tsMicro))"

text \<open>The packet of a frame, written into the buffer with backing array \<open>arr\<close>.\<close>

definition ws_packet :: "bytes \<Rightarrow> frame \<Rightarrow> (bytes \<times> bytes) outcome" where
  "ws_packet arr frame =
     (let totalPayloadLen = sum_list (map (\<lambda>n. 4 + length n) (NALUs frame));
          reqLen = 1 + 1 + 8 + totalPayloadLen;
          arr = (if length arr < reqLen then replicate reqLen 0 else arr)
      in and_then (set_at 0 2 (take reqLen arr)) (\<lambda>b.
         and_then (set_at 1 (if IsKeyFrame frame then 1 else 0) b) (\<lambda>b.
         and_then (put_be_at 8 2 (ts_micro frame) b) (\<lambda>b.
         and_then (for_each write_nalu (NALUs frame) (10, b)) (\<lambda>(_, packetBuf).
           Inr (packetBuf, packetBuf @ drop reqLen arr))))))"

text \<open>The flags say whether setting the deadline and writing the message succeed.\<close>

datatype ws_event = WsDone | WsPing bool | WsFrame frame bool | WsClosed

record 'w ws_state =
  syncedKeyFrame :: bool
  packetArr :: bytes
  ws_sent :: "bytes list"
  ws_stream :: "'w Stream"

fun ws_loop :: "ws_event list \<Rightarrow> 'w ws_state \<Rightarrow> 'w ws_state outcome" where
  "ws_loop [] s = Inr s"
| "ws_loop (WsDone # es) s = Inr s"
| "ws_loop (WsClosed # es) s = Inr s"
| "ws_loop (WsPing ok # es) s = (if ok then ws_loop es s else Inr s)"
| "ws_loop (WsFrame frame ok # es) s =
     (if \<not> syncedKeyFrame s \<and> \<not> IsKeyFrame frame then ws_loop es s
      else and_then (ws_packet (packetArr s) frame) (\<lambda>(msg, arr).
        let s1 = s\<lparr>syncedKeyFrame := True, packetArr := arr\<rparr> in
        if ok then ws_loop es (s1\<lparr>ws_sent := ws_sent s1 @ [msg], ws_stream := AddBytesSent (length msg) (ws_stream s1)\<rparr>)
        else Inr s1))"

text \<open>The codec parameters: up to thirty polls.\<close>

definition poll_params :: "(nat \<Rightarrow> bytes option \<times> bytes option \<times> bytes option) \<Rightarrow> bytes option \<times> bytes option \<times> bytes option" where
  "poll_params polls =
     (case find (\<lambda>i. 0 < blen (fst (snd (polls i)))) [0..<30] of Some i \<Rightarrow> polls i | None \<Rightarrow> polls 29)"

datatype 'w ws_result = WsNotFound | WsUpgradeFailed | WsEnded "bytes list" "'w Stream"

definition StreamWS ::
  "int \<Rightarrow> string \<Rightarrow> string \<Rightarrow> string list option \<Rightarrow> string \<Rightarrow> bool \<Rightarrow> (nat \<Rightarrow> bytes option \<times> bytes option \<times> bytes option) \<Rightarrow> bool \<Rightarrow> bool \<Rightarrow>
   ws_event list \<Rightarrow> 'w Stream option \<Rightarrow> tracker \<Rightarrow> ('w ws_result \<times> tracker) outcome" where
  "StreamWS now ip i cors origin handshake polls header_ok deadline_ok events found ct =
     (let ct = Mark now ip i ct in
      case found of
        None \<Rightarrow> Inr (WsNotFound, ct)
      | Some st \<Rightarrow>
          if \<not> (checkWSOrigin cors origin \<and> handshake) then Inr (WsUpgradeFailed, ct)
          else
            let (vps, sps, pps) = poll_params polls in
            if 65535 < blen vps \<or> 65535 < blen sps \<or> 65535 < blen pps then Inr (WsEnded [] st, ct)
            else
              and_then (ws_header (bytes_of vps) (bytes_of sps) (bytes_of pps)) (\<lambda>headerBuf.
                if \<not> header_ok then Inr (WsEnded [] st, ct)
                else if \<not> deadline_ok then Inr (WsEnded [headerBuf] st, ct)
                else and_then (ws_loop events \<lparr>syncedKeyFrame = False, packetArr = [], ws_sent = [headerBuf], ws_stream = st\<rparr>)
                       (\<lambda>s. Inr (WsEnded (ws_sent s) (ws_stream s), ct))))"

text \<open>A client of the documented protocol.\<close>

definition parse_field :: "bytes \<Rightarrow> (bytes \<times> bytes) option" where
  "parse_field bs =
     (let n = be_nat (take 2 bs) in
      if length bs < 2 + n then None else Some (take n (drop 2 bs), drop (2 + n) bs))"

definition parse_ws_header :: "bytes \<Rightarrow> (byte \<times> bytes \<times> bytes \<times> bytes) option" where
  "parse_ws_header bs =
     (case bs of
        t # c # r \<Rightarrow>
          if t \<noteq> 1 then None
          else Option.bind (parse_field r) (\<lambda>(vps, r).
               Option.bind (parse_field r) (\<lambda>(sps, r).
               Option.bind (parse_field r) (\<lambda>(pps, r).
                 if r = [] then Some (c, vps, sps, pps) else None)))
      | _ \<Rightarrow> None)"

definition parse_ws_data :: "bytes \<Rightarrow> (bool \<times> nat \<times> bytes list) option" where
  "parse_ws_data bs =
     (case bs of
        t # k # r \<Rightarrow> if t = 2 \<and> 8 \<le> length r then Some (k = 1, be_nat (take 8 r), split_annexb (drop 8 r)) else None
      | _ \<Rightarrow> None)"

subsection \<open>gRPC\<close>

record FrameResponse =
  fr_Codec :: string
  fr_IsKeyframe :: bool
  fr_Pts :: int
  fr_Payload :: bytes

definition append_nalu :: "bytes \<Rightarrow> bytes \<Rightarrow> bytes" where
  "append_nalu nalu payload = (payload @ [0, 0, 0, 1]) @ nalu"

definition append_param :: "bytes option \<Rightarrow> bytes \<Rightarrow> bytes" where
  "append_param p payload = (if 0 < blen p then append_nalu (bytes_of p) payload else payload)"

definition frame_response :: "codec_params option \<Rightarrow> frame \<Rightarrow> FrameResponse" where
  "frame_response params frame =
     (let codec = (case params of Some p \<Rightarrow> if 0 < blen (VPS p) then ''H265'' else ''H264'' | None \<Rightarrow> ''H264'');
          payload = (if IsKeyFrame frame
            then (case params of Some p \<Rightarrow> append_param (PPS p) (append_param (SPS p) (append_param (VPS p) [])) | None \<Rightarrow> [])
            else [])
      in \<lparr>fr_Codec = codec, fr_IsKeyframe = IsKeyFrame frame, fr_Pts = Timestamp frame sdiv 1000000,
          fr_Payload = fold append_nalu (NALUs frame) payload\<rparr>)"

text \<open>What \<open>ReadContext\<close> returns: a frame, with the parameters read next and the error of \<open>Send\<close>; or its end, with whether
  the client's context ended.\<close>

datatype grpc_event = GFrame frame "codec_params option" "string option" | GEnd bool

datatype grpc_result = GrpcOk | GrpcError string

fun grpc_loop :: "grpc_event list \<Rightarrow> FrameResponse list \<times> 'w Stream \<Rightarrow> (FrameResponse list \<times> 'w Stream) \<times> grpc_result option" where
  "grpc_loop [] r = (r, None)"
| "grpc_loop (GEnd ctx_err # es) r = (r, Some (if ctx_err then GrpcOk else GrpcError ''stream closed''))"
| "grpc_loop (GFrame frame params err # es) (sent, st) =
     (let resp = frame_response params frame in
      case err of
        Some e \<Rightarrow> ((sent, st), Some (GrpcError e))
      | None \<Rightarrow> grpc_loop es (sent @ [resp], AddBytesSent (length (fr_Payload resp)) st))"

definition StreamFrames ::
  "string \<Rightarrow> 'w Stream option \<Rightarrow> grpc_event list \<Rightarrow> (FrameResponse list \<times> 'w Stream) option \<times> grpc_result option" where
  "StreamFrames i found events =
     (case found of
        None \<Rightarrow> (None, Some (GrpcError (''camera '' @ i @ '' not found'')))
      | Some st \<Rightarrow> map_prod Some id (grpc_loop events ([], st)))"

subsection \<open>WebRTC\<close>

definition defaultFrameDuration :: int where "defaultFrameDuration = 40 * 1000000"
definition minFrameDuration :: int where "minFrameDuration = 1000000"
definition maxFrameDuration :: int where "maxFrameDuration = 1000000000"

definition calculateFrameDuration :: "int \<Rightarrow> int \<Rightarrow> bool \<Rightarrow> int \<times> int \<times> bool" where
  "calculateFrameDuration currentPTS lastPTS hasLastPTS =
     (if \<not> hasLastPTS then (defaultFrameDuration, currentPTS, True)
      else
        let delta = s64 (currentPTS - lastPTS) in
        if delta \<le> 0 \<or> maxFrameDuration < delta then (defaultFrameDuration, currentPTS, True)
        else if delta < minFrameDuration then (minFrameDuration, currentPTS, True)
        else (delta, currentPTS, True))"

record pump =
  pump_sps :: "bytes option"
  pump_pps :: "bytes option"
  lastPTS :: int
  hasLastPTS :: bool

definition append_set :: "bytes option \<Rightarrow> bytes \<Rightarrow> bytes" where
  "append_set p annexB = (case p of None \<Rightarrow> annexB | Some x \<Rightarrow> append_nalu x annexB)"

definition pump_frame :: "codec_params option \<Rightarrow> frame \<Rightarrow> pump \<Rightarrow> (bytes \<times> int) \<times> pump" where
  "pump_frame params frame p =
     (let (duration, l, h) = calculateFrameDuration (Timestamp frame) (lastPTS p) (hasLastPTS p);
          p1 = p\<lparr>lastPTS := l, hasLastPTS := h\<rparr>;
          p2 = (if IsKeyFrame frame \<and> (pump_sps p1 = None \<or> pump_pps p1 = None)
                then (case params of Some q \<Rightarrow> p1\<lparr>pump_sps := SPS q, pump_pps := PPS q\<rparr> | None \<Rightarrow> p1) else p1);
          annexB = (if IsKeyFrame frame then append_set (pump_pps p2) (append_set (pump_sps p2) []) else [])
      in ((fold append_nalu (NALUs frame) annexB, duration), p2))"

text \<open>The loop: frames with the parameters current at the time and whether writing the sample succeeds.\<close>

fun pump_loop :: "(frame \<times> codec_params option \<times> bool) list \<Rightarrow> pump \<Rightarrow> (bytes \<times> int) list" where
  "pump_loop [] p = []"
| "pump_loop ((frame, params, ok) # es) p =
     (let (sample, p1) = pump_frame params frame p in if ok then sample # pump_loop es p1 else [])"

definition pumpFrames :: "codec_params option \<Rightarrow> (frame \<times> codec_params option \<times> bool) list \<Rightarrow> (bytes \<times> int) list" where
  "pumpFrames params events =
     pump_loop events
       (case params of
          Some q \<Rightarrow> \<lparr>pump_sps = SPS q, pump_pps = PPS q, lastPTS = 0, hasLastPTS = False\<rparr>
        | None \<Rightarrow> \<lparr>pump_sps = None, pump_pps = None, lastPTS = 0, hasLastPTS = False\<rparr>)"

subsection \<open>The WebSocket packets\<close>

lemma copy_at_end: "off = length pre \<Longrightarrow> length src \<le> length rest \<Longrightarrow> copy_at off src (pre @ rest) = Inr ((pre @ src) @ drop (length src) rest)"
  by simp

lemma put_be_at_end: "off = length pre \<Longrightarrow> k \<le> length rest \<Longrightarrow> put_be_at k off n (pre @ rest) = Inr ((pre @ be_bytes k n) @ drop k rest)"
  by simp

lemma set_at_front [simp]: "set_at 0 v (x # b) = Inr (v # b)" "set_at 1 v (y # x # b) = Inr (y # v # b)"
  "set_at (Suc 0) v (y # x # b) = Inr (y # v # b)"
  by (simp_all add: set_at_def)

lemma ws_header_layout:
  "ws_header vps sps pps = Inr ([1, if 0 < length vps then 2 else 1] @ be_bytes 2 (length vps) @ vps @
     be_bytes 2 (length sps) @ sps @ be_bytes 2 (length pps) @ pps)"
proof -
  define c :: byte where "c = (if 0 < length vps then 2 else 1)"
  define m where "m = 2 + length vps + 2 + length sps + 2 + length pps"
  let ?b1 = "[1, c] @ be_bytes 2 (length vps)"
  let ?b2 = "?b1 @ vps"
  let ?b3 = "?b2 @ be_bytes 2 (length sps)"
  let ?b4 = "?b3 @ sps"
  let ?b5 = "?b4 @ be_bytes 2 (length pps)"
  have r: "replicate (1 + 1 + 2 + length vps + 2 + length sps + 2 + length pps) (0 :: byte) = 0 # 0 # replicate m 0"
    by (simp add: m_def)
  have le: "2 \<le> m" "length vps \<le> m - 2" "2 \<le> m - 2 - length vps" "length sps \<le> m - 2 - length vps - 2"
    "2 \<le> m - 2 - length vps - 2 - length sps" "m - 2 - length vps - 2 - length sps - 2 = length pps"
    by (simp_all add: m_def)
  have 1: "put_be_at 2 2 (length vps) (1 # c # replicate m 0) = Inr (?b1 @ replicate (m - 2) 0)"
    using put_be_at_end [of 2 "[1, c]" 2 "replicate m 0"] le by simp
  have 2: "copy_at (2 + 2) vps (?b1 @ replicate (m - 2) 0) = Inr (?b2 @ replicate (m - 2 - length vps) 0)"
    using copy_at_end [of "2 + 2" ?b1 vps "replicate (m - 2) 0"] le by simp
  have 3: "put_be_at 2 (2 + 2 + length vps) (length sps) (?b2 @ replicate (m - 2 - length vps) 0) = Inr (?b3 @ replicate (m - 2 - length vps - 2) 0)"
    using put_be_at_end [of "2 + 2 + length vps" ?b2 2 "replicate (m - 2 - length vps) 0"] le by simp
  have 4: "copy_at (2 + 2 + length vps + 2) sps (?b3 @ replicate (m - 2 - length vps - 2) 0) = Inr (?b4 @ replicate (m - 2 - length vps - 2 - length sps) 0)"
    using copy_at_end [of "2 + 2 + length vps + 2" ?b3 sps "replicate (m - 2 - length vps - 2) 0"] le by simp
  have 5: "put_be_at 2 (2 + 2 + length vps + 2 + length sps) (length pps) (?b4 @ replicate (m - 2 - length vps - 2 - length sps) 0) =
      Inr (?b5 @ replicate (length pps) 0)"
    using put_be_at_end [of "2 + 2 + length vps + 2 + length sps" ?b4 2 "replicate (m - 2 - length vps - 2 - length sps) 0"] le by simp
  have 6: "copy_at (2 + 2 + length vps + 2 + length sps + 2) pps (?b5 @ replicate (length pps) 0) = Inr (?b5 @ pps)"
    using copy_at_end [of "2 + 2 + length vps + 2 + length sps + 2" ?b5 pps "replicate (length pps) 0"] by simp
  have "ws_header vps sps pps = Inr (?b5 @ pps)"
    unfolding ws_header_def Let_def r c_def [symmetric] set_at_front and_then_Inr 1 2 3 4 5 6 ..
  then show ?thesis unfolding c_def by simp
qed

lemma parse_field_be: "length x \<le> 65535 \<Longrightarrow> parse_field (be_bytes 2 (length x) @ x @ r) = Some (x, r)"
  using be_nat_be_bytes [of "length x" 2] by (simp add: parse_field_def)

lemma ws_header_parses:
  assumes "length vps \<le> 65535" "length sps \<le> 65535" "length pps \<le> 65535"
  shows "\<exists>h. ws_header vps sps pps = Inr h \<and> parse_ws_header h = Some (if vps \<noteq> [] then 2 else 1, vps, sps, pps)"
  using parse_field_be [OF assms(1), of "be_bytes 2 (length sps) @ sps @ be_bytes 2 (length pps) @ pps"]
    parse_field_be [OF assms(2), of "be_bytes 2 (length pps) @ pps"] parse_field_be [OF assms(3), of "[]"]
  by (simp add: ws_header_layout parse_ws_header_def)

lemma length_annexb: "length (annexb ns) = sum_list (map (\<lambda>n. 4 + length n) ns)"
  by (induction ns) (simp_all add: annexb_def start_code_def)

lemma write_nalus:
  "length (annexb ns) \<le> length rest \<Longrightarrow>
   for_each write_nalu ns (length pre, pre @ rest) = Inr (length pre + length (annexb ns), pre @ annexb ns @ drop (length (annexb ns)) rest)"
proof (induction ns arbitrary: pre rest)
  case Nil
  then show ?case by (simp add: annexb_def)
next
  case (Cons n ns)
  have sc: "length start_code = 4" by (simp add: start_code_def)
  have l: "4 + length n + length (annexb ns) \<le> length rest" using Cons.prems sc by (simp add: annexb_def)
  let ?pre = "pre @ start_code @ n" and ?rest = "drop (4 + length n) rest"
  have "write_nalu n (length pre, pre @ rest) = Inr (length ?pre, ?pre @ ?rest)"
    using copy_at_end [of "length pre" pre start_code rest] copy_at_end [of "length pre + 4" "pre @ start_code" n "drop 4 rest"] l sc
    by (simp add: write_nalu_def add.assoc add.commute)
  then show ?case using Cons.IH [of ?rest ?pre] l sc by (simp add: annexb_def add.assoc add.commute add.left_commute)
qed

text \<open>Whatever the buffer held before, the message is the frame's packet.\<close>

lemma ws_packet_layout:
  "\<exists>arr'. ws_packet arr f = Inr ([2, if IsKeyFrame f then 1 else 0] @ be_bytes 8 (ts_micro f) @ annexb (NALUs f), arr')"
proof -
  define total where "total = sum_list (map (\<lambda>n. 4 + length n) (NALUs f))"
  define arr1 where "arr1 = (if length arr < 1 + 1 + 8 + total then replicate (1 + 1 + 8 + total) 0 else arr)"
  let ?k = "if IsKeyFrame f then 1 else 0 :: byte"
  have tot: "length (annexb (NALUs f)) = total"
    unfolding total_def by (rule length_annexb)
  have "length (take (1 + 1 + 8 + total) arr1) = Suc (Suc (8 + total))" by (simp add: arr1_def)
  then obtain x y r where xy: "take (1 + 1 + 8 + total) arr1 = x # y # r" "length r = 8 + total"
    unfolding length_Suc_conv by blast
  have 1: "put_be_at 8 2 (ts_micro f) (2 # ?k # r) = Inr (([2, ?k] @ be_bytes 8 (ts_micro f)) @ drop 8 r)"
    using put_be_at_end [of 2 "[2, ?k]" 8 r] xy(2) by simp
  have 2: "for_each write_nalu (NALUs f) (10, ([2, ?k] @ be_bytes 8 (ts_micro f)) @ drop 8 r) =
      Inr (10 + total, ([2, ?k] @ be_bytes 8 (ts_micro f)) @ annexb (NALUs f))"
    using write_nalus [of "NALUs f" "drop 8 r" "[2, ?k] @ be_bytes 8 (ts_micro f)"] tot xy(2) by simp
  show ?thesis
    unfolding ws_packet_def Let_def total_def [symmetric] arr1_def [symmetric] xy(1) set_at_front and_then_Inr 1 2 by simp
qed

definition ws_view :: "frame \<Rightarrow> bool \<times> nat \<times> bytes list" where
  "ws_view f = (IsKeyFrame f, ts_micro f, NALUs f)"

lemma ts_micro_less: "in_s64 (Timestamp f) \<Longrightarrow> ts_micro f < 256 ^ 8"
proof -
  assume "in_s64 (Timestamp f)"
  then have "Timestamp f sdiv 1000 < 2 ^ 63" if "0 \<le> Timestamp f" using that by (simp add: sdiv_nonneg in_s64_def)
  moreover have "Timestamp f sdiv 1000 \<le> 0" if "Timestamp f < 0" using that by (simp add: signed_divide_int_def sgn_if)
  ultimately show ?thesis by (cases "0 \<le> Timestamp f") (auto simp: ts_micro_def Let_def)
qed

lemma packet_parses:
  assumes "in_s64 (Timestamp f)" "\<forall>n\<in>set (NALUs f). no_start_code n"
  shows "parse_ws_data ([2, if IsKeyFrame f then 1 else 0] @ be_bytes 8 (ts_micro f) @ annexb (NALUs f)) = Some (ws_view f)"
  using be_nat_be_bytes [OF ts_micro_less [OF assms(1)]] assms(2) by (simp add: parse_ws_data_def ws_view_def)

definition ws_bytes :: "frame \<Rightarrow> bytes" where
  "ws_bytes f = [2, if IsKeyFrame f then 1 else 0] @ be_bytes 8 (ts_micro f) @ annexb (NALUs f)"

fun frames_of :: "ws_event list \<Rightarrow> frame list" where
  "frames_of [] = []"
| "frames_of (WsFrame f ok # es) = f # frames_of es"
| "frames_of (_ # es) = frames_of es"

fun succeeds :: "ws_event \<Rightarrow> bool" where
  "succeeds (WsFrame f ok) = ok"
| "succeeds (WsPing ok) = ok"
| "succeeds _ = False"

abbreviation synced_frames :: "bool \<Rightarrow> frame list \<Rightarrow> frame list" where
  "synced_frames b fs \<equiv> (if b then fs else dropWhile (\<lambda>f. \<not> IsKeyFrame f) fs)"

lemma ws_loop_sends:
  "\<exists>s' k. ws_loop es s = Inr s' \<and>
     ws_sent s' = ws_sent s @ map ws_bytes (take k (synced_frames (syncedKeyFrame s) (frames_of es))) \<and>
     bytesSent (ws_stream s') = (if k = 0 then bytesSent (ws_stream s)
       else u64 (bytesSent (ws_stream s) + sum_list (map (\<lambda>f. length (ws_bytes f)) (take k (synced_frames (syncedKeyFrame s) (frames_of es)))))) \<and>
     (list_all succeeds es \<longrightarrow> k = length (synced_frames (syncedKeyFrame s) (frames_of es)))"
proof (induction es arbitrary: s)
  case Nil
  show ?case by simp
next
  case (Cons e es)
  have frame_case: ?case if "e = WsFrame frame ok" for frame ok
  proof (cases "\<not> syncedKeyFrame s \<and> \<not> IsKeyFrame frame")
    case True
    have fr: "synced_frames (syncedKeyFrame s) (frames_of (WsFrame frame ok # es)) = synced_frames (syncedKeyFrame s) (frames_of es)"
      and step: "ws_loop (WsFrame frame ok # es) s = ws_loop es s" using True by simp_all
    have "list_all succeeds (WsFrame frame ok # es) \<longrightarrow> list_all succeeds es" by simp
    then show ?thesis using Cons.IH [of s] unfolding that step fr by blast
  next
    case False
    obtain arr where p: "ws_packet (packetArr s) frame = Inr (ws_bytes frame, arr)"
      using ws_packet_layout [of "packetArr s" frame] by (auto simp: ws_bytes_def)
    have fr: "synced_frames (syncedKeyFrame s) (frames_of (WsFrame frame ok # es)) = frame # frames_of es" using False by auto
    show ?thesis
    proof (cases ok)
      case False
      then show ?thesis using \<open>\<not> (\<not> syncedKeyFrame s \<and> \<not> IsKeyFrame frame)\<close> p unfolding that by (intro exI [of _ 0] exI) (auto simp: Let_def)
    next
      case True
      define s1 where "s1 = s\<lparr>syncedKeyFrame := True, packetArr := arr\<rparr>"
      define s2 where "s2 = s1\<lparr>ws_sent := ws_sent s1 @ [ws_bytes frame], ws_stream := AddBytesSent (length (ws_bytes frame)) (ws_stream s1)\<rparr>"
      have step: "ws_loop (WsFrame frame ok # es) s = ws_loop es s2" using True
        unfolding ws_loop.simps if_not_P [OF \<open>\<not> (\<not> syncedKeyFrame s \<and> \<not> IsKeyFrame frame)\<close>] p by (simp add: s2_def s1_def Let_def)
      have sync: "syncedKeyFrame s2" by (simp add: s2_def s1_def)
      obtain s' k where IH: "ws_loop es s2 = Inr s'" "ws_sent s' = ws_sent s2 @ map ws_bytes (take k (frames_of es))"
        "bytesSent (ws_stream s') = (if k = 0 then bytesSent (ws_stream s2)
          else u64 (bytesSent (ws_stream s2) + sum_list (map (\<lambda>f. length (ws_bytes f)) (take k (frames_of es)))))"
        "list_all succeeds es \<longrightarrow> k = length (frames_of es)"
        using Cons.IH [of s2] unfolding if_P [OF sync] by blast
      have s2: "ws_sent s2 = ws_sent s @ [ws_bytes frame]" "bytesSent (ws_stream s2) = u64 (bytesSent (ws_stream s) + length (ws_bytes frame))"
        by (simp_all add: s2_def s1_def AddBytesSent_def)
      show ?thesis unfolding that step fr
        using IH s2 by (intro exI [of _ s'] exI [of _ "Suc k"]) (auto simp: u64_def mod_add_left_eq add.assoc)
    qed
  qed
  have stop: ?case if "ws_loop (e # es) s = Inr s" "\<not> list_all succeeds (e # es)"
    unfolding that(1) using that(2) by (intro exI [of _ s] exI [of _ 0] conjI) (simp_all only: that(2) take_0 list.map append_Nil2 if_True simp_thms)
  have skip: ?case if "ws_loop (e # es) s = ws_loop es s" "frames_of (e # es) = frames_of es" "list_all succeeds (e # es) = list_all succeeds es"
    unfolding that by (rule Cons.IH)
  show ?case
  proof (cases e)
    case (WsPing ok)
    then show ?thesis by (cases ok) (rule skip stop; simp)+
  next
    case (WsFrame frame ok)
    then show ?thesis by (rule frame_case)
  qed (rule stop; simp)+
qed

lemma gop_synced_segment:
  assumes "gop_synced w (a @ js @ b)" "js \<noteq> [] \<longrightarrow> IsKeyFrame (w ! hd js)"
  shows "gop_synced w js"
proof -
  have "js ! Suc p = Suc (js ! p) \<or> IsKeyFrame (w ! (js ! Suc p))" if "Suc p < length js" for p
  proof -
    have "Suc (length a + p) < length (a @ js @ b)" using that by simp
    then have "(a @ js @ b) ! Suc (length a + p) = Suc ((a @ js @ b) ! (length a + p)) \<or>
        IsKeyFrame (w ! ((a @ js @ b) ! Suc (length a + p)))" using assms(1) unfolding gop_synced_def by blast
    then show ?thesis using that by (simp add: nth_append)
  qed
  then show ?thesis using assms unfolding gop_synced_def by (auto simp: sorted_wrt_append)
qed

lemma dropWhile_hd: "dropWhile P xs \<noteq> [] \<Longrightarrow> \<not> P (hd (dropWhile P xs))"
  by (induction xs) auto

text \<open>C34: A WebSocket viewer sees the camera's frames. Let a session be admitted for a running stream whose parameter sets fit their length
  fields, and let its reader be any reader of the ring buffer in any reachable state. Then nothing panics;
  a client that follows the documented protocol reads from the first message the codec and the parameter sets, and from the others
  the frames the reader took, from the first keyframe on, with their flag, their time in microseconds and their NAL units, until the first failing write, and all
  of them when none fails. These frames are a decodable part of the camera's stream that starts with a keyframe. Every sent byte
  of video is counted.\<close>

theorem ws_client_sees_frames:
  assumes "checkWSOrigin cors origin" "handshake" "poll_params polls = (vps, sps, pps)"
    and "blen vps \<le> 65535" "blen sps \<le> 65535" "blen pps \<le> 65535"
    and "ring_reach capacity s" "rb_readers (ring_of s) i = Some rd" "frames_of events = consumed s i"
    and "\<forall>f\<in>set (written s). in_s64 (Timestamp f) \<and> (\<forall>n\<in>set (NALUs f). no_start_code n)"
  shows "\<exists>header msgs st' js.
    StreamWS now ip cam cors origin handshake polls True True events (Some st) ct = Inr (WsEnded (header # msgs) st', Mark now ip cam ct) \<and>
    parse_ws_header header = Some (if blen vps = 0 then 1 else 2, bytes_of vps, bytes_of sps, bytes_of pps) \<and>
    map parse_ws_data msgs = map (\<lambda>j. Some (ws_view (written s ! j))) js \<and>
    gop_synced (written s) js \<and> (js \<noteq> [] \<longrightarrow> IsKeyFrame (written s ! hd js)) \<and>
    prefix (map ((!) (written s)) js) (dropWhile (\<lambda>f. \<not> IsKeyFrame f) (consumed s i)) \<and>
    (list_all succeeds events \<longrightarrow> map ((!) (written s)) js = dropWhile (\<lambda>f. \<not> IsKeyFrame f) (consumed s i)) \<and>
    (bytesSent st < 2 ^ 64 \<longrightarrow> bytesSent st' = u64 (bytesSent st + sum_list (map length msgs)))"
proof -
  let ?w = "written s"
  have len: "length (bytes_of b) = blen b" for b by (simp add: bytes_of_def blen_def split: option.split)
  obtain h where h: "ws_header (bytes_of vps) (bytes_of sps) (bytes_of pps) = Inr h"
    "parse_ws_header h = Some (if blen vps = 0 then 1 else 2, bytes_of vps, bytes_of sps, bytes_of pps)"
  proof -
    have "bytes_of vps \<noteq> [] \<longleftrightarrow> blen vps \<noteq> 0" using len [of vps] by (metis length_0_conv)
    then show ?thesis using ws_header_parses [of "bytes_of vps" "bytes_of sps" "bytes_of pps"] assms(4-6) that
      unfolding len by (auto split: if_splits)
  qed
  let ?s0 = "\<lparr>syncedKeyFrame = False, packetArr = [], ws_sent = [h], ws_stream = st\<rparr>"
  obtain s' k where loop: "ws_loop events ?s0 = Inr s'" and sent: "ws_sent s' = [h] @ map ws_bytes (take k (dropWhile (\<lambda>f. \<not> IsKeyFrame f) (consumed s i)))"
    and bytes: "bytesSent (ws_stream s') = (if k = 0 then bytesSent st
       else u64 (bytesSent st + sum_list (map (\<lambda>f. length (ws_bytes f)) (take k (dropWhile (\<lambda>f. \<not> IsKeyFrame f) (consumed s i))))))"
    and all: "list_all succeeds events \<longrightarrow> k = length (dropWhile (\<lambda>f. \<not> IsKeyFrame f) (consumed s i))"
    using ws_loop_sends [of events ?s0] unfolding assms(9) ws_state.simps if_False by blast
  have inv: "consumed s i @ ch_buf (rd_C rd) = map ((!) ?w) (got s i)" "gop_synced ?w (got s i)"
    using sys_inv_reach [OF assms(7)] assms(8) by (simp_all add: sys_inv_def)
  define g where "g = take (length (consumed s i)) (got s i)"
  define js where "js = take k (dropWhile (\<lambda>j. \<not> IsKeyFrame (?w ! j)) g)"
  have c: "consumed s i = map ((!) ?w) g" unfolding g_def using arg_cong [OF inv(1), of "take (length (consumed s i))"] by (simp add: take_map)
  have fr: "take k (dropWhile (\<lambda>f. \<not> IsKeyFrame f) (consumed s i)) = map ((!) ?w) js"
    unfolding js_def c by (simp add: dropWhile_map take_map comp_def)
  have key: "js \<noteq> [] \<longrightarrow> IsKeyFrame (?w ! hd js)"
    using dropWhile_hd [of "\<lambda>j. \<not> IsKeyFrame (?w ! j)" g] by (auto simp: js_def)
  have "got s i = takeWhile (\<lambda>j. \<not> IsKeyFrame (?w ! j)) g @ js @ drop k (dropWhile (\<lambda>j. \<not> IsKeyFrame (?w ! j)) g) @ drop (length (consumed s i)) (got s i)"
    unfolding js_def by (simp add: g_def flip: append_assoc)
  then have gs: "gop_synced ?w js" using gop_synced_segment [of ?w _ js, OF _ key] inv(2) by metis
  have "parse_ws_data (ws_bytes (?w ! j)) = Some (ws_view (?w ! j))" if "j \<in> set js" for j
  proof -
    have "?w ! j \<in> set ?w" using gs that by (simp add: gop_synced_def)
    then show ?thesis using assms(10) packet_parses unfolding ws_bytes_def by blast
  qed
  then have parsed: "map parse_ws_data (map ws_bytes (map ((!) ?w) js)) = map (\<lambda>j. Some (ws_view (?w ! j))) js" by simp
  show ?thesis
  proof (intro exI conjI)
    show "StreamWS now ip cam cors origin handshake polls True True events (Some st) ct =
        Inr (WsEnded (h # map ws_bytes (map ((!) ?w) js)) (ws_stream s'), Mark now ip cam ct)"
      using assms(1-6) h(1) loop sent fr by (simp add: StreamWS_def Let_def)
    show "prefix (map ((!) ?w) js) (dropWhile (\<lambda>f. \<not> IsKeyFrame f) (consumed s i))" unfolding fr [symmetric] by (rule take_is_prefix)
    show "list_all succeeds events \<longrightarrow> map ((!) ?w) js = dropWhile (\<lambda>f. \<not> IsKeyFrame f) (consumed s i)" unfolding fr [symmetric] using all by simp
    show "bytesSent st < 2 ^ 64 \<longrightarrow> bytesSent (ws_stream s') = u64 (bytesSent st + sum_list (map length (map ws_bytes (map ((!) ?w) js))))"
      using bytes fr by (auto simp: u64_id comp_def)
  qed (use h(2) parsed gs key in blast)+
qed

text \<open>A concrete session: one keyframe is written, read and delivered.\<close>

theorem ws_client_sees_frames_witness:
  "\<forall>(st :: unit Stream) ct. \<exists>header msgs st'.
     StreamWS 0 ''10.0.0.1'' ''cam'' (Some [''*'']) ''https://viewer'' True (\<lambda>_. (None, Some [103], Some [104])) True True
       [WsPing True, WsFrame \<lparr>Timestamp = 40000000, IsKeyFrame = True, NALUs = [[101, 1, 2]]\<rparr> True] (Some st) ct =
       Inr (WsEnded (header # msgs) st', Mark 0 ''10.0.0.1'' ''cam'' ct) \<and>
     parse_ws_header header = Some (1, [], [103], [104]) \<and> map parse_ws_data msgs = [Some (True, 40000, [[101, 1, 2]])]"
proof (intro allI)
  fix st :: "unit Stream" and ct
  let ?K = "\<lparr>Timestamp = 40000000, IsKeyFrame = True, NALUs = [[101, 1, 2]]\<rparr>"
  let ?es = "[EvSubscribe, EvWrite ?K, EvRead 0]" and ?ws = "[WsPing True, WsFrame ?K True]" and ?p = "\<lambda>_. (None, Some [103], Some [104])"
  have "\<exists>s. for_each ring_exec1 ?es (ring_start 1) = Inr s \<and> rb_readers (ring_of s) 0 \<noteq> None \<and> consumed s 0 = [?K] \<and> written s = [?K]"
    by (simp add: ring_eval Let_def)
  then obtain s rd where s: "for_each ring_exec1 ?es (ring_start 1) = Inr s" "rb_readers (ring_of s) 0 = Some rd"
      "consumed s 0 = [?K]" "written s = [?K]" by blast
  have r: "ring_reach 1 s" by (rule ring_exec_reach [OF reach_start s(1)]) (simp add: ring_start_def)
  have poll: "poll_params ?p = (None, Some [103], Some [104])" by (simp add: poll_params_def blen_def upt_rec)
  have o: "checkWSOrigin (Some [''*'']) ''https://viewer''" by (simp add: checkWSOrigin_def)
  have ok: "\<forall>f\<in>set (written s). in_s64 (Timestamp f) \<and> (\<forall>n\<in>set (NALUs f). no_start_code n)"
    by (simp add: s(4) in_s64_def no_start_code_def start_code_def sublist_code)
  have fr: "frames_of ?ws = consumed s 0" "list_all succeeds ?ws" "blen None \<le> 65535" "blen (Some [103]) \<le> 65535" "blen (Some [104]) \<le> 65535"
    by (simp_all add: s(3) blen_def)
  obtain header msgs st' js where w:
    "StreamWS 0 ''10.0.0.1'' ''cam'' (Some [''*'']) ''https://viewer'' True ?p True True ?ws (Some st) ct =
       Inr (WsEnded (header # msgs) st', Mark 0 ''10.0.0.1'' ''cam'' ct)"
    "parse_ws_header header = Some (if blen None = 0 then 1 else 2, bytes_of None, bytes_of (Some [103]), bytes_of (Some [104]))"
    "map parse_ws_data msgs = map (\<lambda>j. Some (ws_view (written s ! j))) js"
    "map ((!) (written s)) js = dropWhile (\<lambda>f. \<not> IsKeyFrame f) (consumed s 0)"
    using ws_client_sees_frames [OF o TrueI poll fr(3-5) r s(2) fr(1) ok, of 0 "''10.0.0.1''" "''cam''" st ct] fr(2) by blast
  have "map (\<lambda>j. Some (ws_view (written s ! j))) js = map (Some \<circ> ws_view) (map ((!) (written s)) js)" by simp
  also have "\<dots> = [Some (True, 40000, [[101, 1, 2]])]" unfolding w(4) by (simp add: s(3) ws_view_def ts_micro_def sdiv_nonneg)
  finally show "\<exists>header msgs st'. StreamWS 0 ''10.0.0.1'' ''cam'' (Some [''*'']) ''https://viewer'' True ?p True True ?ws (Some st) ct =
       Inr (WsEnded (header # msgs) st', Mark 0 ''10.0.0.1'' ''cam'' ct) \<and>
     parse_ws_header header = Some (1, [], [103], [104]) \<and> map parse_ws_data msgs = [Some (True, 40000, [[101, 1, 2]])]"
    using w by (auto simp: blen_def bytes_of_def)
qed

subsection \<open>The gRPC and WebRTC payloads\<close>

lemma fold_append_nalu: "fold append_nalu ns p = p @ annexb ns"
  by (induction ns arbitrary: p) (simp_all add: append_nalu_def annexb_def start_code_def)

definition param_sets :: "codec_params option \<Rightarrow> bytes list" where
  "param_sets params = (case params of None \<Rightarrow> [] | Some p \<Rightarrow> filter (\<lambda>x. x \<noteq> []) (map bytes_of [VPS p, SPS p, PPS p]))"

lemma append_param_annexb: "append_param b p = p @ annexb (filter (\<lambda>x. x \<noteq> []) [bytes_of b])"
  by (auto simp: append_param_def append_nalu_def annexb_def start_code_def blen_def bytes_of_def split: option.split)

lemma frame_response_payload:
  "fr_Payload (frame_response params f) = annexb ((if IsKeyFrame f then param_sets params else []) @ NALUs f)"
  by (simp add: frame_response_def Let_def fold_append_nalu append_param_annexb param_sets_def flip: annexb_append split: option.split)

fun gframes :: "grpc_event list \<Rightarrow> (frame \<times> codec_params option) list" where
  "gframes (GFrame f p err # es) = (f, p) # gframes es"
| "gframes _ = []"

lemma grpc_loop_sends:
  assumes "grpc_loop events (sent, st) = ((sent', st'), res)"
  shows "\<exists>k. sent' = sent @ map (\<lambda>(f, p). frame_response p f) (take k (gframes events)) \<and>
    (res = None \<or> res = Some GrpcOk \<longrightarrow> k = length (gframes events)) \<and>
    (bytesSent st < 2 ^ 64 \<longrightarrow>
     bytesSent st' = u64 (bytesSent st + sum_list (map (\<lambda>(f, p). length (fr_Payload (frame_response p f))) (take k (gframes events)))))"
  using assms
proof (induction events arbitrary: sent st)
  case Nil
  then show ?case by (auto simp: u64_id)
next
  case (Cons e es)
  show ?case
  proof (cases e)
    case (GFrame f p err)
    show ?thesis
    proof (cases err)
      case None
      let ?r = "frame_response p f"
      let ?st = "AddBytesSent (length (fr_Payload ?r)) st"
      have "grpc_loop es (sent @ [?r], ?st) = ((sent', st'), res)" using Cons.prems GFrame None by (simp add: Let_def)
      from Cons.IH [OF this] obtain k where k: "sent' = (sent @ [?r]) @ map (\<lambda>(f, p). frame_response p f) (take k (gframes es))"
        "res = None \<or> res = Some GrpcOk \<longrightarrow> k = length (gframes es)"
        "bytesSent ?st < 2 ^ 64 \<longrightarrow> bytesSent st' = u64 (bytesSent ?st + sum_list (map (\<lambda>(f, p). length (fr_Payload (frame_response p f))) (take k (gframes es))))"
        by blast
      have "bytesSent ?st = u64 (bytesSent st + length (fr_Payload ?r))" by (simp add: AddBytesSent_def)
      then show ?thesis using k GFrame
        by (intro exI [of _ "Suc k"]) (auto simp: u64_def mod_add_left_eq add.assoc)
    qed (use Cons.prems GFrame in \<open>auto simp: u64_id Let_def intro!: exI [of _ 0]\<close>)
  qed (use Cons.prems in \<open>auto simp: u64_id intro!: exI [of _ 0]\<close>)
qed



lemma pump_data:
  assumes "pump_sps p = Some sps" "pump_pps p = Some pps"
  shows "j < length (pump_loop es p) \<Longrightarrow>
    fst (pump_loop es p ! j) = annexb ((if IsKeyFrame (fst (es ! j)) then [sps, pps] else []) @ NALUs (fst (es ! j))) \<and>
    snd (pump_loop es p ! j) = fst (calculateFrameDuration (Timestamp (fst (es ! j)))
      (if j = 0 then lastPTS p else Timestamp (fst (es ! (j - 1)))) (0 < j \<or> hasLastPTS p))"
  using assms
proof (induction es p arbitrary: j rule: pump_loop.induct)
  case (2 f params ok es p)
  have has: "snd (calculateFrameDuration t l h) = (t, True)" for t l h by (auto simp: calculateFrameDuration_def Let_def)
  obtain smp p1 where s: "pump_frame params f p = (smp, p1)" by (rule prod.exhaust)
  have smp: "fst smp = annexb ((if IsKeyFrame f then [sps, pps] else []) @ NALUs f)"
    "snd smp = fst (calculateFrameDuration (Timestamp f) (lastPTS p) (hasLastPTS p))"
    "pump_sps p1 = Some sps" "pump_pps p1 = Some pps" "lastPTS p1 = Timestamp f" "hasLastPTS p1"
    using s "2.prems"(2,3) has [of "Timestamp f" "lastPTS p" "hasLastPTS p"]
    by (auto simp: pump_frame_def Let_def append_set_def append_nalu_def fold_append_nalu annexb_def start_code_def split: prod.splits if_splits)
  have ok: ok using "2.prems"(1) s by (cases ok) simp_all
  show ?case
  proof (cases j)
    case 0
    then show ?thesis using smp s ok by simp
  next
    case (Suc i)
    then show ?thesis using "2.IH" [OF s [symmetric] refl ok, of i] "2.prems"(1) smp s ok by (cases i) auto
  qed
qed simp

lemma pump_length: "length (pump_loop es p) \<le> length es" "list_all (\<lambda>(f, q, ok). ok) es \<Longrightarrow> length (pump_loop es p) = length es"
  by (induction es p rule: pump_loop.induct) (auto split: prod.splits)

lemma duration_bounds: "minFrameDuration \<le> fst (calculateFrameDuration t l h) \<and> fst (calculateFrameDuration t l h) \<le> maxFrameDuration"
  by (simp add: calculateFrameDuration_def minFrameDuration_def maxFrameDuration_def defaultFrameDuration_def Let_def)

text \<open>C36: A WebRTC viewer gets well-formed samples. With the parameter sets known, the samples written are those of the frames read, in order until a write fails:
  each splits into the two parameter sets before a keyframe and the NAL units of the frame. Every duration lies
  between a millisecond and a second, whatever the camera's clock does, and is the exact distance from the previous frame whenever that
  lies in these bounds.\<close>

theorem webrtc_samples_exact:
  assumes "SPS q = Some sps" "PPS q = Some pps" "no_start_code sps" "no_start_code pps"
    and "\<forall>(f, r, ok)\<in>set events. \<forall>n\<in>set (NALUs f). no_start_code n"
  defines "samples \<equiv> pumpFrames (Some q) events"
  shows "length samples \<le> length events \<and> (list_all (\<lambda>(f, r, ok). ok) events \<longrightarrow> length samples = length events) \<and>
    (\<forall>j < length samples. let f = fst (events ! j); (data, duration) = samples ! j in
       split_annexb data = (if IsKeyFrame f then [sps, pps] else []) @ NALUs f \<and>
       10 ^ 6 \<le> duration \<and> duration \<le> 10 ^ 9 \<and>
       (0 < j \<longrightarrow> (let delta = Timestamp f - Timestamp (fst (events ! (j - 1))) in 10 ^ 6 \<le> delta \<and> delta \<le> 10 ^ 9 \<longrightarrow> duration = delta)))"
proof (intro conjI allI impI)
  let ?p = "\<lparr>pump_sps = Some sps, pump_pps = Some pps, lastPTS = 0, hasLastPTS = False\<rparr>"
  have s: "samples = pump_loop events ?p" by (simp add: samples_def pumpFrames_def assms(1,2))
  show "length samples \<le> length events" "list_all (\<lambda>(f, r, ok). ok) events \<Longrightarrow> length samples = length events"
    unfolding s by (rule pump_length)+
  fix j assume j: "j < length samples"
  let ?f = "fst (events ! j)" and ?g = "fst (events ! (j - 1))"
  obtain data duration where d: "samples ! j = (data, duration)" by (rule prod.exhaust)
  have pd: "data = annexb ((if IsKeyFrame ?f then [sps, pps] else []) @ NALUs ?f)"
    "duration = fst (calculateFrameDuration (Timestamp ?f) (if j = 0 then 0 else Timestamp ?g) (0 < j))"
    using pump_data [of ?p sps pps j events] j d by (simp_all add: s)
  have "events ! j \<in> set events" using j \<open>length samples \<le> length events\<close> by simp
  then have "\<forall>n\<in>set (NALUs ?f). no_start_code n" using assms(5) by (auto simp: case_prod_beta)
  then have "split_annexb data = (if IsKeyFrame ?f then [sps, pps] else []) @ NALUs ?f"
    unfolding pd(1) using assms(3,4) by (intro split_annexb) auto
  moreover have "10 ^ 6 \<le> duration \<and> duration \<le> 10 ^ 9"
    using duration_bounds [of "Timestamp ?f" "if j = 0 then 0 else Timestamp ?g" "0 < j"] unfolding pd(2) minFrameDuration_def maxFrameDuration_def by simp
  moreover have "duration = Timestamp ?f - Timestamp ?g" if "0 < j" "10 ^ 6 \<le> Timestamp ?f - Timestamp ?g" "Timestamp ?f - Timestamp ?g \<le> 10 ^ 9"
  proof -
    have "s64 (Timestamp ?f - Timestamp ?g) = Timestamp ?f - Timestamp ?g" using that by (intro s64_id) (simp add: in_s64_def)
    then show ?thesis using that unfolding pd(2) by (simp add: calculateFrameDuration_def minFrameDuration_def maxFrameDuration_def)
  qed
  ultimately show "let f = ?f; (data, duration) = samples ! j in
      split_annexb data = (if IsKeyFrame f then [sps, pps] else []) @ NALUs f \<and> 10 ^ 6 \<le> duration \<and> duration \<le> 10 ^ 9 \<and>
      (0 < j \<longrightarrow> (let delta = Timestamp f - Timestamp ?g in 10 ^ 6 \<le> delta \<and> delta \<le> 10 ^ 9 \<longrightarrow> duration = delta))"
    by (simp add: d Let_def)
qed

theorem webrtc_samples_exact_witness:
  "\<exists>data. pumpFrames (Some \<lparr>VPS = None, SPS = Some [103], PPS = Some [104]\<rparr>)
      [(\<lparr>Timestamp = 0, IsKeyFrame = True, NALUs = [[101, 1]]\<rparr>, None, True), (\<lparr>Timestamp = 33000000, IsKeyFrame = False, NALUs = [[65, 2]]\<rparr>, None, True)] ! 1 =
      (data, 33000000) \<and> split_annexb data = [[65, 2]]"
proof -
  let ?q = "\<lparr>VPS = None, SPS = Some [103], PPS = Some [104]\<rparr>"
  let ?es = "[(\<lparr>Timestamp = 0, IsKeyFrame = True, NALUs = [[101, 1]]\<rparr>, None, True), (\<lparr>Timestamp = 33000000, IsKeyFrame = False, NALUs = [[65, 2]]\<rparr>, None, True)]"
  have c: "no_start_code [103]" "no_start_code [104]" "\<forall>(f, r, ok)\<in>set ?es. \<forall>n\<in>set (NALUs f). no_start_code n"
    by (simp_all add: no_start_code_def start_code_def sublist_code)
  obtain data duration where d: "pumpFrames (Some ?q) ?es ! 1 = (data, duration)" by (rule prod.exhaust)
  show ?thesis using webrtc_samples_exact [of ?q "[103]" "[104]" ?es, OF _ _ c] d by (auto simp: Let_def)
qed

subsection \<open>Answering a WebRTC offer\<close>

text \<open>The set-up of a session, with the errors of the library as arguments; the peer connection is either absent, open or
  closed.\<close>

record offer_env =
  of_new :: "string option"
  of_track :: "string option"
  of_add :: "string option"
  of_remote :: "string option"
  of_answer :: "string option"
  of_local :: "string option"
  of_sdp :: string

datatype peer = NoPeer | PeerOpen | PeerClosed

record ice_server =
  ice_URLs :: "string list"
  ice_Username :: string
  ice_Credential :: string

definition ice_config :: "Config option \<Rightarrow> ice_server list \<times> bool" where
  "ice_config cfg =
     (case cfg of
        None \<Rightarrow> ([], False)
      | Some c \<Rightarrow>
          ((case ICEServers c of
              Some (u # us) \<Rightarrow> [\<lparr>ice_URLs = u # us, ice_Username = TURNUsername c, ice_Credential = TURNPassword c\<rparr>]
            | _ \<Rightarrow> []),
           ICETransportPolicy c = ''relay''))"

fun first_error :: "string option list \<Rightarrow> string option" where
  "first_error [] = None"
| "first_error (Some e # es) = Some e"
| "first_error (None # es) = first_error es"

text \<open>Result, peer connection, and whether the frame pump was started.\<close>

definition HandleOffer :: "codec_params option \<Rightarrow> offer_env \<Rightarrow> (string + string) \<times> peer \<times> bool" where
  "HandleOffer params env =
     (case params of
        None \<Rightarrow> (Inl ''stream codec parameters not ready yet, please wait'', NoPeer, False)
      | Some p \<Rightarrow>
          if SPS p = None \<or> PPS p = None then (Inl ''stream codec parameters not ready yet, please wait'', NoPeer, False)
          else
            (case of_new env of
               Some e \<Rightarrow> (Inl e, NoPeer, False)
             | None \<Rightarrow>
                 (case first_error [of_track env, of_add env, of_remote env, of_answer env, of_local env] of
                    Some e \<Rightarrow> (Inl e, PeerClosed, False)
                  | None \<Rightarrow> (Inr (of_sdp env), PeerOpen, True))))"

lemma HandleOffer_no_leak:
  "HandleOffer params env = (r, peer, pumping) \<Longrightarrow>
   (case r of
      Inl _ \<Rightarrow> peer \<noteq> PeerOpen \<and> \<not> pumping
    | Inr sdp \<Rightarrow> sdp = of_sdp env \<and> peer = PeerOpen \<and> pumping \<and> (\<exists>p. params = Some p \<and> SPS p \<noteq> None \<and> PPS p \<noteq> None))"
  by (auto simp: HandleOffer_def split: option.splits if_splits)

text \<open>The gauge of connected peers.\<close>

datatype pc_state = StateConnected | StateClosed | StateFailed | StateOther

definition on_connection_state :: "pc_state \<Rightarrow> bool \<times> int \<Rightarrow> bool \<times> int" where
  "on_connection_state state = (\<lambda>(isConnected, active).
     let (isConnected, active) = (if state = StateConnected \<and> \<not> isConnected then (True, active + 1) else (isConnected, active)) in
     if (state = StateClosed \<or> state = StateFailed) \<and> isConnected then (False, active - 1) else (isConnected, active))"

lemma peers_gauge_exact:
  "fold on_connection_state states (c, active + (if c then 1 else 0)) = (c', active') \<Longrightarrow> active' = active + (if c' then 1 else 0)"
proof (induction states arbitrary: c)
  case (Cons st states)
  have "\<exists>d. on_connection_state st (c, active + (if c then 1 else 0)) = (d, active + (if d then 1 else 0))"
    by (auto simp: on_connection_state_def)
  then show ?case using Cons by auto
qed simp

text \<open>The ICE callback closes the peer connection and cancels the context of the pumps; the flag says that the context is live.\<close>

datatype ice_state = IceClosed | IceFailed | IceDisconnected | IceOther

definition on_ice_state :: "ice_state \<Rightarrow> peer \<times> bool \<Rightarrow> peer \<times> bool" where
  "on_ice_state state = (\<lambda>(pc, live).
     if state = IceClosed \<or> state = IceFailed \<or> state = IceDisconnected then (PeerClosed, False) else (pc, live))"

lemma on_ice_state_simps [simp]:
  "on_ice_state IceOther p = p"
  "state \<noteq> IceOther \<Longrightarrow> on_ice_state state p = (PeerClosed, False)"
  by (cases state; cases p; simp add: on_ice_state_def)+

lemma ice_closes_session:
  "fold on_ice_state states (PeerOpen, True) =
     (if list_all (\<lambda>s. s = IceOther) states then (PeerOpen, True) else (PeerClosed, False))"
proof -
  have step: "on_ice_state s (PeerClosed, False) = (PeerClosed, False)" for s by (cases "s = IceOther") simp_all
  have closed: "fold on_ice_state ss (PeerClosed, False) = (PeerClosed, False)" for ss
    by (induction ss) (simp_all add: step)
  show ?thesis
  proof (induction states)
    case (Cons s ss)
    then show ?case using closed by (cases "s = IceOther") simp_all
  qed simp
qed

end
