(* ===== verification/Udp_Batch.thy ===== *)
theory Udp_Batch
  imports Prelude "HOL-Library.Sublist"
begin

unbundle bit_operations_syntax

text \<open>
  The batching UDP sender of WebRTC (\<open>internal/webrtc/batch_linux.go\<close>). RTP packets to a peer are collected in the 32 slots of its
  batch and handed to the kernel together when the last packet of a video frame arrives or the batch is full; other
  packets go out at once, after what is waiting. Batches are objects shared between the sharded peer maps and the writers,
  so they are addresses into a store. \<open>bt_wire\<close> records what the socket accepted; the results of the kernel are
  arguments: \<open>wb k\<close> is what the \<open>k\<close>-th \<open>WriteBatch\<close> of a flush returns (messages sent, failed). Both packet connections exist once the
  batcher is created, so the fallback without them does not occur.

  A step is a whole operation: looking up a batch and writing under its lock are one step of the sequences considered, although the code
  releases the shard's lock in between. \<open>write_to_removed_batch_is_lost\<close> shows what that gap permits.

  Shown: in any sequence of writes, clean-ups and \<open>Close\<close> that do not overlap, no slot index is out of range, and the packets of a peer reach the wire in the order they were
  written, none twice, and all of them except those still waiting when the kernel accepts them; nothing waits after the last packet of a frame and after
  \<open>Close\<close>.
\<close>

record addr_port =
  ap_ip16 :: bytes
  ap_port :: nat
  ap_is6 :: bool

record peerBatch =
  pb_slots :: "bytes list"
  pb_count :: nat
  pb_udpAddr :: addr_port
  pb_lastUsed :: int

record batcher =
  bt_shards :: "(addr_port \<rightharpoonup> nat) list"
  bt_objs :: "nat \<rightharpoonup> peerBatch"
  bt_fresh :: nat
  bt_closed :: bool
  bt_wire :: "(addr_port \<times> bytes) list"

abbreviation maxBatchSize :: nat where "maxBatchSize \<equiv> 32"
abbreviation maxPacketSize :: nat where "maxPacketSize \<equiv> 1500"
abbreviation numShards :: nat where "numShards \<equiv> 64"

definition newPeerBatch :: "int \<Rightarrow> addr_port \<Rightarrow> peerBatch" where
  "newPeerBatch now addr =
     \<lparr>pb_slots = replicate maxBatchSize (replicate maxPacketSize 0), pb_count = 0, pb_udpAddr = addr, pb_lastUsed = now\<rparr>"

definition newPlatformBatcher :: batcher where
  "newPlatformBatcher =
     \<lparr>bt_shards = replicate numShards Map.empty, bt_objs = Map.empty, bt_fresh = 0, bt_closed = False, bt_wire = []\<rparr>"

definition getShard :: "addr_port \<Rightarrow> nat" where
  "getShard addr =
     (let ip16 = (\<lambda>i. ucast (ap_ip16 addr ! i) :: 32 word);
          hash = (of_nat (ap_port addr) :: 32 word) XOR
            (ip16 12 OR push_bit 8 (ip16 13) OR push_bit 16 (ip16 14) OR push_bit 24 (ip16 15))
      in unat hash mod numShards)"

definition lookup_peer :: "batcher \<Rightarrow> addr_port \<Rightarrow> nat option" where
  "lookup_peer b addr = (bt_shards b ! getShard addr) addr"

definition getOrCreatePeerBatch :: "int \<Rightarrow> addr_port \<Rightarrow> batcher \<Rightarrow> nat \<times> batcher" where
  "getOrCreatePeerBatch now addr b =
     (case lookup_peer b addr of
        Some pb \<Rightarrow> (pb, b)
      | None \<Rightarrow>
          (bt_fresh b,
           b\<lparr>bt_objs := (bt_objs b)(bt_fresh b \<mapsto> newPeerBatch now addr), bt_fresh := bt_fresh b + 1,
             bt_shards := (bt_shards b)[getShard addr := (bt_shards b ! getShard addr)(addr \<mapsto> bt_fresh b)]\<rparr>))"

text \<open>The loop of \<open>flushLocked\<close>: what is sent, and whether it failed.\<close>

function flush_loop :: "(nat \<Rightarrow> int \<times> bool) \<Rightarrow> nat \<Rightarrow> bytes list \<Rightarrow> bytes list \<times> bool" where
  "flush_loop wb k msgs =
     (if msgs = [] then ([], False)
      else
        let (n, err) = wb k; now_sent = take (nat n) msgs in
        if err then (now_sent, True)
        else if n \<le> 0 then ([], False)
        else let (rest, e) = flush_loop wb (k + 1) (drop (nat n) msgs) in (now_sent @ rest, e))"
  by pat_completeness auto
termination
  by (relation "measure (\<lambda>(wb, k, msgs). length msgs)") auto

declare flush_loop.simps [simp del]

definition flushLocked :: "(nat \<Rightarrow> int \<times> bool) \<Rightarrow> nat \<Rightarrow> batcher \<Rightarrow> bool \<times> batcher" where
  "flushLocked wb i b =
     (case bt_objs b i of
        None \<Rightarrow> (False, b)
      | Some pb \<Rightarrow>
          if pb_count pb = 0 then (False, b)
          else let (sent, err) = flush_loop wb 0 (take (pb_count pb) (pb_slots pb)) in
            (err, b\<lparr>bt_objs := (bt_objs b)(i \<mapsto> pb\<lparr>pb_count := 0\<rparr>), bt_wire := bt_wire b @ map (Pair (pb_udpAddr pb)) sent\<rparr>))"

datatype write_error = ErrClosed | ErrWrite

text \<open>A direct write; \<open>ok\<close> says whether the kernel accepts it.\<close>

definition send_direct :: "bool \<Rightarrow> bytes \<Rightarrow> addr_port \<Rightarrow> batcher \<Rightarrow> (nat \<times> write_error option) \<times> batcher" where
  "send_direct ok buf addr b =
     (if ok then ((length buf, None), b\<lparr>bt_wire := bt_wire b @ [(addr, buf)]\<rparr>) else ((0, Some ErrWrite), b))"

definition is_rtp :: "bytes \<Rightarrow> bool" where
  "is_rtp buf \<longleftrightarrow> 12 \<le> length buf \<and> (buf ! 0) AND 0xC0 = 0x80"

definition is_marker :: "bytes \<Rightarrow> bool" where
  "is_marker buf \<longleftrightarrow> (buf ! 1) AND 0x80 \<noteq> 0"

text \<open>The part of \<open>WriteToAddrPort\<close> under the lock of the batch \<open>i\<close>, for an RTP packet.\<close>

definition write_locked ::
  "(nat \<Rightarrow> int \<times> bool) \<Rightarrow> bool \<Rightarrow> int \<Rightarrow> bytes \<Rightarrow> addr_port \<Rightarrow> nat \<Rightarrow> batcher \<Rightarrow> ((nat \<times> write_error option) \<times> batcher) outcome" where
  "write_locked wb ok now buf addr i b =
     (case bt_objs b i of
        None \<Rightarrow> Inl NilDeref
      | Some pb \<Rightarrow>
          let pb = pb\<lparr>pb_lastUsed := now\<rparr>; b = b\<lparr>bt_objs := (bt_objs b)(i \<mapsto> pb)\<rparr> in
          if maxPacketSize < length buf then Inr (send_direct ok buf addr (snd (flushLocked wb i b)))
          else if maxBatchSize \<le> pb_count pb then Inl IndexOutOfRange
          else
            let n = length buf;
                pb = pb\<lparr>pb_slots := (pb_slots pb)[pb_count pb := buf], pb_count := pb_count pb + 1\<rparr>;
                b = b\<lparr>bt_objs := (bt_objs b)(i \<mapsto> pb)\<rparr>
            in if is_marker buf \<or> maxBatchSize \<le> pb_count pb
               then (case flushLocked wb i b of
                       (True, b) \<Rightarrow> Inr ((n, Some ErrWrite), b)
                     | (False, b) \<Rightarrow> Inr ((n, None), b))
               else Inr ((n, None), b))"

definition WriteToAddrPort ::
  "(nat \<Rightarrow> int \<times> bool) \<Rightarrow> bool \<Rightarrow> int \<Rightarrow> bytes \<Rightarrow> addr_port \<Rightarrow> batcher \<Rightarrow> ((nat \<times> write_error option) \<times> batcher) outcome" where
  "WriteToAddrPort wb ok now buf addr b =
     (if bt_closed b then Inr ((0, Some ErrClosed), b)
      else if buf = [] then Inr ((0, None), b)
      else
        let (i, b) = getOrCreatePeerBatch now addr b in
        if \<not> is_rtp buf then Inr (send_direct ok buf addr (snd (flushLocked wb i b)))
        else write_locked wb ok now buf addr i b)"

text \<open>One tick of \<open>cleanupLoop\<close>; \<open>order i\<close> is the order in which the map of shard \<open>i\<close> is ranged over.\<close>

definition clean_peer :: "(addr_port \<Rightarrow> nat \<Rightarrow> int \<times> bool) \<Rightarrow> int \<Rightarrow> addr_port \<Rightarrow> batcher \<Rightarrow> batcher" where
  "clean_peer wb now addr b =
     (case lookup_peer b addr of
        None \<Rightarrow> b
      | Some i \<Rightarrow>
          let b = snd (flushLocked (wb addr) i b) in
          (case bt_objs b i of
             Some pb \<Rightarrow>
               if 30 * second < now - pb_lastUsed pb
               then b\<lparr>bt_shards := (bt_shards b)[getShard addr := (bt_shards b ! getShard addr)(addr := None)]\<rparr> else b
           | None \<Rightarrow> b))"

definition cleanup_tick :: "(addr_port \<Rightarrow> nat \<Rightarrow> int \<times> bool) \<Rightarrow> int \<Rightarrow> (nat \<Rightarrow> addr_port list) \<Rightarrow> batcher \<Rightarrow> batcher" where
  "cleanup_tick wb now order b = fold (\<lambda>i. fold (clean_peer wb now) (order i)) [0..<numShards] b"

definition close_shard :: "(addr_port \<Rightarrow> nat \<Rightarrow> int \<times> bool) \<Rightarrow> (nat \<Rightarrow> addr_port list) \<Rightarrow> nat \<Rightarrow> batcher \<Rightarrow> batcher" where
  "close_shard wb order i b =
     (let b = fold (\<lambda>addr b. case lookup_peer b addr of None \<Rightarrow> b | Some j \<Rightarrow> snd (flushLocked (wb addr) j b)) (order i) b
      in b\<lparr>bt_shards := (bt_shards b)[i := Map.empty]\<rparr>)"

definition batcher_Close :: "(addr_port \<Rightarrow> nat \<Rightarrow> int \<times> bool) \<Rightarrow> (nat \<Rightarrow> addr_port list) \<Rightarrow> batcher \<Rightarrow> batcher" where
  "batcher_Close wb order b =
     (if bt_closed b then b else fold (close_shard wb order) [0..<numShards] (b\<lparr>bt_closed := True\<rparr>))"

subsection \<open>Invariant\<close>

definition batch_ok :: "batcher \<Rightarrow> bool" where
  "batch_ok b \<longleftrightarrow> length (bt_shards b) = numShards \<and>
     (\<forall>i a j. i < numShards \<longrightarrow> (bt_shards b ! i) a = Some j \<longrightarrow> getShard a = i \<and>
        (\<exists>pb. bt_objs b j = Some pb \<and> pb_udpAddr pb = a \<and> pb_count pb < maxBatchSize \<and> length (pb_slots pb) = maxBatchSize)) \<and>
     (\<forall>j\<in>dom (bt_objs b). j < bt_fresh b)"

definition waiting :: "batcher \<Rightarrow> addr_port \<Rightarrow> bytes list" where
  "waiting b a =
     (case lookup_peer b a of
        None \<Rightarrow> []
      | Some j \<Rightarrow> (case bt_objs b j of Some pb \<Rightarrow> take (pb_count pb) (pb_slots pb) | None \<Rightarrow> []))"

definition on_wire :: "batcher \<Rightarrow> addr_port \<Rightarrow> bytes list" where
  "on_wire b a = map snd (filter (\<lambda>(x, _). x = a) (bt_wire b))"

text \<open>The kernel takes at least one message at a time and never fails.\<close>

definition accepts :: "(nat \<Rightarrow> int \<times> bool) \<Rightarrow> bool" where
  "accepts wb \<longleftrightarrow> (\<forall>k. 0 < fst (wb k) \<and> \<not> snd (wb k))"

lemma peer_shard_less [simp]: "getShard a < numShards"
  by (simp add: getShard_def Let_def)

lemma batch_okD:
  assumes "batch_ok b" "lookup_peer b a = Some j"
  shows "\<exists>pb. bt_objs b j = Some pb \<and> pb_udpAddr pb = a \<and> pb_count pb < maxBatchSize \<and> length (pb_slots pb) = maxBatchSize"
  using assms peer_shard_less [of a] unfolding batch_ok_def lookup_peer_def by blast

lemma lookup_inj: "batch_ok b \<Longrightarrow> lookup_peer b a = Some j \<Longrightarrow> lookup_peer b c = Some j \<Longrightarrow> a = c"
  using batch_okD [of b a j] batch_okD [of b c j] by auto

lemma flush_loop_prefix:
  "\<exists>m. fst (flush_loop wb k msgs) = take m msgs \<and> (accepts wb \<longrightarrow> m = length msgs \<and> \<not> snd (flush_loop wb k msgs))"
proof (induction wb k msgs rule: flush_loop.induct)
  case (1 wb k msgs)
  obtain n err where w: "wb k = (n, err)" by (rule prod.exhaust)
  show ?case
  proof (cases "msgs = [] \<or> err \<or> n \<le> 0")
    case True
    have acc: "\<not> accepts wb" if "msgs \<noteq> []" using True that w by (auto simp: accepts_def intro!: exI [of _ k])
    consider "msgs = []" | "msgs \<noteq> []" err | "msgs \<noteq> []" "\<not> err" "n \<le> 0" using True by blast
    then show ?thesis
    proof cases
      case 1
      then show ?thesis by (simp add: flush_loop.simps)
    next
      case 2
      then show ?thesis using acc by (intro exI [of _ "nat n"]) (simp add: flush_loop.simps [of wb k] w Let_def)
    next
      case 3
      then show ?thesis using acc by (intro exI [of _ 0]) (simp add: flush_loop.simps [of wb k] w Let_def)
    qed
  next
    case False
    then obtain m where m: "fst (flush_loop wb (k + 1) (drop (nat n) msgs)) = take m (drop (nat n) msgs)"
      "accepts wb \<longrightarrow> m = length (drop (nat n) msgs) \<and> \<not> snd (flush_loop wb (k + 1) (drop (nat n) msgs))"
      using "1.IH" [OF _ w [symmetric] refl] by auto
    have fl: "flush_loop wb k msgs = (take (nat n) msgs @ fst (flush_loop wb (k + 1) (drop (nat n) msgs)), snd (flush_loop wb (k + 1) (drop (nat n) msgs)))"
      using False by (subst flush_loop.simps) (simp add: w Let_def split: prod.split)
    have "take (nat n) msgs @ take m (drop (nat n) msgs) = take (nat n + m) msgs" by (simp add: take_add)
    then show ?thesis unfolding fl using m by (intro exI [of _ "if accepts wb then length msgs else nat n + m"]) (auto split: if_splits)
  qed
qed

text \<open>Changing one batch.\<close>

lemma batch_ok_set:
  assumes "batch_ok b" "bt_objs b j = Some pb" "pb_udpAddr pb' = pb_udpAddr pb" "pb_count pb' < maxBatchSize" "length (pb_slots pb') = length (pb_slots pb)"
  shows "batch_ok (b\<lparr>bt_objs := (bt_objs b)(j \<mapsto> pb')\<rparr>)"
proof -
  have "\<exists>q. ((bt_objs b)(j \<mapsto> pb')) i = Some q \<and> pb_udpAddr q = a \<and> pb_count q < maxBatchSize \<and> length (pb_slots q) = maxBatchSize"
    if "\<exists>q. bt_objs b i = Some q \<and> pb_udpAddr q = a \<and> pb_count q < maxBatchSize \<and> length (pb_slots q) = maxBatchSize" for i a
    using that assms(2-5) by auto
  then show ?thesis using assms(1,2) unfolding batch_ok_def by (auto simp: domI)
qed

lemma batch_ok_wire [simp]: "batch_ok (b\<lparr>bt_wire := w\<rparr>) = batch_ok b"
  by (simp add: batch_ok_def)

lemma lookup_simps [simp]:
  "lookup_peer (b\<lparr>bt_objs := o'\<rparr>) = lookup_peer b" "lookup_peer (b\<lparr>bt_wire := w\<rparr>) = lookup_peer b"
  by (simp_all add: lookup_peer_def fun_eq_iff)

lemma waiting_set:
  assumes "batch_ok b" "lookup_peer b a = Some j"
  shows "waiting (b\<lparr>bt_objs := (bt_objs b)(j \<mapsto> pb)\<rparr>) c = (if c = a then take (pb_count pb) (pb_slots pb) else waiting b c)"
proof (cases "c = a")
  case False
  then have "lookup_peer b c \<noteq> Some j" using lookup_inj [OF assms, of c] by blast
  then show ?thesis using False by (cases "lookup_peer b c") (simp_all add: waiting_def)
qed (simp add: waiting_def assms(2))

lemma wire_simps [simp]:
  "waiting (b\<lparr>bt_wire := w\<rparr>) = waiting b" "on_wire (b\<lparr>bt_objs := o'\<rparr>) = on_wire b" "on_wire (b\<lparr>bt_wire := w @ map (Pair a) xs\<rparr>) c =
   on_wire (b\<lparr>bt_wire := w\<rparr>) c @ (if c = a then xs else [])"
  by (simp_all add: waiting_def on_wire_def fun_eq_iff filter_map comp_def split: option.split)

text \<open>A flush sends a prefix of what waits, everything when the kernel accepts it, and empties the batch.\<close>

definition flushed :: "bool \<Rightarrow> addr_port \<Rightarrow> batcher \<Rightarrow> batcher \<Rightarrow> bool" where
  "flushed rel a b b' \<longleftrightarrow> batch_ok b' \<and> lookup_peer b' = lookup_peer b \<and> bt_closed b' = bt_closed b \<and> bt_shards b' = bt_shards b \<and>
     (\<exists>m. on_wire b' a = on_wire b a @ take m (waiting b a) \<and> (rel \<longrightarrow> length (waiting b a) \<le> m)) \<and> waiting b' a = [] \<and>
     (\<forall>c. c \<noteq> a \<longrightarrow> on_wire b' c = on_wire b c \<and> waiting b' c = waiting b c)"

lemma flushLocked_flushed:
  assumes "batch_ok b" "lookup_peer b a = Some j" "flushLocked wb j b = (err, b')"
  shows "flushed (accepts wb) a b b'" "accepts wb \<Longrightarrow> \<not> err"
proof -
  obtain pb where pb: "bt_objs b j = Some pb" "pb_udpAddr pb = a" using batch_okD [OF assms(1,2)] by blast
  let ?w = "take (pb_count pb) (pb_slots pb)"
  have w: "waiting b a = ?w" using pb assms(2) by (simp add: waiting_def)
  obtain m where m: "fst (flush_loop wb 0 ?w) = take m ?w" "accepts wb \<longrightarrow> m = length ?w \<and> \<not> snd (flush_loop wb 0 ?w)"
    using flush_loop_prefix by blast
  have "flushed (accepts wb) a b b' \<and> (accepts wb \<longrightarrow> \<not> err)"
  proof (cases "pb_count pb = 0")
    case True
    then have "b' = b" "\<not> err" using assms(3) pb by (simp_all add: flushLocked_def)
    then show ?thesis using assms(1) w True by (simp add: flushed_def)
  next
    case False
    let ?b = "b\<lparr>bt_objs := (bt_objs b)(j \<mapsto> pb\<lparr>pb_count := 0\<rparr>)\<rparr>"
    have b': "b' = ?b\<lparr>bt_wire := bt_wire b @ map (Pair a) (take m ?w)\<rparr>" "err = snd (flush_loop wb 0 ?w)"
      using assms(3) pb False m(1) by (auto simp: flushLocked_def Let_def split: prod.splits)
    have "batch_ok b'" unfolding b'(1) using batch_ok_set [OF assms(1) pb(1), of "pb\<lparr>pb_count := 0\<rparr>"] by simp
    moreover have "waiting b' c = (if c = a then [] else waiting b c)" for c
      unfolding b'(1) using waiting_set [OF assms(1,2), of "pb\<lparr>pb_count := 0\<rparr>" c] by simp
    moreover have "on_wire b' c = on_wire b c @ (if c = a then take m ?w else [])" for c
      unfolding b'(1) by (simp add: on_wire_def comp_def)
    ultimately show ?thesis using w m(2) b' by (auto simp: flushed_def)
  qed
  then show "flushed (accepts wb) a b b'" "accepts wb \<Longrightarrow> \<not> err" by auto
qed

subsection \<open>The operations\<close>

lemma flush_loop_nil [simp]: "flush_loop wb k [] = ([], False)"
  by (simp add: flush_loop.simps)

lemma getOrCreate_ok:
  assumes "batch_ok b" "getOrCreatePeerBatch now a b = (j, b')"
  shows "batch_ok b'" "lookup_peer b' a = Some j" "waiting b' = waiting b" "on_wire b' = on_wire b" "bt_closed b' = bt_closed b"
proof -
  have "batch_ok b' \<and> lookup_peer b' a = Some j \<and> waiting b' = waiting b \<and> on_wire b' = on_wire b \<and> bt_closed b' = bt_closed b"
  proof (cases "lookup_peer b a")
    case (Some i)
    then show ?thesis using assms by (auto simp: getOrCreatePeerBatch_def)
  next
    case None
    let ?i = "getShard a" and ?n = "bt_fresh b"
    have b': "b' = b\<lparr>bt_objs := (bt_objs b)(?n \<mapsto> newPeerBatch now a), bt_fresh := ?n + 1,
        bt_shards := (bt_shards b)[?i := (bt_shards b ! ?i)(a \<mapsto> ?n)]\<rparr>" "j = ?n"
      using assms(2) None by (auto simp: getOrCreatePeerBatch_def)
    have len: "length (bt_shards b) = numShards" using assms(1) by (simp add: batch_ok_def)
    have fresh: "i \<noteq> ?n" if "bt_objs b i = Some q" for i q using assms(1) that by (auto simp: batch_ok_def dom_def)
    have look: "lookup_peer b' c = (if c = a then Some ?n else lookup_peer b c)" for c
      using len by (cases "getShard c = ?i") (auto simp: b' lookup_peer_def)
    have "waiting b' c = waiting b c" for c
    proof (cases "lookup_peer b c")
      case None': None
      then show ?thesis using look [of c] None by (auto simp: waiting_def b' newPeerBatch_def)
    next
      case (Some i)
      then obtain q where "bt_objs b i = Some q" using batch_okD [OF assms(1)] by blast
      then show ?thesis using Some None look [of c] fresh by (auto simp: waiting_def b')
    qed
    moreover have "batch_ok b'"
      unfolding batch_ok_def
    proof (intro conjI allI impI ballI)
      show "length (bt_shards b') = numShards" using len by (simp add: b')
    next
      fix i c k assume i: "i < numShards" and k: "(bt_shards b' ! i) c = Some k"
      have old: "getShard c = i" if "(bt_shards b ! i) c = Some k" using assms(1) i that unfolding batch_ok_def by blast
      have "(bt_shards b' ! i) c = (if i = ?i \<and> c = a then Some ?n else (bt_shards b ! i) c)" using i len by (simp add: b' nth_list_update)
      then show "getShard c = i" using k old by (cases "i = ?i \<and> c = a") simp_all
      then have "lookup_peer b' c = Some k" using k by (simp add: lookup_peer_def)
      then show "\<exists>pb. bt_objs b' k = Some pb \<and> pb_udpAddr pb = c \<and> pb_count pb < maxBatchSize \<and> length (pb_slots pb) = maxBatchSize"
        using look [of c] batch_okD [OF assms(1), of c k] fresh [of k] by (cases "c = a") (auto simp: b' newPeerBatch_def)
    next
      fix i assume "i \<in> dom (bt_objs b')"
      then show "i < bt_fresh b'" using assms(1) by (auto simp: b' batch_ok_def dom_def split: if_splits)
    qed
    ultimately show ?thesis using look [of a] b' by (auto simp: on_wire_def fun_eq_iff)
  qed
  then show "batch_ok b'" "lookup_peer b' a = Some j" "waiting b' = waiting b" "on_wire b' = on_wire b" "bt_closed b' = bt_closed b" by auto
qed

text \<open>What writing \<open>buf\<close> to \<open>a\<close> does: the packets of \<open>a\<close> stay in order, others are untouched.\<close>

definition written_to :: "bool \<Rightarrow> addr_port \<Rightarrow> bytes \<Rightarrow> batcher \<Rightarrow> batcher \<Rightarrow> bool" where
  "written_to rel a buf b b' \<longleftrightarrow> batch_ok b' \<and> bt_closed b' = bt_closed b \<and>
     (\<exists>us. on_wire b' a = on_wire b a @ us \<and> subseq (us @ waiting b' a) (waiting b a @ [buf]) \<and> (rel \<longrightarrow> us @ waiting b' a = waiting b a @ [buf])) \<and>
     (\<forall>c. c \<noteq> a \<longrightarrow> on_wire b' c = on_wire b c \<and> waiting b' c = waiting b c)"

lemma subseq_take: "subseq (take m xs) xs"
  by (metis append_take_drop_id subseq_rev_drop_many subseq_order.refl)

lemma send_direct_written:
  assumes "flushed rel a b b'" "send_direct ok buf a b' = (r, b'')"
  shows "written_to (rel \<and> ok) a buf b b''" "waiting b'' a = []"
proof -
  obtain m where m: "on_wire b' a = on_wire b a @ take m (waiting b a)" "rel \<longrightarrow> length (waiting b a) \<le> m"
    using assms(1) by (auto simp: flushed_def)
  have b'': "b'' = b'\<lparr>bt_wire := bt_wire b' @ map (Pair a) (if ok then [buf] else [])\<rparr>"
    using assms(2) by (auto simp: send_direct_def)
  have w: "on_wire b'' c = on_wire b' c @ (if c = a \<and> ok then [buf] else [])" for c
    unfolding b'' by (auto simp: on_wire_def)
  show "waiting b'' a = []" unfolding b'' using assms(1) by (simp add: flushed_def)
  have "subseq (take m (waiting b a) @ (if ok then [buf] else [])) (waiting b a @ [buf])"
    by (rule list_emb_append_mono) (auto simp: subseq_take)
  then show "written_to (rel \<and> ok) a buf b b''"
    using assms(1) m w unfolding written_to_def flushed_def
    by (intro conjI exI [of _ "take m (waiting b a) @ (if ok then [buf] else [])"]) (auto simp: b'')
qed

lemma write_locked_written:
  assumes "batch_ok b" "lookup_peer b a = Some j"
  shows "\<exists>r b'. write_locked wb ok now buf a j b = Inr (r, b') \<and> written_to (accepts wb \<and> ok) a buf b b' \<and>
    (is_marker buf \<longrightarrow> waiting b' a = [])"
proof -
  obtain pb where pb: "bt_objs b j = Some pb" "pb_udpAddr pb = a" "pb_count pb < maxBatchSize" "length (pb_slots pb) = maxBatchSize"
    using batch_okD [OF assms] by blast
  let ?b1 = "b\<lparr>bt_objs := (bt_objs b)(j \<mapsto> pb\<lparr>pb_lastUsed := now\<rparr>)\<rparr>"
  have b1: "batch_ok ?b1" "lookup_peer ?b1 a = Some j" "waiting ?b1 = waiting b" "on_wire ?b1 = on_wire b"
    using batch_ok_set [OF assms(1) pb(1), of "pb\<lparr>pb_lastUsed := now\<rparr>"] waiting_set [OF assms, of "pb\<lparr>pb_lastUsed := now\<rparr>"] pb assms(2)
    by (auto simp: fun_eq_iff waiting_def)
  show ?thesis
  proof (cases "maxPacketSize < length buf")
    case True
    obtain err b2 where f: "flushLocked wb j ?b1 = (err, b2)" by (rule prod.exhaust)
    obtain r b3 where d: "send_direct ok buf a b2 = (r, b3)" by (rule prod.exhaust)
    have "write_locked wb ok now buf a j b = Inr (r, b3)" using True pb f d by (simp add: write_locked_def Let_def)
    moreover note send_direct_written [OF flushLocked_flushed(1) [OF b1(1,2) f] d]
    ultimately show ?thesis using b1(3,4) by (auto simp: written_to_def)
  next
    case False
    let ?pb = "pb\<lparr>pb_lastUsed := now, pb_slots := (pb_slots pb)[pb_count pb := buf], pb_count := pb_count pb + 1\<rparr>"
    let ?b2 = "b\<lparr>bt_objs := (bt_objs b)(j \<mapsto> ?pb)\<rparr>"
    have q: "take (pb_count pb + 1) ((pb_slots pb)[pb_count pb := buf]) = waiting b a @ [buf]"
      using pb assms(2) by (simp add: waiting_def take_Suc_conv_app_nth)
    obtain m where m: "fst (flush_loop wb 0 (waiting b a @ [buf])) = take m (waiting b a @ [buf])"
      "accepts wb \<longrightarrow> m = length (waiting b a @ [buf]) \<and> \<not> snd (flush_loop wb 0 (waiting b a @ [buf]))"
      using flush_loop_prefix by blast
    show ?thesis
    proof (cases "is_marker buf \<or> maxBatchSize \<le> pb_count pb + 1")
      case True
      define b3 where "b3 = b\<lparr>bt_objs := (bt_objs b)(j \<mapsto> ?pb\<lparr>pb_count := 0\<rparr>), bt_wire := bt_wire b @ map (Pair a) (take m (waiting b a @ [buf]))\<rparr>"
      have "\<exists>r. write_locked wb ok now buf a j b = Inr (r, b3)"
        using False True pb q m(1)
        by (auto simp: write_locked_def flushLocked_def b3_def Let_def split: prod.splits bool.splits)
      moreover have "batch_ok b3" unfolding b3_def using batch_ok_set [OF assms(1) pb(1), of "?pb\<lparr>pb_count := 0\<rparr>"] pb by simp
      moreover have w: "waiting b3 c = (if c = a then [] else waiting b c)" for c
        unfolding b3_def using waiting_set [OF assms, of "?pb\<lparr>pb_count := 0\<rparr>" c] by simp
      moreover have "on_wire b3 c = on_wire b c @ (if c = a then take m (waiting b a @ [buf]) else [])" for c
        unfolding b3_def by (simp add: on_wire_def comp_def)
      moreover have "subseq (take m (waiting b a @ [buf])) (waiting b a @ [buf])" by (rule subseq_take)
      ultimately show ?thesis using m(2) by (auto simp: written_to_def b3_def)
    next
      case no: False
      have "write_locked wb ok now buf a j b = Inr ((length buf, None), ?b2)"
        using False no pb by (simp add: write_locked_def Let_def)
      moreover have "batch_ok ?b2" using batch_ok_set [OF assms(1) pb(1), of ?pb] pb no by simp
      moreover have "waiting ?b2 c = (if c = a then waiting b a @ [buf] else waiting b c)" for c
        using waiting_set [OF assms, of ?pb c] q by simp
      ultimately show ?thesis using no by (auto simp: written_to_def)
    qed
  qed
qed

lemma WriteToAddrPort_written:
  assumes "batch_ok b" "\<not> bt_closed b" "buf \<noteq> []"
  shows "\<exists>r b'. WriteToAddrPort wb ok now buf a b = Inr (r, b') \<and> written_to (accepts wb \<and> ok) a buf b b' \<and>
    (\<not> is_rtp buf \<or> is_marker buf \<longrightarrow> waiting b' a = [])"
proof -
  obtain j b1 where g: "getOrCreatePeerBatch now a b = (j, b1)" by (rule prod.exhaust)
  note b1 = getOrCreate_ok [OF assms(1) g]
  have same: "written_to rel a buf b b' = written_to rel a buf b1 b'" for rel b' using b1 by (simp add: written_to_def)
  show ?thesis
  proof (cases "is_rtp buf")
    case True
    then have "WriteToAddrPort wb ok now buf a b = write_locked wb ok now buf a j b1"
      using assms(2,3) g by (simp add: WriteToAddrPort_def)
    then show ?thesis using write_locked_written [OF b1(1,2), of wb ok now buf] True unfolding same by auto
  next
    case False
    obtain err b2 where f: "flushLocked wb j b1 = (err, b2)" by (rule prod.exhaust)
    obtain r b3 where d: "send_direct ok buf a b2 = (r, b3)" by (rule prod.exhaust)
    have "WriteToAddrPort wb ok now buf a b = Inr (r, b3)" using False assms(2,3) g f d by (simp add: WriteToAddrPort_def)
    then show ?thesis using send_direct_written [OF flushLocked_flushed(1) [OF b1(1,2) f] d] unfolding same by blast
  qed
qed

text \<open>What flushing without writing does to all peers.\<close>

definition settled :: "bool \<Rightarrow> batcher \<Rightarrow> batcher \<Rightarrow> bool" where
  "settled rel b b' \<longleftrightarrow> batch_ok b' \<and> bt_closed b' = bt_closed b \<and>
     (\<forall>c. \<exists>us. on_wire b' c = on_wire b c @ us \<and> subseq (us @ waiting b' c) (waiting b c) \<and> (rel \<longrightarrow> us @ waiting b' c = waiting b c))"

lemma settled_refl: "batch_ok b \<Longrightarrow> settled rel b b"
  by (auto simp: settled_def)

lemma settled_trans:
  assumes "settled rel b b'" "settled rel b' b''" shows "settled rel b b''"
  unfolding settled_def
proof (intro conjI allI)
  fix c
  obtain us where us: "on_wire b' c = on_wire b c @ us" "subseq (us @ waiting b' c) (waiting b c)" "rel \<longrightarrow> us @ waiting b' c = waiting b c"
    using assms(1) unfolding settled_def by blast
  obtain vs where vs: "on_wire b'' c = on_wire b' c @ vs" "subseq (vs @ waiting b'' c) (waiting b' c)" "rel \<longrightarrow> vs @ waiting b'' c = waiting b' c"
    using assms(2) unfolding settled_def by blast
  have "subseq (us @ vs @ waiting b'' c) (us @ waiting b' c)" using vs(2) by (intro list_emb_append_mono) auto
  from subseq_order.order_trans [OF this us(2)] have "subseq ((us @ vs) @ waiting b'' c) (waiting b c)" unfolding append_assoc .
  then show "\<exists>us. on_wire b'' c = on_wire b c @ us \<and> subseq (us @ waiting b'' c) (waiting b c) \<and> (rel \<longrightarrow> us @ waiting b'' c = waiting b c)"
    using us vs by (intro exI [of _ "us @ vs"]) auto
qed (use assms in \<open>simp_all add: settled_def\<close>)

lemma settled_empty: "settled rel b b' \<Longrightarrow> waiting b c = [] \<Longrightarrow> waiting b' c = []"
  unfolding settled_def by (metis append_is_Nil_conv list_emb_Nil2)

lemma flushed_settled: "flushed rel a b b' \<Longrightarrow> settled rel b b'"
  unfolding settled_def
proof (intro conjI allI)
  fix c assume f: "flushed rel a b b'"
  show "\<exists>us. on_wire b' c = on_wire b c @ us \<and> subseq (us @ waiting b' c) (waiting b c) \<and> (rel \<longrightarrow> us @ waiting b' c = waiting b c)"
  proof (cases "c = a")
    case True
    then obtain m where "on_wire b' c = on_wire b c @ take m (waiting b c)" "rel \<longrightarrow> length (waiting b c) \<le> m" "waiting b' c = []"
      using f by (auto simp: flushed_def)
    then show ?thesis using subseq_take by (intro exI [of _ "take m (waiting b c)"]) auto
  qed (use f in \<open>auto simp: flushed_def\<close>)
qed (auto simp: flushed_def)

lemma settled_weaken: "settled rel b b' \<Longrightarrow> (rel' \<longrightarrow> rel) \<Longrightarrow> settled rel' b b'"
  unfolding settled_def by blast

lemma batch_ok_restrict:
  assumes "batch_ok b" "length S = numShards" "\<And>i a j. i < numShards \<Longrightarrow> (S ! i) a = Some j \<Longrightarrow> (bt_shards b ! i) a = Some j"
  shows "batch_ok (b\<lparr>bt_shards := S\<rparr>)"
  unfolding batch_ok_def
proof (intro conjI allI impI ballI)
  fix i a j assume i: "i < numShards" and "(bt_shards (b\<lparr>bt_shards := S\<rparr>) ! i) a = Some j"
  then have "(bt_shards b ! i) a = Some j" using assms(3) by simp
  then show "getShard a = i" "\<exists>pb. bt_objs (b\<lparr>bt_shards := S\<rparr>) j = Some pb \<and> pb_udpAddr pb = a \<and> pb_count pb < maxBatchSize \<and> length (pb_slots pb) = maxBatchSize"
    using assms(1) i unfolding batch_ok_def by auto
qed (use assms(1,2) in \<open>auto simp: batch_ok_def\<close>)

lemma remove_peer:
  assumes "batch_ok b" "waiting b a = []"
  defines "b' \<equiv> b\<lparr>bt_shards := (bt_shards b)[getShard a := (bt_shards b ! getShard a)(a := None)]\<rparr>"
  shows "settled rel b b'"
proof -
  have len: "length (bt_shards b) = numShards" using assms(1) by (simp add: batch_ok_def)
  have nth: "(bt_shards b' ! i) c = (if i = getShard a \<and> c = a then None else (bt_shards b ! i) c)" if "i < numShards" for i c
    using len that by (simp add: b'_def nth_list_update)
  have "batch_ok b'" unfolding b'_def
    by (rule batch_ok_restrict [OF assms(1)]) (use len nth in \<open>auto simp: b'_def split: if_splits\<close>)
  moreover have "lookup_peer b' c = (if c = a then None else lookup_peer b c)" for c
    using nth [of "getShard c" c] by (simp add: lookup_peer_def)
  then have "waiting b' c = waiting b c" for c using assms(2) by (auto simp: waiting_def b'_def split: option.split)
  ultimately show ?thesis by (simp add: settled_def on_wire_def b'_def)
qed

lemma clean_peer_settled:
  assumes "batch_ok b" "rel \<longrightarrow> accepts (wb a)"
  shows "settled rel b (clean_peer wb now a b)"
proof (cases "lookup_peer b a")
  case (Some j)
  obtain err b1 where f: "flushLocked (wb a) j b = (err, b1)" by (rule prod.exhaust)
  note fl = flushLocked_flushed(1) [OF assms(1) Some f]
  have s: "settled rel b b1" using flushed_settled [OF fl] assms(2) by (rule settled_weaken)
  have "settled rel b1 (b1\<lparr>bt_shards := (bt_shards b1)[getShard a := (bt_shards b1 ! getShard a)(a := None)]\<rparr>)"
    using fl by (intro remove_peer) (auto simp: flushed_def)
  then show ?thesis using s settled_trans [OF s] by (auto simp: clean_peer_def Some f Let_def split: option.split)
qed (use assms(1) in \<open>simp add: clean_peer_def settled_refl\<close>)

lemma fold_settled:
  assumes "\<And>x b. batch_ok b \<Longrightarrow> x \<in> set xs \<Longrightarrow> settled rel b (f x b)"
  shows "batch_ok b \<Longrightarrow> settled rel b (fold f xs b)"
  using assms
proof (induction xs arbitrary: b)
  case (Cons x xs)
  have s: "settled rel b (f x b)" using Cons.prems by simp
  then have "settled rel (f x b) (fold f xs (f x b))" using Cons by (simp add: settled_def)
  then show ?case using settled_trans [OF s] by simp
qed (simp add: settled_refl)

lemma cleanup_settled: "batch_ok b \<Longrightarrow> rel \<longrightarrow> (\<forall>a. accepts (wb a)) \<Longrightarrow> settled rel b (cleanup_tick wb now order b)"
  unfolding cleanup_tick_def using clean_peer_settled by (intro fold_settled) blast+

definition flush_addr :: "(addr_port \<Rightarrow> nat \<Rightarrow> int \<times> bool) \<Rightarrow> addr_port \<Rightarrow> batcher \<Rightarrow> batcher" where
  "flush_addr wb addr b = (case lookup_peer b addr of None \<Rightarrow> b | Some j \<Rightarrow> snd (flushLocked (wb addr) j b))"

lemma flush_addr_settled:
  assumes "batch_ok b" "rel \<longrightarrow> accepts (wb a)"
  shows "settled rel b (flush_addr wb a b)" "waiting (flush_addr wb a b) a = []" "bt_shards (flush_addr wb a b) = bt_shards b"
proof -
  have "settled rel b (flush_addr wb a b) \<and> waiting (flush_addr wb a b) a = [] \<and> bt_shards (flush_addr wb a b) = bt_shards b"
  proof (cases "lookup_peer b a")
    case (Some j)
    obtain err b1 where f: "flushLocked (wb a) j b = (err, b1)" by (rule prod.exhaust)
    note fl = flushLocked_flushed(1) [OF assms(1) Some f]
    have "settled rel b b1" using flushed_settled [OF fl] assms(2) by (rule settled_weaken)
    then show ?thesis using fl by (simp add: flush_addr_def Some f flushed_def)
  qed (use assms(1) in \<open>simp add: flush_addr_def settled_refl waiting_def\<close>)
  then show "settled rel b (flush_addr wb a b)" "waiting (flush_addr wb a b) a = []" "bt_shards (flush_addr wb a b) = bt_shards b" by auto
qed

lemma flush_addrs_settled:
  assumes "rel \<longrightarrow> (\<forall>a. accepts (wb a))"
  shows "batch_ok b \<Longrightarrow> settled rel b (fold (flush_addr wb) as b) \<and> bt_shards (fold (flush_addr wb) as b) = bt_shards b \<and>
    (\<forall>a\<in>set as. waiting (fold (flush_addr wb) as b) a = [])"
proof (induction as arbitrary: b)
  case (Cons a as)
  let ?b = "flush_addr wb a b"
  have f: "settled rel b ?b" "waiting ?b a = []" "bt_shards ?b = bt_shards b" using flush_addr_settled [OF Cons.prems] assms by blast+
  have IH: "settled rel ?b (fold (flush_addr wb) as ?b)" "bt_shards (fold (flush_addr wb) as ?b) = bt_shards ?b"
    "\<forall>c\<in>set as. waiting (fold (flush_addr wb) as ?b) c = []"
    using Cons.IH [of ?b] f(1) by (auto simp: settled_def)
  show ?case using settled_trans [OF f(1) IH(1)] settled_empty [OF IH(1) f(2)] IH(2,3) f(3) by simp
qed (simp add: settled_refl)

lemma close_shard_settled:
  assumes "batch_ok b" "i < numShards" "rel \<longrightarrow> (\<forall>a. accepts (wb a))" "dom (bt_shards b ! i) \<subseteq> set (order i)"
  shows "settled rel b (close_shard wb order i b)" "bt_shards (close_shard wb order i b) = (bt_shards b)[i := Map.empty]"
proof -
  let ?b = "fold (flush_addr wb) (order i) b"
  have f: "settled rel b ?b" "bt_shards ?b = bt_shards b" "\<forall>a\<in>set (order i). waiting ?b a = []"
    using flush_addrs_settled [OF assms(3,1)] by blast+
  have cs: "close_shard wb order i b = ?b\<lparr>bt_shards := (bt_shards ?b)[i := Map.empty]\<rparr>"
    by (simp add: close_shard_def flush_addr_def [abs_def] Let_def)
  let ?c = "close_shard wb order i b"
  show "bt_shards ?c = (bt_shards b)[i := Map.empty]" by (simp add: cs f(2))
  have ok: "batch_ok ?b" and len: "length (bt_shards ?b) = numShards" using f(1) by (simp_all add: settled_def batch_ok_def)
  have nth: "(bt_shards ?c ! j) a = (if j = i then None else (bt_shards ?b ! j) a)" if "j < numShards" for j a
    using len that by (simp add: cs nth_list_update)
  have "batch_ok ?c" unfolding cs
    by (rule batch_ok_restrict [OF ok]) (use len nth in \<open>auto simp: cs split: if_splits\<close>)
  moreover have "waiting ?c a = waiting ?b a" for a
  proof (cases "getShard a = i \<and> lookup_peer ?b a \<noteq> None")
    case True
    then have "a \<in> set (order i)" using assms(4) f(2) by (auto simp: lookup_peer_def)
    then show ?thesis using f(3) nth [of i a] True assms(2) by (simp add: waiting_def [of ?c] lookup_peer_def)
  next
    case False
    then have "lookup_peer ?c a = lookup_peer ?b a" using nth [of "getShard a" a] by (auto simp: lookup_peer_def)
    then show ?thesis by (simp add: waiting_def cs split: option.split)
  qed
  ultimately have "settled rel ?b ?c" by (simp add: settled_def on_wire_def cs)
  then show "settled rel b ?c" using settled_trans [OF f(1)] by blast
qed

lemma close_shards_settled:
  assumes "batch_ok b" "rel \<longrightarrow> (\<forall>a. accepts (wb a))" "\<forall>i < numShards. dom (bt_shards b ! i) \<subseteq> set (order i)"
  shows "k \<le> numShards \<Longrightarrow> settled rel b (fold (close_shard wb order) [0..<k] b) \<and>
    (\<forall>i < numShards. bt_shards (fold (close_shard wb order) [0..<k] b) ! i = (if i < k then Map.empty else bt_shards b ! i))"
proof (induction k)
  case (Suc k)
  let ?b = "fold (close_shard wb order) [0..<k] b"
  have IH: "settled rel b ?b" "\<forall>i < numShards. bt_shards ?b ! i = (if i < k then Map.empty else bt_shards b ! i)" using Suc by auto
  have ok: "batch_ok ?b" using IH(1) by (simp add: settled_def)
  have "dom (bt_shards ?b ! k) \<subseteq> set (order k)" using IH(2) Suc.prems assms(3) by simp
  note c = close_shard_settled [of ?b k rel wb order, OF ok Suc_le_lessD [OF Suc.prems] assms(2) this]
  have len: "length (bt_shards ?b) = numShards" using ok by (simp add: batch_ok_def)
  show ?case using settled_trans [OF IH(1) c(1)] c(2) IH(2) len Suc.prems by (auto simp: nth_list_update less_Suc_eq)
qed (simp add: assms(1) settled_refl)

lemma Close_settled:
  assumes "batch_ok b" "\<not> bt_closed b" "rel \<longrightarrow> (\<forall>a. accepts (wb a))" "\<forall>i < numShards. dom (bt_shards b ! i) \<subseteq> set (order i)"
  shows "settled rel (b\<lparr>bt_closed := True\<rparr>) (batcher_Close wb order b)" "waiting (batcher_Close wb order b) a = []"
proof -
  let ?b = "b\<lparr>bt_closed := True\<rparr>" and ?c = "batcher_Close wb order b"
  have ok: "batch_ok ?b" "\<forall>i < numShards. dom (bt_shards ?b ! i) \<subseteq> set (order i)" using assms(1,4) by (simp_all add: batch_ok_def)
  have c: "?c = fold (close_shard wb order) [0..<numShards] ?b" using assms(2) by (simp add: batcher_Close_def)
  have cs: "settled rel ?b ?c" "\<forall>i < numShards. bt_shards ?c ! i = Map.empty"
    using close_shards_settled [OF ok(1) assms(3) ok(2), of numShards] unfolding c by auto
  then show "settled rel ?b ?c" "waiting ?c a = []" by (simp_all add: waiting_def lookup_peer_def)
qed

text \<open>All sequences of operations, with the packets handed to the batcher for each peer; \<open>rel\<close> says that the kernel accepts everything.\<close>

inductive batch_reach :: "bool \<Rightarrow> batcher \<Rightarrow> (addr_port \<Rightarrow> bytes list) \<Rightarrow> bool" for rel where
  batch_start: "batch_reach rel newPlatformBatcher (\<lambda>_. [])"
| batch_write: "batch_reach rel b h \<Longrightarrow> WriteToAddrPort wb ok now buf a b = Inr (r, b') \<Longrightarrow> (rel \<longrightarrow> accepts wb \<and> ok) \<Longrightarrow>
    batch_reach rel b' (if bt_closed b \<or> buf = [] then h else h(a := h a @ [buf]))"
| batch_tick: "batch_reach rel b h \<Longrightarrow> (rel \<longrightarrow> (\<forall>a. accepts (wb a))) \<Longrightarrow> batch_reach rel (cleanup_tick wb now order b) h"
| batch_close: "batch_reach rel b h \<Longrightarrow> (rel \<longrightarrow> (\<forall>a. accepts (wb a))) \<Longrightarrow> (\<forall>i < numShards. dom (bt_shards b ! i) \<subseteq> set (order i)) \<Longrightarrow>
    batch_reach rel (batcher_Close wb order b) h"

definition batch_inv :: "bool \<Rightarrow> batcher \<Rightarrow> (addr_port \<Rightarrow> bytes list) \<Rightarrow> bool" where
  "batch_inv rel b h \<longleftrightarrow> batch_ok b \<and> (\<forall>a. subseq (on_wire b a @ waiting b a) (h a) \<and> (rel \<longrightarrow> on_wire b a @ waiting b a = h a)) \<and>
     (bt_closed b \<longrightarrow> (\<forall>a. waiting b a = []))"

lemma settled_inv:
  assumes "batch_inv rel b h" "settled rel b b'" shows "batch_inv rel b' h"
  unfolding batch_inv_def
proof (intro conjI allI impI)
  show "batch_ok b'" using assms(2) by (simp add: settled_def)
  fix a
  obtain us where us: "on_wire b' a = on_wire b a @ us" "subseq (us @ waiting b' a) (waiting b a)" "rel \<longrightarrow> us @ waiting b' a = waiting b a"
    using assms(2) unfolding settled_def by blast
  have "subseq (on_wire b a @ us @ waiting b' a) (on_wire b a @ waiting b a)" using us(2) by (intro list_emb_append_mono) auto
  note sub = this
  have h: "subseq (on_wire b a @ waiting b a) (h a)" "rel \<longrightarrow> on_wire b a @ waiting b a = h a" using assms(1) by (auto simp: batch_inv_def)
  show "subseq (on_wire b' a @ waiting b' a) (h a)" using subseq_order.order_trans [OF sub h(1)] unfolding us(1) append_assoc .
  show "on_wire b' a @ waiting b' a = h a" if rel using us h that by simp
  show "waiting b' a = []" if "bt_closed b'" using assms that settled_empty [OF assms(2)] by (simp add: batch_inv_def settled_def)
qed

lemma written_inv:
  assumes "batch_inv rel b h" "\<not> bt_closed b" "written_to rel a buf b b'" shows "batch_inv rel b' (h(a := h a @ [buf]))"
  unfolding batch_inv_def
proof (intro conjI allI impI)
  show "batch_ok b'" using assms(3) by (simp add: written_to_def)
  fix c
  have h: "subseq (on_wire b c @ waiting b c) (h c)" "rel \<longrightarrow> on_wire b c @ waiting b c = h c" using assms(1) by (auto simp: batch_inv_def)
  have "subseq (on_wire b' c @ waiting b' c) ((h(a := h a @ [buf])) c) \<and> (rel \<longrightarrow> on_wire b' c @ waiting b' c = (h(a := h a @ [buf])) c)"
  proof (cases "c = a")
    case True
    obtain us where us: "on_wire b' a = on_wire b a @ us" "subseq (us @ waiting b' a) (waiting b a @ [buf])" "rel \<longrightarrow> us @ waiting b' a = waiting b a @ [buf]"
      using assms(3) unfolding written_to_def by blast
    have "subseq (on_wire b a @ us @ waiting b' a) (on_wire b a @ waiting b a @ [buf])" by (rule list_emb_append_mono [OF subseq_order.refl us(2)])
    note sub = this
    have "subseq (on_wire b a @ waiting b a @ [buf]) (h a @ [buf])"
      using list_emb_append_mono [OF h(1) subseq_order.refl, of "[buf]"] True by simp
    from subseq_order.order_trans [OF sub this] have "subseq (on_wire b' a @ waiting b' a) (h a @ [buf])" unfolding us(1) append_assoc .
    then show ?thesis using True us h(2) by auto
  next
    case False
    then have "on_wire b' c = on_wire b c" "waiting b' c = waiting b c" using assms(3) unfolding written_to_def by blast+
    then show ?thesis using h False by simp
  qed
  then show "subseq (on_wire b' c @ waiting b' c) ((h(a := h a @ [buf])) c)"
    "rel \<Longrightarrow> on_wire b' c @ waiting b' c = (h(a := h a @ [buf])) c" by blast+
  show "waiting b' c = []" if "bt_closed b'" using assms(2,3) that by (simp add: written_to_def)
qed

lemma closed_simps [simp]:
  "batch_ok (b\<lparr>bt_closed := x\<rparr>) = batch_ok b" "on_wire (b\<lparr>bt_closed := x\<rparr>) = on_wire b" "waiting (b\<lparr>bt_closed := x\<rparr>) = waiting b"
  by (simp_all add: fun_eq_iff batch_ok_def on_wire_def waiting_def lookup_peer_def split: option.split)

lemma batch_reach_inv: "batch_reach rel b h \<Longrightarrow> batch_inv rel b h"
proof (induction rule: batch_reach.induct)
  case batch_start
  have "bt_shards newPlatformBatcher ! i = Map.empty" if "i < numShards" for i using that by (simp add: newPlatformBatcher_def)
  then show ?case by (auto simp: batch_inv_def batch_ok_def waiting_def lookup_peer_def) (simp_all add: newPlatformBatcher_def on_wire_def)
next
  case (batch_write b h wb ok now buf a r b')
  show ?case
  proof (cases "bt_closed b \<or> buf = []")
    case True
    then have "b' = b" using batch_write.hyps(2) by (auto simp: WriteToAddrPort_def split: if_splits)
    then show ?thesis using True batch_write.IH by simp
  next
    case False
    then have "written_to (accepts wb \<and> ok) a buf b b'"
      using WriteToAddrPort_written [of b buf wb ok now a] batch_write.IH batch_write.hyps(2) by (auto simp: batch_inv_def)
    then have w: "written_to rel a buf b b'" using batch_write.hyps(3) by (auto simp: written_to_def)
    have "\<not> bt_closed b" using False by simp
    then show ?thesis unfolding if_not_P [OF False] using written_inv [OF batch_write.IH _ w] by blast
  qed
next
  case (batch_tick b h wb now order)
  then show ?case using settled_inv [OF batch_tick.IH cleanup_settled] by (auto simp: batch_inv_def)
next
  case (batch_close b h wb order)
  show ?case
  proof (cases "bt_closed b")
    case False
    have "batch_ok b" using batch_close.IH by (simp add: batch_inv_def)
    note c = Close_settled [OF this False batch_close.hyps(2,3)]
    have "settled rel b ((batcher_Close wb order b)\<lparr>bt_closed := False\<rparr>)" using c(1) False by (simp add: settled_def)
    from settled_inv [OF batch_close.IH this] show ?thesis using c(2) by (simp add: batch_inv_def)
  qed (use batch_close.IH in \<open>simp add: batcher_Close_def\<close>)
qed

lemma waiting_less: "batch_ok b \<Longrightarrow> length (waiting b a) < maxBatchSize"
  using batch_okD [of b a] by (cases "lookup_peer b a") (fastforce simp: waiting_def)+

text \<open>C35: The batching sender keeps every peer's packets in order. After any sequence of writes, clean-up passes and \<open>Close\<close>, none overlapping another, what was sent to a peer followed by what
  waits in its batch is a subsequence of the packets written for it, and exactly those packets when the kernel accepts what it is given;
  fewer than 32 packets wait, and none after \<open>Close\<close>. A write never panics, and after a packet that ends a video frame or is not RTP nothing waits.\<close>

theorem batch_delivery:
  assumes "batch_reach rel b h"
  shows "(\<forall>a. subseq (on_wire b a @ waiting b a) (h a) \<and> (rel \<longrightarrow> on_wire b a @ waiting b a = h a) \<and>
      length (waiting b a) < maxBatchSize \<and> (bt_closed b \<longrightarrow> waiting b a = [])) \<and>
    (\<forall>wb ok now buf a. \<exists>r b'. WriteToAddrPort wb ok now buf a b = Inr (r, b') \<and>
      (\<not> bt_closed b \<and> buf \<noteq> [] \<and> (\<not> is_rtp buf \<or> is_marker buf) \<longrightarrow> waiting b' a = []))"
proof -
  have inv: "batch_inv rel b h" using assms by (rule batch_reach_inv)
  then have ok: "batch_ok b" by (simp add: batch_inv_def)
  have "\<exists>r b'. WriteToAddrPort wb ok now buf a b = Inr (r, b') \<and>
      (\<not> bt_closed b \<and> buf \<noteq> [] \<and> (\<not> is_rtp buf \<or> is_marker buf) \<longrightarrow> waiting b' a = [])" for wb ok now buf a
  proof (cases "bt_closed b \<or> buf = []")
    case False
    then show ?thesis using WriteToAddrPort_written [OF ok, of buf wb ok now a] by auto
  qed (auto simp: WriteToAddrPort_def)
  then show ?thesis using inv waiting_less [OF ok] by (auto simp: batch_inv_def)
qed

definition demo_peer :: addr_port where
  "demo_peer = \<lparr>ap_ip16 = replicate 16 7, ap_port = 50000, ap_is6 = False\<rparr>"

theorem batch_delivery_witness:
  "\<exists>b. batch_reach True b ((\<lambda>_. [])(demo_peer := [0x80 # replicate 11 1, 0x80 # 0xE0 # replicate 10 2])) \<and>
     on_wire b demo_peer = [0x80 # replicate 11 1, 0x80 # 0xE0 # replicate 10 2]"
proof -
  let ?p = "0x80 # replicate 11 1 :: bytes" and ?q = "0x80 # 0xE0 # replicate 10 2 :: bytes"
  let ?wb = "\<lambda>_ :: nat. (32 :: int, False)"
  have acc: "True \<longrightarrow> accepts ?wb \<and> True" by (simp add: accepts_def)
  note s0 = batch_start [of True]
  obtain r1 b1 where w1: "WriteToAddrPort ?wb True 0 ?p demo_peer newPlatformBatcher = Inr (r1, b1)"
    using batch_delivery [OF s0] by blast
  have c0: "\<not> bt_closed newPlatformBatcher" by (simp add: newPlatformBatcher_def)
  have s1: "batch_reach True b1 ((\<lambda>_. [])(demo_peer := [?p]))" using batch_write [OF s0 w1 acc] c0 by simp
  have c1: "\<not> bt_closed b1"
    using WriteToAddrPort_written [of newPlatformBatcher ?p ?wb True 0 demo_peer] batch_reach_inv [OF s0] w1 c0
    by (auto simp: batch_inv_def written_to_def)
  have m: "is_marker ?q" by (simp add: is_marker_def)
  obtain r2 b2 where w2: "WriteToAddrPort ?wb True 1 ?q demo_peer b1 = Inr (r2, b2)" "waiting b2 demo_peer = []"
    using batch_delivery [OF s1] c1 m by (metis list.distinct(1))
  have s2: "batch_reach True b2 ((\<lambda>_. [])(demo_peer := [?p, ?q]))" using batch_write [OF s1 w2(1) acc] c1 by simp
  have "on_wire b2 demo_peer @ waiting b2 demo_peer = [?p, ?q]" using batch_delivery [OF s2] by (metis fun_upd_same)
  then show ?thesis using s2 w2(2) by auto
qed

text \<open>The lookup of a batch and the write under its lock are separate: when the clean-up removes an idle peer in between, the packet is
  reported as written but neither sent nor waiting.\<close>

lemma write_to_removed_batch_is_lost:
  assumes "lookup_peer b a = None" "bt_objs b j = Some pb" "pb_count pb + 1 < maxBatchSize" "length buf \<le> maxPacketSize" "\<not> is_marker buf"
  shows "\<exists>b'. write_locked wb ok now buf a j b = Inr ((length buf, None), b') \<and> on_wire b' a = on_wire b a \<and> waiting b' a = []"
  using assms by (simp add: write_locked_def Let_def waiting_def on_wire_def)

end
